(* ===== verification/Prelude.thy ===== *)
theory Prelude
  imports "HOL-Library.Word"
begin

text \<open>
  Shared vocabulary of the development.

  The kernel is modelled in its default (debug) build profile: an arithmetic
  overflow, a failed \<open>assert!\<close>, \<open>debug_assert!\<close> or \<open>expect\<close> is a panic, and a panic
  halts the core (\<open>panic = "abort"\<close>, \<open>eira/src/main.rs\<close>). A computation that may
  panic therefore has type \<open>'a res\<close>: \<open>Inr x\<close> is a normal return and \<open>Inl a\<close> says
  how the core stopped. Taking a spin lock that the same core already holds never
  returns; that outcome is the value \<open>Deadlock\<close>.

  Machine integers are words of their width. The checked operations \<open>uadd\<close>, \<open>usub\<close>
  and \<open>umul\<close> are the operators \<open>+\<close>, \<open>-\<close>, \<open>*\<close> of the debug profile; \<open>checked_add\<close>,
  \<open>checked_sub\<close> and \<open>checked_mul\<close> are the standard library methods.
  Kernel memory is a store of aligned 64-bit cells, read and written through
  kernel virtual addresses.
\<close>

unbundle bit_operations_syntax

named_theorems res_simps \<open>rewrite rules that run the outcome monad\<close>
named_theorems unat_simps \<open>rules that read checked word arithmetic as arithmetic on nat\<close>

section \<open>Outcomes\<close>

type_synonym usize = "64 word"
type_synonym u64 = "64 word"
type_synonym u32 = "32 word"
type_synonym u16 = "16 word"
type_synonym u8 = "8 word"

type_synonym mem = "usize \<Rightarrow> u64"

datatype abort = Overflow | Panic string | Deadlock

type_synonym 'a res = "abort + 'a"

definition rbind :: "'a res \<Rightarrow> ('a \<Rightarrow> 'b res) \<Rightarrow> 'b res" where
  "rbind m f = (case m of Inl e \<Rightarrow> Inl e | Inr x \<Rightarrow> f x)"

definition require :: "bool \<Rightarrow> string \<Rightarrow> unit res" where
  "require b msg = (if b then Inr () else Inl (Panic msg))"

definition expect :: "'a option \<Rightarrow> string \<Rightarrow> 'a res" where
  "expect q msg = (case q of None \<Rightarrow> Inl (Panic msg) | Some x \<Rightarrow> Inr x)"

lemma rbind_simps [simp, res_simps]:
  "rbind (Inr x) f = f x"
  "rbind (Inl e) f = Inl e"
  by (simp_all add: rbind_def)

lemma rbind_Inr_iff [res_simps]:
  "rbind m f = Inr y \<longleftrightarrow> (\<exists>x. m = Inr x \<and> f x = Inr y)"
  by (cases m) auto

lemma rbind_Inl_iff [res_simps]:
  "rbind m f = Inl e \<longleftrightarrow> m = Inl e \<or> (\<exists>x. m = Inr x \<and> f x = Inl e)"
  by (cases m) auto

lemma rbind_assoc: "rbind (rbind m f) g = rbind m (\<lambda>x. rbind (f x) g)"
  by (cases m) auto

lemma rbind_cong [fundef_cong]:
  "m = m' \<Longrightarrow> (\<And>x. m' = Inr x \<Longrightarrow> f x = g x) \<Longrightarrow> rbind m f = rbind m' g"
  by (cases m') auto

lemma require_simps [simp, res_simps]:
  "require True msg = Inr ()"
  "require False msg = Inl (Panic msg)"
  "require b msg = Inr u \<longleftrightarrow> b"
  "require b msg = Inl e \<longleftrightarrow> \<not> b \<and> e = Panic msg"
  by (auto simp: require_def)

lemma expect_simps [simp, res_simps]:
  "expect (Some x) msg = Inr x"
  "expect None msg = Inl (Panic msg)"
  "expect q msg = Inr y \<longleftrightarrow> q = Some y"
  "expect q msg = Inl e \<longleftrightarrow> q = None \<and> e = Panic msg"
  by (auto simp: expect_def split: option.splits)

text \<open>Slices and arrays: indexing and \<open>copy_within\<close> panic outside the bounds.\<close>

definition array_get :: "'a list \<Rightarrow> nat \<Rightarrow> 'a res" where
  "array_get xs i = (if i < length xs then Inr (xs ! i) else Inl (Panic ''index out of bounds''))"

definition array_set :: "'a list \<Rightarrow> nat \<Rightarrow> 'a \<Rightarrow> 'a list res" where
  "array_set xs i v = (if i < length xs then Inr (xs[i := v]) else Inl (Panic ''index out of bounds''))"

definition copy_within :: "'a list \<Rightarrow> nat \<Rightarrow> nat \<Rightarrow> nat \<Rightarrow> 'a list res" where
  "copy_within xs from to dest =
     rbind (require (from \<le> to \<and> to \<le> length xs \<and> dest + (to - from) \<le> length xs)
              ''range out of bounds'') (\<lambda>_.
       Inr (take dest xs @ take (to - from) (drop from xs) @ drop (dest + (to - from)) xs))"

lemma array_simps [simp]:
  "i < length xs \<Longrightarrow> array_get xs i = Inr (xs ! i)"
  "i < length xs \<Longrightarrow> array_set xs i v = Inr (xs[i := v])"
  by (simp_all add: array_get_def array_set_def)

section \<open>Checked machine arithmetic\<close>

definition checked_add :: "'a::len word \<Rightarrow> 'a word \<Rightarrow> 'a word option" where
  "checked_add a b = (if unat a + unat b < 2 ^ LENGTH('a) then Some (a + b) else None)"

definition checked_sub :: "'a::len word \<Rightarrow> 'a word \<Rightarrow> 'a word option" where
  "checked_sub a b = (if b \<le> a then Some (a - b) else None)"

definition checked_mul :: "'a::len word \<Rightarrow> 'a word \<Rightarrow> 'a word option" where
  "checked_mul a b = (if unat a * unat b < 2 ^ LENGTH('a) then Some (a * b) else None)"

definition uadd :: "'a::len word \<Rightarrow> 'a word \<Rightarrow> 'a word res" where
  "uadd a b = (case checked_add a b of None \<Rightarrow> Inl Overflow | Some c \<Rightarrow> Inr c)"

definition usub :: "'a::len word \<Rightarrow> 'a word \<Rightarrow> 'a word res" where
  "usub a b = (case checked_sub a b of None \<Rightarrow> Inl Overflow | Some c \<Rightarrow> Inr c)"

definition umul :: "'a::len word \<Rightarrow> 'a word \<Rightarrow> 'a word res" where
  "umul a b = (case checked_mul a b of None \<Rightarrow> Inl Overflow | Some c \<Rightarrow> Inr c)"

lemma word_eq_unat: "a = b \<longleftrightarrow> unat a = unat b"
  for a b :: "'a::len word"
  by (simp add: word_unat_eq_iff)

lemma unat_bound: "unat a < 2 ^ LENGTH('a)"
  for a :: "'a::len word"
  by (rule unsigned_less)

lemma unat_of_nat_64: "n < 2 ^ 64 \<Longrightarrow> unat (of_nat n :: usize) = n"
  by (simp add: unat_of_nat)

lemma of_nat_eq_64: "a < 2 ^ 64 \<Longrightarrow> b < 2 ^ 64 \<Longrightarrow> of_nat a = (of_nat b :: 64 word) \<longleftrightarrow> a = b"
  by (metis unat_of_nat_64)

lemma checked_add_Some [unat_simps]:
  "checked_add a b = Some c \<longleftrightarrow> unat c = unat a + unat b"
  for a b c :: "'a::len word"
  by (auto simp: checked_add_def word_eq_unat unat_word_ariths)
    (metis unat_bound)

lemma checked_add_None [unat_simps]:
  "checked_add a b = None \<longleftrightarrow> 2 ^ LENGTH('a) \<le> unat a + unat b"
  for a b :: "'a::len word"
  by (simp add: checked_add_def not_less)

lemma checked_sub_Some [unat_simps]:
  "checked_sub a b = Some c \<longleftrightarrow> unat a = unat c + unat b"
  for a b c :: "'a::len word"
  by (auto simp: checked_sub_def word_eq_unat word_le_nat_alt unat_sub unat_plus_if')

lemma checked_sub_None [unat_simps]:
  "checked_sub a b = None \<longleftrightarrow> unat a < unat b"
  for a b :: "'a::len word"
  by (simp add: checked_sub_def word_le_nat_alt not_le)

lemma checked_mul_Some [unat_simps]:
  "checked_mul a b = Some c \<longleftrightarrow> unat c = unat a * unat b"
  for a b c :: "'a::len word"
  by (auto simp: checked_mul_def word_eq_unat unat_word_ariths)
    (metis unat_bound)

lemma checked_mul_None [unat_simps]:
  "checked_mul a b = None \<longleftrightarrow> 2 ^ LENGTH('a) \<le> unat a * unat b"
  for a b :: "'a::len word"
  by (simp add: checked_mul_def not_less)

lemma uadd_Inr [unat_simps]: "uadd a b = Inr c \<longleftrightarrow> unat c = unat a + unat b"
  for a b c :: "'a::len word"
  by (simp add: uadd_def checked_add_Some [symmetric] split: option.splits)

lemma uadd_Inl [unat_simps]:
  "uadd a b = Inl e \<longleftrightarrow> e = Overflow \<and> 2 ^ LENGTH('a) \<le> unat a + unat b"
  for a b :: "'a::len word"
  by (auto simp: uadd_def checked_add_def split: option.splits)

lemma usub_Inr [unat_simps]: "usub a b = Inr c \<longleftrightarrow> unat a = unat c + unat b"
  for a b c :: "'a::len word"
  by (simp add: usub_def checked_sub_Some [symmetric] split: option.splits)

lemma usub_Inl [unat_simps]: "usub a b = Inl e \<longleftrightarrow> e = Overflow \<and> unat a < unat b"
  for a b :: "'a::len word"
  by (auto simp: usub_def checked_sub_def word_le_nat_alt split: option.splits)

lemma umul_Inr [unat_simps]: "umul a b = Inr c \<longleftrightarrow> unat c = unat a * unat b"
  for a b c :: "'a::len word"
  by (simp add: umul_def checked_mul_Some [symmetric] split: option.splits)

lemma umul_Inl [unat_simps]:
  "umul a b = Inl e \<longleftrightarrow> e = Overflow \<and> 2 ^ LENGTH('a) \<le> unat a * unat b"
  for a b :: "'a::len word"
  by (auto simp: umul_def checked_mul_def split: option.splits)

section \<open>Powers of two and alignment masks\<close>

text \<open>\<open>usize::is_power_of_two\<close> counts the bits that are set.\<close>

definition count_ones :: "'a::len word \<Rightarrow> nat" where
  "count_ones a = length (filter (bit a) [0..<LENGTH('a)])"

definition is_power_of_two :: "'a::len word \<Rightarrow> bool" where
  "is_power_of_two a \<longleftrightarrow> count_ones a = 1"

lemma count_ones_card: "count_ones a = card {k. bit a k}"
  for a :: "'a::len word"
proof -
  have "count_ones a = card (set (filter (bit a) [0..<LENGTH('a)]))"
    by (simp add: count_ones_def distinct_card del: set_filter)
  also have "set (filter (bit a) [0..<LENGTH('a)]) = {k. bit a k}"
    by (auto dest: bit_imp_le_length)
  finally show ?thesis .
qed

lemma is_power_of_two_iff: "is_power_of_two a \<longleftrightarrow> (\<exists>k < LENGTH('a). a = 2 ^ k)"
  for a :: "'a::len word"
proof
  assume "is_power_of_two a"
  then obtain k where k: "{k. bit a k} = {k}"
    by (auto simp: is_power_of_two_def count_ones_card card_1_singleton_iff)
  then have "a = 2 ^ k"
    by (intro bit_word_eqI) (auto simp: bit_exp_iff possible_bit_def set_eq_iff)
  moreover have "k < LENGTH('a)"
    using k by (auto dest: bit_imp_le_length)
  ultimately show "\<exists>k < LENGTH('a). a = 2 ^ k"
    by blast
next
  assume "\<exists>k < LENGTH('a). a = 2 ^ k"
  then obtain k where k: "k < LENGTH('a)" "a = 2 ^ k"
    by blast
  then have "{n. bit a n} = {k}"
    by (auto simp: bit_exp_iff possible_bit_def)
  then show "is_power_of_two a"
    by (simp add: is_power_of_two_def count_ones_card)
qed

lemma unat_two_power: "k < LENGTH('a) \<Longrightarrow> unat (2 ^ k :: 'a::len word) = 2 ^ k"
  using unat_of_nat [of "2 ^ k :: nat", where 'a = 'a] by simp

lemma is_power_of_two_E:
  fixes a :: "'a::len word"
  assumes "is_power_of_two a"
  obtains k where "k < LENGTH('a)" and "a = 2 ^ k" and "unat a = 2 ^ k"
  using assms by (auto simp: is_power_of_two_iff unat_two_power)

lemma is_power_of_two_nonzero [dest]: "is_power_of_two a \<Longrightarrow> 0 < unat a"
  for a :: "'a::len word"
  by (elim is_power_of_two_E) simp

lemma is_power_of_two_power [simp]: "k < LENGTH('a) \<Longrightarrow> is_power_of_two (2 ^ k :: 'a::len word)"
  by (auto simp: is_power_of_two_iff)

text \<open>The two masks of the address types: \<open>a & !(align - 1)\<close> and \<open>a & (align - 1)\<close>.\<close>

definition mask_down :: "'a::len word \<Rightarrow> 'a word \<Rightarrow> 'a word" where
  "mask_down a al = a AND NOT (al - 1)"

definition mask_low :: "'a::len word \<Rightarrow> 'a word \<Rightarrow> 'a word" where
  "mask_low a al = a AND (al - 1)"

lemma unat_mask_low:
  fixes a :: "'a::len word"
  assumes "is_power_of_two al"
  shows "unat (mask_low a al) = unat a mod unat al"
  using assms
  by (elim is_power_of_two_E)
    (simp add: mask_low_def mask_eq_exp_minus_1 [symmetric] take_bit_eq_mask [symmetric]
      unat_mod take_bit_eq_mod)

lemma mask_down_plus_low: "mask_down a al + mask_low a al = a"
  for a :: "'a::len word"
proof -
  have "(a AND NOT (al - 1)) + (a AND (al - 1)) = (a AND NOT (al - 1)) OR (a AND (al - 1))"
    by (rule disjunctive_add_eq_or) (simp add: bit_eq_iff bit_simps)
  also have "\<dots> = a"
    by (rule bit_eqI) (auto simp: bit_simps)
  finally show ?thesis
    by (simp add: mask_down_def mask_low_def)
qed

lemma unat_mask_down:
  fixes a :: "'a::len word"
  assumes "is_power_of_two al"
  shows "unat (mask_down a al) = unat a - unat a mod unat al"
proof -
  have *: "mask_down a al = a - mask_low a al"
    using mask_down_plus_low [of a al] by (simp add: eq_diff_eq)
  have "mask_low a al \<le> a"
    by (simp add: mask_low_def word_and_le2)
  then show ?thesis
    by (simp add: * unat_sub unat_mask_low [OF assms])
qed

lemma mask_low_eq_0:
  "is_power_of_two al \<Longrightarrow> mask_low a al = 0 \<longleftrightarrow> unat al dvd unat a"
  for a :: "'a::len word"
  by (simp add: word_eq_unat unat_mask_low dvd_eq_mod_eq_0)

end
