(* ===== verification/Addr.thy ===== *)
theory Addr
  imports Prelude
begin

text \<open>
  The address newtypes of \<open>eira/src/mm/addr.rs\<close>: \<open>PhysAddr\<close> (52-bit physical
  addresses) and \<open>VirtAddr\<close> (canonical 48-bit virtual addresses, sign-extended to
  64 bits). Each method is one definition; a method that asserts returns a \<open>res\<close>.
\<close>

section \<open>Physical addresses\<close>

definition PAGE_SIZE :: usize where
  "PAGE_SIZE = 4096"

datatype phys_addr = PhysAddr (phys_as_usize: usize)

definition phys_max :: usize where
  "phys_max = push_bit 52 1 - 1"

definition phys_new :: "usize \<Rightarrow> phys_addr option" where
  "phys_new addr = (if addr \<le> phys_max then Some (PhysAddr addr) else None)"

definition phys_new_unchecked :: "usize \<Rightarrow> phys_addr" where
  "phys_new_unchecked addr = PhysAddr addr"

definition phys_new_truncate :: "usize \<Rightarrow> phys_addr" where
  "phys_new_truncate addr = PhysAddr (addr AND phys_max)"

definition phys_is_aligned :: "phys_addr \<Rightarrow> usize \<Rightarrow> bool res" where
  "phys_is_aligned a align =
     rbind (require (is_power_of_two align) ''align must be a power of two'')
       (\<lambda>_. Inr (phys_as_usize a AND (align - 1) = 0))"

definition phys_align_down :: "phys_addr \<Rightarrow> usize \<Rightarrow> phys_addr res" where
  "phys_align_down a align =
     rbind (require (is_power_of_two align) ''align must be a power of two'')
       (\<lambda>_. Inr (PhysAddr (phys_as_usize a AND NOT (align - 1))))"

definition phys_align_up :: "phys_addr \<Rightarrow> usize \<Rightarrow> phys_addr option res" where
  "phys_align_up a align =
     rbind (require (is_power_of_two align) ''align must be a power of two'')
       (\<lambda>_. let msk = align - 1 in
          Inr (case checked_add (phys_as_usize a) msk of
                 Some v \<Rightarrow> phys_new (v AND NOT msk)
               | None \<Rightarrow> None))"

definition phys_checked_add :: "phys_addr \<Rightarrow> usize \<Rightarrow> phys_addr option" where
  "phys_checked_add a rhs =
     (case checked_add (phys_as_usize a) rhs of Some v \<Rightarrow> phys_new v | None \<Rightarrow> None)"

definition phys_checked_sub :: "phys_addr \<Rightarrow> usize \<Rightarrow> phys_addr option" where
  "phys_checked_sub a rhs =
     (case checked_sub (phys_as_usize a) rhs of Some v \<Rightarrow> Some (PhysAddr v) | None \<Rightarrow> None)"

text \<open>The derived order of the newtype is the order of the wrapped integer.\<close>

instantiation phys_addr :: linorder
begin

definition less_eq_phys_addr :: "phys_addr \<Rightarrow> phys_addr \<Rightarrow> bool" where
  "less_eq_phys_addr a b \<longleftrightarrow> phys_as_usize a \<le> phys_as_usize b"

definition less_phys_addr :: "phys_addr \<Rightarrow> phys_addr \<Rightarrow> bool" where
  "less_phys_addr a b \<longleftrightarrow> phys_as_usize a < phys_as_usize b"

instance
  by standard (auto simp: less_eq_phys_addr_def less_phys_addr_def phys_addr.expand)

end

text \<open>The documented range of the type, read as a number.\<close>

abbreviation phys_nat :: "phys_addr \<Rightarrow> nat" where
  "phys_nat a \<equiv> unat (phys_as_usize a)"

definition phys_limit :: nat where
  "phys_limit = 2 ^ 52"

definition phys_ok :: "phys_addr \<Rightarrow> bool" where
  "phys_ok a \<longleftrightarrow> phys_as_usize a \<le> phys_max"

section \<open>Virtual addresses\<close>

datatype virt_addr = VirtAddr (virt_as_usize: usize)

definition is_canonical :: "usize \<Rightarrow> bool" where
  "is_canonical addr = (let top = drop_bit 47 addr in top = 0 \<or> top = push_bit 17 1 - 1)"

definition virt_new :: "usize \<Rightarrow> virt_addr option" where
  "virt_new addr = (if is_canonical addr then Some (VirtAddr addr) else None)"

definition virt_new_unchecked :: "usize \<Rightarrow> virt_addr" where
  "virt_new_unchecked addr = VirtAddr addr"

definition virt_new_canonical :: "usize \<Rightarrow> virt_addr" where
  "virt_new_canonical addr = VirtAddr (signed_drop_bit 16 (push_bit 16 addr))"

definition virt_is_canonical_addr :: "virt_addr \<Rightarrow> bool" where
  "virt_is_canonical_addr a = is_canonical (virt_as_usize a)"

definition virt_is_aligned :: "virt_addr \<Rightarrow> usize \<Rightarrow> bool res" where
  "virt_is_aligned a align =
     rbind (require (is_power_of_two align) ''assertion failed: align.is_power_of_two()'')
       (\<lambda>_. Inr (virt_as_usize a AND (align - 1) = 0))"

definition virt_align_down :: "virt_addr \<Rightarrow> usize \<Rightarrow> virt_addr res" where
  "virt_align_down a align =
     rbind (require (is_power_of_two align) ''assertion failed: align.is_power_of_two()'')
       (\<lambda>_. Inr (virt_new_canonical (virt_as_usize a AND NOT (align - 1))))"

definition virt_align_up :: "virt_addr \<Rightarrow> usize \<Rightarrow> virt_addr option res" where
  "virt_align_up a align =
     rbind (require (is_power_of_two align) ''assertion failed: align.is_power_of_two()'')
       (\<lambda>_. let msk = align - 1 in
          Inr (case checked_add (virt_as_usize a) msk of
                 Some v \<Rightarrow> Some (virt_new_canonical (v AND NOT msk))
               | None \<Rightarrow> None))"

instantiation virt_addr :: linorder
begin

definition less_eq_virt_addr :: "virt_addr \<Rightarrow> virt_addr \<Rightarrow> bool" where
  "less_eq_virt_addr a b \<longleftrightarrow> virt_as_usize a \<le> virt_as_usize b"

definition less_virt_addr :: "virt_addr \<Rightarrow> virt_addr \<Rightarrow> bool" where
  "less_virt_addr a b \<longleftrightarrow> virt_as_usize a < virt_as_usize b"

instance
  by standard (auto simp: less_eq_virt_addr_def less_virt_addr_def virt_addr.expand)

end

abbreviation virt_nat :: "virt_addr \<Rightarrow> nat" where
  "virt_nat a \<equiv> unat (virt_as_usize a)"

section \<open>Alignment of physical addresses\<close>

lemma page_size_power_of_two [simp]: "is_power_of_two PAGE_SIZE"
  using is_power_of_two_power [where 'a = 64 and k = 12] by (simp add: PAGE_SIZE_def)

lemma unat_PAGE_SIZE [simp]: "unat PAGE_SIZE = 4096"
  by (simp add: PAGE_SIZE_def)

lemma phys_limit_bounds: "0 < phys_limit" "phys_limit < 2 ^ 64" "phys_limit + 2 ^ 63 \<le> 2 ^ 64"
  by (simp_all add: phys_limit_def)

lemma le_phys_max: "v \<le> phys_max \<longleftrightarrow> unat v < phys_limit"
proof -
  have "unat phys_max = phys_limit - 1"
    by (simp add: phys_max_def phys_limit_def push_bit_eq_mult)
  then show ?thesis
    using phys_limit_bounds(1) by (auto simp: word_le_nat_alt)
qed

lemma unat_of_nat_limit [simp]: "n < phys_limit \<Longrightarrow> unat (of_nat n :: usize) = n"
  by (simp add: unat_of_nat phys_limit_def)

lemma phys_ok_iff: "phys_ok a \<longleftrightarrow> phys_nat a < phys_limit"
  by (simp add: phys_ok_def le_phys_max)

lemma phys_new_Some [simp]: "phys_new v = Some a \<longleftrightarrow> a = PhysAddr v \<and> unat v < phys_limit"
  by (auto simp: phys_new_def le_phys_max)

lemma phys_new_None [simp]: "phys_new v = None \<longleftrightarrow> phys_limit \<le> unat v"
  by (auto simp: phys_new_def le_phys_max)

lemma and_low_eq_0:
  "is_power_of_two al \<Longrightarrow> a AND (al - 1) = 0 \<longleftrightarrow> unat al dvd unat a"
  for a :: "'a::len word"
  using mask_low_eq_0 [of al a] by (simp add: mask_low_def)

lemma unat_and_not_low:
  "is_power_of_two al \<Longrightarrow> unat (a AND NOT (al - 1)) = unat a - unat a mod unat al"
  for a :: "'a::len word"
  using unat_mask_down [of al a] by (simp add: mask_down_def)

lemma virt_is_aligned_page: "virt_is_aligned v PAGE_SIZE = Inr (4096 dvd virt_nat v)"
  by (simp add: virt_is_aligned_def and_low_eq_0)

lemma phys_is_aligned_iff [simp]:
  "is_power_of_two align \<Longrightarrow> phys_is_aligned a align = Inr (unat align dvd phys_nat a)"
  by (simp add: phys_is_aligned_def and_low_eq_0)

lemma phys_align_down_eq:
  "is_power_of_two align \<Longrightarrow>
     phys_align_down a align = Inr (PhysAddr (phys_as_usize a AND NOT (align - 1)))"
  by (simp add: phys_align_down_def)

text \<open>Rounding up on \<open>nat\<close>: the least multiple of \<open>m\<close> that is at least \<open>n\<close>.\<close>

definition round_up :: "nat \<Rightarrow> nat \<Rightarrow> nat" where
  "round_up n m = (n + (m - 1)) - (n + (m - 1)) mod m"

lemma round_up_bounds:
  assumes "0 < m"
  shows "m dvd round_up n m" and "n \<le> round_up n m" and "round_up n m < n + m"
proof -
  show "m dvd round_up n m"
    by (simp add: round_up_def dvd_minus_mod)
  have "(n + (m - 1)) mod m < m"
    using assms by simp
  then show "n \<le> round_up n m" "round_up n m < n + m"
    using assms unfolding round_up_def by linarith+
qed

lemma round_up_least:
  assumes "0 < m" and "m dvd k" and "n \<le> k"
  shows "round_up n m \<le> k"
proof (rule ccontr)
  assume "\<not> round_up n m \<le> k"
  moreover obtain i j where "round_up n m = m * i" "k = m * j"
    using round_up_bounds(1) [OF assms(1), of n] assms(2) by (auto elim!: dvdE)
  ultimately have "k + m \<le> round_up n m"
    by (metis Suc_leI add.commute mult_Suc_right mult_le_mono2 not_le mult_less_cancel1)
  then show False
    using round_up_bounds(3) [OF assms(1), of n] assms(3) by simp
qed

lemma round_up_aligned [simp]: "0 < m \<Longrightarrow> m dvd n \<Longrightarrow> round_up n m = n"
  using round_up_least [of m n n] round_up_bounds(2) [of m n] by simp

lemma round_up_step:
  assumes "0 < m" and "n mod m \<noteq> 0"
  shows "round_up n m = n + (m - n mod m)"
proof -
  define q r where "q = n div m" and "r = n mod m"
  have n: "n = q * m + r" and r: "0 < r" "r < m"
    using assms by (simp_all add: q_def r_def)
  have e: "n + (m - 1) = (q + 1) * m + (r - 1)"
    using n r by (simp add: algebra_simps)
  have "((q + 1) * m + (r - 1)) mod m = r - 1"
    using r by (metis less_imp_diff_less mod_less mod_mult_self3)
  then have "round_up n m = (q + 1) * m"
    unfolding round_up_def e by simp
  also have "\<dots> = n + (m - r)"
    using n r by (simp add: algebra_simps)
  finally show ?thesis
    by (simp add: r_def)
qed

lemma phys_align_up_cases:
  assumes "is_power_of_two align"
  shows "phys_align_up a align =
    Inr (if round_up (phys_nat a) (unat align) < phys_limit
         then Some (PhysAddr (of_nat (round_up (phys_nat a) (unat align)))) else None)"
proof -
  have pos: "0 < unat align"
    using assms by auto
  have msk: "unat (align - 1) = unat align - 1"
    using pos by (subst unat_minus_one) auto
  show ?thesis
  proof (cases "checked_add (phys_as_usize a) (align - 1)")
    case None
    then have "2 ^ 64 \<le> phys_nat a + (unat align - 1)"
      by (simp add: unat_simps msk)
    moreover have "(phys_nat a + (unat align - 1)) mod unat align < unat align"
      using pos by simp
    moreover have "unat align \<le> 2 ^ 63"
      using assms by (elim is_power_of_two_E)
        (simp del: power_numeral add: power_increasing)
    moreover note phys_limit_bounds(3)
    ultimately have "phys_limit \<le> round_up (phys_nat a) (unat align)"
      unfolding round_up_def by linarith
    with None assms show ?thesis
      by (simp add: phys_align_up_def)
  next
    case (Some v)
    then have v: "unat v = phys_nat a + (unat align - 1)"
      by (simp add: unat_simps msk)
    have r: "unat (v AND NOT (align - 1)) = round_up (phys_nat a) (unat align)"
      by (simp add: unat_and_not_low assms v round_up_def)
    then have "v AND NOT (align - 1) = of_nat (round_up (phys_nat a) (unat align))"
      by (simp flip: r)
    with Some assms r show ?thesis
      by (auto simp: phys_align_up_def phys_new_def le_phys_max)
  qed
qed



section \<open>Canonical virtual addresses\<close>

lemma bit_virt_new_canonical:
  "bit (virt_as_usize (virt_new_canonical a)) n \<longleftrightarrow> n < 64 \<and> bit a (min n 47)"
  by (auto simp: virt_new_canonical_def bit_simps min_def)

lemma drop_47_eq_0: "drop_bit 47 a = 0 \<longleftrightarrow> (\<forall>n \<ge> 47. \<not> bit a n)"
  for a :: usize
proof
  assume *: "drop_bit 47 a = 0"
  show "\<forall>n \<ge> 47. \<not> bit a n"
  proof (intro allI impI)
    fix n :: nat assume "47 \<le> n"
    then have "bit a n = bit (drop_bit 47 a) (n - 47)"
      by (simp add: bit_drop_bit_eq)
    with * show "\<not> bit a n"
      by simp
  qed
qed (auto intro!: bit_word_eqI simp: bit_drop_bit_eq)
lemma drop_47_eq_ones: "drop_bit 47 a = 131071 \<longleftrightarrow> (\<forall>n. 47 \<le> n \<longrightarrow> n < 64 \<longrightarrow> bit a n)"
  for a :: usize
proof -
  have m: "bit (131071 :: usize) n \<longleftrightarrow> n < 17" for n
    using bit_mask_iff [of 17 n, where 'a = usize]
    by (auto simp: mask_eq_exp_minus_1 possible_bit_def dest: bit_imp_le_length)
  show ?thesis
  proof
  assume *: "drop_bit 47 a = 131071"
  show "\<forall>n. 47 \<le> n \<longrightarrow> n < 64 \<longrightarrow> bit a n"
  proof (intro allI impI)
    fix n :: nat assume n: "47 \<le> n" "n < 64"
    then have "bit a n = bit (drop_bit 47 a) (n - 47)"
      by (simp add: bit_drop_bit_eq)
    also have "\<dots>"
      using n unfolding * m by linarith
    finally show "bit a n" .
  qed
  next
  assume *: "\<forall>n. 47 \<le> n \<longrightarrow> n < 64 \<longrightarrow> bit a n"
  show "drop_bit 47 a = 131071"
  proof (rule bit_word_eqI)
    fix n assume "n < LENGTH(64)"
    show "bit (drop_bit 47 a) n = bit (131071::usize) n"
      using * bit_imp_le_length [of a "47 + n"] unfolding bit_drop_bit_eq m o_def by auto
  qed
  qed
qed
lemma is_canonical_iff: "is_canonical a \<longleftrightarrow> (\<forall>n. 47 \<le> n \<longrightarrow> n < 64 \<longrightarrow> bit a n = bit a 47)"
proof -
  have *: "is_canonical a \<longleftrightarrow> drop_bit 47 a = 0 \<or> drop_bit 47 a = 131071"
    by (simp add: is_canonical_def Let_def push_bit_eq_mult)
  have lim: "bit a n \<Longrightarrow> n < 64" for n
    using bit_imp_le_length [of a n] by simp
  show ?thesis
  proof (cases "bit a 47")
    case True
    then have "\<not> (\<forall>n \<ge> 47. \<not> bit a n)"
      by blast
    with True show ?thesis
      unfolding * drop_47_eq_0 drop_47_eq_ones by blast
  next
    case False
    then have "\<not> (\<forall>n. 47 \<le> n \<longrightarrow> n < 64 \<longrightarrow> bit a n)"
      by (intro notI) (drule spec [of _ 47], simp)
    with False lim show ?thesis
      unfolding * drop_47_eq_0 drop_47_eq_ones by blast
  qed
qed

lemma is_canonical_new_canonical [simp]: "is_canonical (virt_as_usize (virt_new_canonical a))"
  by (auto simp: is_canonical_iff bit_virt_new_canonical)

lemma virt_new_canonical_id: "virt_new_canonical a = VirtAddr a \<longleftrightarrow> is_canonical a"
proof
  assume "virt_new_canonical a = VirtAddr a"
  then show "is_canonical a"
    using is_canonical_new_canonical [of a] by simp
next
  assume c: "is_canonical a"
  have "virt_as_usize (virt_new_canonical a) = a"
  proof (rule bit_word_eqI)
    fix n assume n: "n < LENGTH(64)"
    show "bit (virt_as_usize (virt_new_canonical a)) n = bit a n"
    proof (cases "n \<le> 47")
      case True
      with n show ?thesis
        by (simp add: bit_virt_new_canonical min_absorb1)
    next
      case False
      then have "bit a n = bit a 47"
        using n is_canonical_iff [THEN iffD1, OF c, rule_format, of n] by simp
      with False n show ?thesis
        by (simp add: bit_virt_new_canonical min_absorb2)
    qed
  qed
  then show "virt_new_canonical a = VirtAddr a"
    by (cases "virt_new_canonical a") simp
qed

lemma take_48_new_canonical: "take_bit 48 (virt_as_usize (virt_new_canonical a)) = take_bit 48 a"
  by (rule bit_word_eqI) (simp add: bit_take_bit_iff bit_virt_new_canonical min_def)

text \<open>
  C2. \<open>VirtAddr::new_canonical\<close> yields a canonical address with the low 48 bits of its
  input, and \<open>VirtAddr::new\<close> accepts exactly the addresses it leaves unchanged.
\<close>

theorem virt_new_canonical_correct:
  "is_canonical (virt_as_usize (virt_new_canonical a)) \<and>
   take_bit 48 (virt_as_usize (virt_new_canonical a)) = take_bit 48 a \<and>
   virt_new a = (if virt_new_canonical a = VirtAddr a then Some (virt_new_canonical a) else None)"
  by (simp add: take_48_new_canonical virt_new_canonical_id [of a] virt_new_def)
   (simp flip: virt_new_canonical_id)

end
