(* ===== verification/Frame.thy ===== *)
theory Frame
  imports Addr
begin

text \<open>
  Physical frames, owned frames and frame ranges (\<open>eira/src/mm/frame.rs\<close>). The const
  generic \<open>S\<close> of \<open>PhysFrame<S>\<close> and \<open>FrameRange<S>\<close> is the first argument of each
  operation; \<open>Frame4K\<close> is the instance \<open>S = PAGE_SIZE\<close>.
\<close>

section \<open>Frames\<close>

datatype phys_frame = PhysFrame (frame_base: phys_addr)

definition frame_from_base :: "usize \<Rightarrow> phys_addr \<Rightarrow> phys_frame option res" where
  "frame_from_base S base =
     rbind (require (is_power_of_two S) ''frame size must be a power of two'') (\<lambda>_.
     rbind (phys_is_aligned base S) (\<lambda>aligned.
       Inr (if aligned then Some (PhysFrame base) else None)))"

definition frame_containing :: "usize \<Rightarrow> phys_addr \<Rightarrow> phys_frame res" where
  "frame_containing S addr =
     rbind (require (is_power_of_two S) ''frame size must be a power of two'') (\<lambda>_.
     rbind (phys_align_down addr S) (\<lambda>base. Inr (PhysFrame base)))"

definition frame_end :: "usize \<Rightarrow> phys_frame \<Rightarrow> phys_addr option" where
  "frame_end S f = phys_checked_add (frame_base f) S"

definition frame_index :: "usize \<Rightarrow> phys_frame \<Rightarrow> usize" where
  "frame_index S f = phys_as_usize (frame_base f) div S"

definition frame_from_index :: "usize \<Rightarrow> usize \<Rightarrow> phys_frame option" where
  "frame_from_index S index =
     (case checked_mul index S of
        Some addr \<Rightarrow> (case phys_new addr of
                        Some base \<Rightarrow> Some (PhysFrame base)
                      | None \<Rightarrow> None)
      | None \<Rightarrow> None)"

instantiation phys_frame :: linorder
begin

definition less_eq_phys_frame :: "phys_frame \<Rightarrow> phys_frame \<Rightarrow> bool" where
  "less_eq_phys_frame f g \<longleftrightarrow> frame_base f \<le> frame_base g"

definition less_phys_frame :: "phys_frame \<Rightarrow> phys_frame \<Rightarrow> bool" where
  "less_phys_frame f g \<longleftrightarrow> frame_base f < frame_base g"

instance
  by standard (auto simp: less_eq_phys_frame_def less_phys_frame_def phys_frame.expand)

end

text \<open>
  An \<open>OwnedFrame\<close> is a move-only handle. Giving it up is \<open>into_inner\<close>; dropping it
  without that panics.
\<close>

datatype owned_frame = OwnedFrame (owned_inner: phys_frame)

definition owned_new :: "phys_frame \<Rightarrow> owned_frame" where
  "owned_new f = OwnedFrame f"

definition owned_base :: "owned_frame \<Rightarrow> phys_addr" where
  "owned_base o' = frame_base (owned_inner o')"

definition owned_into_inner :: "owned_frame \<Rightarrow> phys_frame" where
  "owned_into_inner o' = owned_inner o'"

definition owned_drop :: "owned_frame \<Rightarrow> unit res" where
  "owned_drop o' = Inl (Panic ''owned frame dropped without being freed.'')"

section \<open>Frame ranges\<close>

record frame_range =
  range_start :: phys_frame
  range_end :: phys_frame

definition range_new :: "phys_frame \<Rightarrow> phys_frame \<Rightarrow> frame_range" where
  "range_new s e = \<lparr>range_start = s, range_end = e\<rparr>"

definition range_from_addr_len :: "usize \<Rightarrow> phys_addr \<Rightarrow> usize \<Rightarrow> frame_range option res" where
  "range_from_addr_len S base len =
     (if len = 0 then Inr None
      else case phys_checked_add base (len - 1) of
             None \<Rightarrow> Inr None
           | Some end_addr \<Rightarrow>
               rbind (frame_containing S base) (\<lambda>s.
               rbind (frame_containing S end_addr) (\<lambda>e.
                 Inr (Some \<lparr>range_start = s, range_end = e\<rparr>))))"

definition range_is_empty :: "usize \<Rightarrow> frame_range \<Rightarrow> bool" where
  "range_is_empty S r = (frame_index S (range_end r) < frame_index S (range_start r))"

definition range_len :: "usize \<Rightarrow> frame_range \<Rightarrow> usize res" where
  "range_len S r =
     (if range_is_empty S r then Inr 0
      else rbind (usub (frame_index S (range_end r)) (frame_index S (range_start r)))
             (\<lambda>d. uadd d 1))"

definition range_contains :: "usize \<Rightarrow> frame_range \<Rightarrow> phys_frame \<Rightarrow> bool" where
  "range_contains S r f =
     (frame_index S (range_start r) \<le> frame_index S f \<and>
      frame_index S f \<le> frame_index S (range_end r))"

text \<open>
  \<open>Iterator::next\<close>: the \<open>?\<close> on \<open>from_index\<close> returns before the current frame is
  yielded when there is no next frame index.
\<close>

definition range_next :: "usize \<Rightarrow> frame_range \<Rightarrow> (phys_frame option \<times> frame_range) res" where
  "range_next S r =
     (if range_start r \<le> range_end r then
        let frame = range_start r in
        rbind (uadd (frame_index S (range_start r)) 1) (\<lambda>i.
          case frame_from_index S i of
            None \<Rightarrow> Inr (None, r)
          | Some f' \<Rightarrow> Inr (Some frame, r\<lparr>range_start := f'\<rparr>))
      else Inr (None, r))"

definition range_size_hint :: "usize \<Rightarrow> frame_range \<Rightarrow> (usize \<times> usize option) res" where
  "range_size_hint S r = rbind (range_len S r) (\<lambda>n. Inr (n, Some n))"

text \<open>A \<open>for\<close> loop over the range: at most \<open>n\<close> calls of \<open>next\<close>, stopping at \<open>None\<close>.\<close>

fun range_drain :: "nat \<Rightarrow> usize \<Rightarrow> frame_range \<Rightarrow> phys_frame list res" where
  "range_drain 0 S r = Inr []"
| "range_drain (Suc n) S r =
     rbind (range_next S r) (\<lambda>(x, r').
       case x of
         None \<Rightarrow> Inr []
       | Some f \<Rightarrow> rbind (range_drain n S r') (\<lambda>fs. Inr (f # fs)))"

section \<open>Well-formed frames and their indices\<close>

abbreviation frame_nat :: "phys_frame \<Rightarrow> nat" where
  "frame_nat f \<equiv> phys_nat (frame_base f)"

definition frame_ok :: "usize \<Rightarrow> phys_frame \<Rightarrow> bool" where
  "frame_ok S f \<longleftrightarrow> unat S dvd frame_nat f \<and> phys_ok (frame_base f)"

definition frame_at :: "usize \<Rightarrow> nat \<Rightarrow> phys_frame" where
  "frame_at S i = PhysFrame (PhysAddr (of_nat (i * unat S)))"

lemma frame_less_eq_nat: "f \<le> g \<longleftrightarrow> frame_nat f \<le> frame_nat g"
  by (simp add: less_eq_phys_frame_def less_eq_phys_addr_def word_le_nat_alt)

lemma frame_less_nat: "f < g \<longleftrightarrow> frame_nat f < frame_nat g"
  by (simp add: less_phys_frame_def less_phys_addr_def word_less_nat_alt)

lemma frame_eq_nat: "f = g \<longleftrightarrow> frame_nat f = frame_nat g"
  by (metis frame_less_eq_nat order.refl order.antisym)

lemma unat_frame_index: "unat (frame_index S f) = frame_nat f div unat S"
  by (simp add: frame_index_def unat_div)

lemma frame_at_nat [simp]: "i * unat S < phys_limit \<Longrightarrow> frame_nat (frame_at S i) = i * unat S"
  by (simp add: frame_at_def del: of_nat_mult)

lemma frame_at_ok [simp]: "i * unat S < phys_limit \<Longrightarrow> frame_ok S (frame_at S i)"
  by (simp add: frame_ok_def phys_ok_iff)

lemma frame_ok_at:
  assumes "frame_ok S f"
  shows "f = frame_at S (unat (frame_index S f))"
    and "unat (frame_index S f) * unat S < phys_limit"
  using assms by (auto simp: frame_ok_def phys_ok_iff unat_frame_index frame_eq_nat)

lemma frame_from_index_eq:
  "frame_from_index S i = (if unat i * unat S < phys_limit then Some (frame_at S (unat i)) else None)"
proof (cases "checked_mul i S")
  case None
  then have "2 ^ 64 \<le> unat i * unat S"
    by (simp add: unat_simps)
  with None phys_limit_bounds(2) show ?thesis
    by (simp add: frame_from_index_def)
next
  case (Some a)
  then have a: "unat a = unat i * unat S"
    by (simp add: unat_simps)
  then have "a = of_nat (unat i * unat S)"
    by (simp flip: a)
  with Some a show ?thesis
    by (auto simp: frame_from_index_def frame_at_def phys_new_def le_phys_max
        simp del: of_nat_mult)
qed

lemma frame_containing_eq:
  assumes "is_power_of_two S"
  shows "frame_containing S a = Inr (PhysFrame (PhysAddr (phys_as_usize a AND NOT (S - 1))))"
  by (simp add: frame_containing_def assms phys_align_down_eq)

lemma frame_containing_spec:
  assumes "is_power_of_two S" and "phys_ok a"
  shows "\<exists>f. frame_containing S a = Inr f \<and> frame_ok S f \<and>
    frame_nat f \<le> phys_nat a \<and> phys_nat a < frame_nat f + unat S"
proof -
  have "phys_nat a mod unat S < unat S"
    using assms(1) by (auto dest: is_power_of_two_nonzero)
  with assms show ?thesis
    by (auto simp: frame_containing_eq frame_ok_def unat_and_not_low phys_ok_iff dvd_minus_mod)
qed

text \<open>
  C3. Frame numbers and frames are in bijection: a well-formed frame is recovered from
  its index, and \<open>from_index\<close> only builds aligned frames inside the 52-bit space, whose
  index is the number it was given.
\<close>

theorem frame_index_roundtrip:
  assumes "is_power_of_two S"
  shows "(frame_ok S f \<longrightarrow> frame_from_index S (frame_index S f) = Some f) \<and>
    (\<forall>i. frame_from_index S i = Some f \<longrightarrow> frame_ok S f \<and> frame_index S f = i)"
proof -
  have "0 < unat S"
    using assms by auto
  then have "frame_from_index S i = Some f \<Longrightarrow> frame_index S f = i" for i
    by (auto simp: frame_from_index_eq word_eq_unat unat_frame_index split: if_splits)
  then show ?thesis
    by (auto simp: frame_from_index_eq frame_ok_at(2) simp flip: frame_ok_at(1)
        split: if_splits)
qed

theorem frame_index_roundtrip_witness:
  "frame_from_index PAGE_SIZE (frame_index PAGE_SIZE (PhysFrame (PhysAddr 8192)))
     = Some (PhysFrame (PhysAddr 8192))"
  using frame_index_roundtrip [OF page_size_power_of_two, of "PhysFrame (PhysAddr 8192)"]
  by (simp add: frame_ok_def phys_ok_iff phys_limit_def)

section \<open>Iteration over a range\<close>

lemma range_next_at:
  assumes "is_power_of_two S" and "i \<le> j" and "j * unat S < phys_limit"
  shows "range_next S \<lparr>range_start = frame_at S i, range_end = frame_at S j\<rparr> =
    Inr (if Suc i * unat S < phys_limit
         then (Some (frame_at S i), \<lparr>range_start = frame_at S (Suc i), range_end = frame_at S j\<rparr>)
         else (None, \<lparr>range_start = frame_at S i, range_end = frame_at S j\<rparr>))"
proof -
  have S: "0 < unat S"
    using assms(1) by auto
  have i: "i * unat S < phys_limit"
    using assms(2,3) by (meson le_less_trans mult_le_mono1)
  then have idx: "unat (frame_index S (frame_at S i)) = i"
    using S by (simp add: unat_frame_index)
  have "i < phys_limit"
    using i S by (metis le_less_trans mult_le_mono2 nat_mult_1_right Suc_leI One_nat_def)
  then have "uadd (frame_index S (frame_at S i)) 1 = Inr (of_nat (Suc i))"
    using phys_limit_bounds(2) by (subst uadd_Inr) (simp add: idx unat_of_nat del: of_nat_Suc)
  moreover have "unat (of_nat (Suc i) :: usize) = Suc i"
    using \<open>i < phys_limit\<close> phys_limit_bounds(2) by (subst unat_of_nat) simp
  moreover have "frame_at S i \<le> frame_at S j"
    using assms i by (simp add: frame_less_eq_nat)
  ultimately show ?thesis
    by (simp add: range_next_def frame_from_index_eq del: of_nat_Suc)
qed

lemma range_next_done:
  assumes "is_power_of_two S" and "j < i" and "i * unat S < phys_limit"
  shows "range_next S \<lparr>range_start = frame_at S i, range_end = frame_at S j\<rparr> =
    Inr (None, \<lparr>range_start = frame_at S i, range_end = frame_at S j\<rparr>)"
proof -
  have "j * unat S < i * unat S"
    using assms(1,2) by (auto dest: is_power_of_two_nonzero)
  moreover have "frame_nat (frame_at S j) = j * unat S"
    using calculation assms(3) by (intro frame_at_nat) linarith
  ultimately have "\<not> frame_at S i \<le> frame_at S j"
    using assms(3) by (simp only: frame_less_eq_nat frame_at_nat not_le)
  then show ?thesis
    by (simp add: range_next_def)
qed

lemma power_of_two_dvd_limit:
  assumes "is_power_of_two S" and "unat S \<le> phys_limit"
  shows "unat S dvd phys_limit"
proof -
  obtain k where k: "unat S = 2 ^ k"
    using assms(1) by (elim is_power_of_two_E)
  with assms(2) have "(2::nat) ^ k \<le> 2 ^ 52"
    by (simp add: phys_limit_def)
  then have "k \<le> 52"
    by (rule power_le_imp_le_exp [rotated]) simp
  then have "(2::nat) ^ k dvd 2 ^ 52"
    by (rule le_imp_power_dvd)
  then show ?thesis
    by (simp add: k phys_limit_def)
qed

lemma range_drain_at:
  assumes "is_power_of_two S" and "j * unat S < phys_limit" and "unat S \<le> phys_limit"
    and "i * unat S < phys_limit" and "K = phys_limit div unat S" and "Suc j - i < n"
  shows "range_drain n S \<lparr>range_start = frame_at S i, range_end = frame_at S j\<rparr> =
    Inr (map (frame_at S) [i ..< min (Suc j) (K - 1)])"
  using assms
proof (induction n arbitrary: i)
  case 0
  then show ?case by simp
next
  case (Suc n)
  have S: "0 < unat S" "unat S dvd phys_limit"
    using Suc.prems(1,3) by (auto simp: power_of_two_dvd_limit)
  show ?case
  proof (cases "i \<le> j")
    case False
    with Suc.prems show ?thesis
      by (simp add: range_next_done)
  next
    case True
    have "K * unat S = phys_limit"
      using S(2) Suc.prems(5) by simp
    moreover have "Suc i * unat S < K * unat S \<longleftrightarrow> i < K - 1"
      unfolding mult_less_cancel2 using S(1) by auto
    ultimately have last: "Suc i * unat S < phys_limit \<longleftrightarrow> i < K - 1"
      by simp
    show ?thesis
    proof (cases "Suc i * unat S < phys_limit")
      case True
      with \<open>i \<le> j\<close> last have "i < min (Suc j) (K - 1)"
        by simp
      with \<open>i \<le> j\<close> True Suc.prems show ?thesis
        by (simp add: range_next_at Suc.IH upt_conv_Cons del: mult_Suc)
    next
      case False
      with \<open>i \<le> j\<close> last Suc.prems show ?thesis
        by (simp add: range_next_at del: mult_Suc)
    qed
  qed
qed

lemma range_len_at:
  assumes "is_power_of_two S" and "i \<le> j" and "j * unat S < phys_limit"
  shows "range_len S \<lparr>range_start = frame_at S i, range_end = frame_at S j\<rparr> =
    Inr (of_nat (Suc j - i))"
proof -
  have S: "0 < unat S"
    using assms(1) by auto
  have i: "i * unat S < phys_limit"
    using assms(2,3) by (meson le_less_trans mult_le_mono1)
  have idx: "unat (frame_index S (frame_at S i)) = i" "unat (frame_index S (frame_at S j)) = j"
    using S i assms(3) by (simp_all add: unat_frame_index)
  have "j < phys_limit"
    using assms(3) S by (metis le_less_trans mult_le_mono2 nat_mult_1_right Suc_leI One_nat_def)
  then have n: "unat (of_nat (Suc j - i) :: usize) = Suc j - i"
    "unat (of_nat (j - i) :: usize) = j - i"
    using phys_limit_bounds(2) by (simp_all add: unat_of_nat del: of_nat_diff)
  have "usub (frame_index S (frame_at S j)) (frame_index S (frame_at S i)) = Inr (of_nat (j - i))"
    using assms(2) by (subst usub_Inr) (simp add: idx n del: of_nat_diff)
  moreover have "uadd (of_nat (j - i)) (1 :: usize) = Inr (of_nat (Suc j - i))"
    using assms(2) by (subst uadd_Inr) (simp add: n del: of_nat_diff)
  ultimately show ?thesis
    using assms(2) by (simp add: range_len_def range_is_empty_def word_less_nat_alt idx del: of_nat_diff)
qed

text \<open>
  C4. A \<open>for\<close> loop over a non-empty frame range terminates and yields the frames of the
  inclusive range in ascending order, each once, with one exception: the topmost frame
  of the 52-bit space is never yielded, because \<open>next\<close> gives up when the following index
  does not exist. \<open>len\<close> still counts that frame.
\<close>

theorem frame_range_iteration:
  assumes "is_power_of_two S" and "unat S \<le> phys_limit"
    and "frame_ok S s" and "frame_ok S e" and "s \<le> e"
    and "i = unat (frame_index S s)" and "j = unat (frame_index S e)" and "Suc j - i < n"
  shows "range_drain n S (range_new s e) =
      Inr (map (frame_at S) [i ..< min (Suc j) (phys_limit div unat S - 1)]) \<and>
    range_len S (range_new s e) = Inr (of_nat (Suc j - i))"
proof (intro conjI)
  have s: "s = frame_at S i" "i * unat S < phys_limit"
    using frame_ok_at [OF assms(3)] assms(6) by simp_all
  have e: "e = frame_at S j" "j * unat S < phys_limit"
    using frame_ok_at [OF assms(4)] assms(7) by simp_all
  have ij: "i \<le> j"
    using assms(5-7) by (simp add: unat_frame_index frame_less_eq_nat div_le_mono)
  show "range_drain n S (range_new s e) =
      Inr (map (frame_at S) [i ..< min (Suc j) (phys_limit div unat S - 1)])"
    unfolding range_new_def s(1) e(1) using assms s(2) e(2) by (intro range_drain_at) auto
  show "range_len S (range_new s e) = Inr (of_nat (Suc j - i))"
    unfolding range_new_def s(1) e(1) using assms ij e(2) by (intro range_len_at) auto
qed

theorem frame_range_iteration_witness:
  "range_drain 4 PAGE_SIZE
     (range_new (PhysFrame (PhysAddr 4096)) (PhysFrame (PhysAddr 12288))) =
   Inr [frame_at PAGE_SIZE 1, frame_at PAGE_SIZE 2, frame_at PAGE_SIZE 3] \<and>
   range_drain 2 PAGE_SIZE
     (range_new (PhysFrame (PhysAddr 0xFFFFFFFFFF000)) (PhysFrame (PhysAddr 0xFFFFFFFFFF000))) =
   Inr [] \<and>
   range_len PAGE_SIZE
     (range_new (PhysFrame (PhysAddr 0xFFFFFFFFFF000)) (PhysFrame (PhysAddr 0xFFFFFFFFFF000))) =
   Inr 1"
proof -
  have ok: "unat PAGE_SIZE \<le> phys_limit" "frame_ok PAGE_SIZE (PhysFrame (PhysAddr 4096))"
    "frame_ok PAGE_SIZE (PhysFrame (PhysAddr 12288))"
    "frame_ok PAGE_SIZE (PhysFrame (PhysAddr 0xFFFFFFFFFF000))"
    by (simp_all add: frame_ok_def phys_ok_iff phys_limit_def)
  have upt: "[1..<4] = [1, 2, 3::nat]" "[0xFFFFFFFFFF..<0xFFFFFFFFFF] = ([]::nat list)"
    by (simp_all add: upt_rec)
  have idx: "unat (frame_index PAGE_SIZE (PhysFrame (PhysAddr 4096))) = 1"
    "unat (frame_index PAGE_SIZE (PhysFrame (PhysAddr 12288))) = 3"
    "unat (frame_index PAGE_SIZE (PhysFrame (PhysAddr 0xFFFFFFFFFF000))) = 0xFFFFFFFFFF"
    by (simp_all add: unat_frame_index)
  have lim: "min (Suc 3) (phys_limit div unat PAGE_SIZE - 1) = 4"
    "min (Suc 0xFFFFFFFFFF) (phys_limit div unat PAGE_SIZE - 1) = 0xFFFFFFFFFF"
    by (simp_all add: phys_limit_def)
  show ?thesis
    using frame_range_iteration [OF page_size_power_of_two ok(1,2,3) _ idx(1,2) [symmetric], of 4]
      frame_range_iteration [OF page_size_power_of_two ok(1,4,4) _ idx(3,3) [symmetric], of 2]
    unfolding lim upt by (simp add: frame_less_eq_nat)
qed

end
