(* ===== verification/Bitmap.thy ===== *)
theory Bitmap
  imports Frame
begin

text \<open>
  The frame allocator interface (\<open>eira/src/mm/allocator/mod.rs\<close>) and its bitmap and
  free list implementation (\<open>eira/src/mm/allocator/bitmap.rs\<close>).

  The trait's required methods are the \<open>fixes\<close> of the locale \<open>frame_allocator\<close> and its
  promises are the \<open>assumes\<close>; the trait's provided methods are definitions that take the
  required ones as arguments. The free list lives in kernel memory: the state of the
  allocator is the struct together with the store. The bitmap slice, which the allocator
  owns exclusively, is a list of bytes.
\<close>

section \<open>Provided methods of the trait\<close>

definition allocate_contiguous ::
    "('s \<Rightarrow> (owned_frame option \<times> 's) res) \<Rightarrow> usize \<Rightarrow> 's \<Rightarrow> (owned_frame option \<times> 's) res" where
  "allocate_contiguous allocate count s = (if count = 1 then allocate s else Inr (None, s))"

definition used_frames :: "('s \<Rightarrow> usize) \<Rightarrow> ('s \<Rightarrow> usize) \<Rightarrow> 's \<Rightarrow> usize res" where
  "used_frames total_frames free_frames s = usub (total_frames s) (free_frames s)"

definition deallocate_owned :: "(phys_frame \<Rightarrow> 's \<Rightarrow> 's res) \<Rightarrow> owned_frame \<Rightarrow> 's \<Rightarrow> 's res" where
  "deallocate_owned deallocate frame s = (let raw = owned_into_inner frame in deallocate raw s)"

text \<open>\<open>OwnedFrame::free\<close> of \<open>frame.rs\<close>.\<close>

definition owned_free :: "(phys_frame \<Rightarrow> 's \<Rightarrow> 's res) \<Rightarrow> owned_frame \<Rightarrow> 's \<Rightarrow> 's res" where
  "owned_free deallocate this s = deallocate (owned_inner this) s"

section \<open>The bitmap allocator\<close>

definition FREE_LIST_EMPTY :: usize where
  "FREE_LIST_EMPTY = - 1"

record bitmap_allocator =
  bitmap :: "u8 list"
  free_list_head :: usize
  hhdm_offset :: usize
  total :: usize
  free :: usize

type_synonym bitmap_state = "bitmap_allocator \<times> mem"

definition bitmap_new :: "u8 list \<Rightarrow> usize \<Rightarrow> usize \<Rightarrow> bitmap_allocator res" where
  "bitmap_new bm hhdm max_phys_addr =
     rbind (uadd max_phys_addr PAGE_SIZE) (\<lambda>t.
     rbind (usub t 1) (\<lambda>t.
     let tot = t div PAGE_SIZE in
     rbind (uadd tot 7) (\<lambda>r.
     let required = r div 8 in
     rbind (require (unat required \<le> length bm) ''bitmap too small'') (\<lambda>_.
       Inr \<lparr>bitmap = bm, free_list_head = FREE_LIST_EMPTY, hhdm_offset = hhdm,
            total = tot, free = 0\<rparr>))))"

definition is_allocated :: "bitmap_allocator \<Rightarrow> phys_frame \<Rightarrow> bool" where
  "is_allocated b frame =
     (let idx = frame_index PAGE_SIZE frame; byte = unat (idx div 8); bi = unat (idx mod 8) in
      if length (bitmap b) \<le> byte then True
      else bitmap b ! byte AND push_bit bi 1 \<noteq> 0)"

definition mark_allocated :: "phys_frame \<Rightarrow> bitmap_allocator \<Rightarrow> bitmap_allocator res" where
  "mark_allocated frame b =
     (let idx = frame_index PAGE_SIZE frame; byte = unat (idx div 8); bi = unat (idx mod 8) in
      rbind (require (byte < length (bitmap b)) ''frame index out of bitmap bounds'') (\<lambda>_.
        Inr (b\<lparr>bitmap := (bitmap b)[byte := bitmap b ! byte OR push_bit bi 1]\<rparr>)))"

definition mark_free :: "phys_frame \<Rightarrow> bitmap_allocator \<Rightarrow> bitmap_allocator res" where
  "mark_free frame b =
     (let idx = frame_index PAGE_SIZE frame; byte = unat (idx div 8); bi = unat (idx mod 8) in
      rbind (require (byte < length (bitmap b)) ''frame index out of bitmap bounds'') (\<lambda>_.
        Inr (b\<lparr>bitmap := (bitmap b)[byte := bitmap b ! byte AND NOT (push_bit bi 1)]\<rparr>)))"

definition phys_to_virt :: "bitmap_allocator \<Rightarrow> usize \<Rightarrow> usize res" where
  "phys_to_virt b phys = uadd phys (hhdm_offset b)"

definition free_frame :: "phys_frame \<Rightarrow> bitmap_state \<Rightarrow> bitmap_state res" where
  "free_frame frame s =
     (case s of (b, m) \<Rightarrow>
        rbind (mark_free frame b) (\<lambda>b.
        rbind (phys_to_virt b (phys_as_usize (frame_base frame))) (\<lambda>node.
        rbind (require (node \<noteq> 0) ''frame base is null'') (\<lambda>_.
        let m = m(node := free_list_head b);
            b = b\<lparr>free_list_head := phys_as_usize (frame_base frame)\<rparr> in
        rbind (uadd (free b) 1) (\<lambda>n.
          Inr (b\<lparr>free := n\<rparr>, m))))))"

definition pop_free :: "bitmap_state \<Rightarrow> (owned_frame option \<times> bitmap_state) res" where
  "pop_free s =
     (case s of (b, m) \<Rightarrow>
        if free_list_head b = FREE_LIST_EMPTY then Inr (None, s)
        else
          let phys = free_list_head b in
          rbind (phys_to_virt b phys) (\<lambda>node.
          rbind (require (node \<noteq> 0) ''free list node is null'') (\<lambda>_.
          let b = b\<lparr>free_list_head := m node\<rparr> in
          rbind (expect (frame_from_index PAGE_SIZE (phys div PAGE_SIZE))
                   ''free list contained invalid frame address'') (\<lambda>frame.
          rbind (mark_allocated frame b) (\<lambda>b.
          rbind (usub (free b) 1) (\<lambda>n.
            Inr (Some (owned_new frame), (b\<lparr>free := n\<rparr>, m))))))))"

text \<open>The \<open>while\<close> loop of \<open>add_region\<close>.\<close>

function add_region_loop :: "phys_frame \<Rightarrow> phys_frame \<Rightarrow> bitmap_state \<Rightarrow> bitmap_state res" where
  "add_region_loop frame end_frame s =
     (if frame < end_frame then
        rbind (free_frame frame s) (\<lambda>s.
        rbind (uadd (frame_index PAGE_SIZE frame) 1) (\<lambda>i.
          case frame_from_index PAGE_SIZE i of
            Some f \<Rightarrow> add_region_loop f end_frame s
          | None \<Rightarrow> Inr s))
      else Inr s)"
  by pat_completeness auto

termination
proof (relation "measure (\<lambda>(f, e, s). frame_nat e - frame_nat f)"; clarsimp)
  fix f e f' :: phys_frame and i :: usize
  assume "f < e" and i: "uadd (frame_index PAGE_SIZE f) 1 = Inr i"
    and f': "frame_from_index PAGE_SIZE i = Some f'"
  have "unat i = Suc (frame_nat f div 4096)"
    using i by (simp add: unat_simps unat_frame_index)
  moreover have "frame_nat f' = unat i * 4096"
    using f' by (auto simp: frame_from_index_def unat_simps split: option.splits)
  ultimately have "frame_nat f < frame_nat f'"
    using dividend_less_div_times [of 4096 "frame_nat f"] by simp
  then show "frame_nat e - frame_nat f' < frame_nat e - frame_nat f"
    using \<open>f < e\<close> by (simp add: frame_less_nat)
qed

definition add_region :: "phys_addr \<Rightarrow> usize \<Rightarrow> bitmap_state \<Rightarrow> bitmap_state res" where
  "add_region base len s =
     rbind (phys_align_up base PAGE_SIZE) (\<lambda>up.
     rbind (expect up ''region base align_up overflowed'') (\<lambda>up.
     rbind (frame_containing PAGE_SIZE up) (\<lambda>start_frame.
       case phys_checked_add base len of
         None \<Rightarrow> Inr s
       | Some end_addr \<Rightarrow>
           rbind (phys_align_down end_addr PAGE_SIZE) (\<lambda>down.
           rbind (frame_containing PAGE_SIZE down) (\<lambda>end_frame.
             if end_frame \<le> start_frame then Inr s
             else add_region_loop start_frame end_frame s)))))"

definition bitmap_allocate :: "bitmap_state \<Rightarrow> (owned_frame option \<times> bitmap_state) res" where
  "bitmap_allocate s = pop_free s"

definition bitmap_deallocate :: "phys_frame \<Rightarrow> bitmap_state \<Rightarrow> bitmap_state res" where
  "bitmap_deallocate frame s =
     rbind (require (is_allocated (fst s) frame)
              ''deallocate called on a frame that is not allocated'') (\<lambda>_.
       free_frame frame s)"

definition bitmap_total_frames :: "bitmap_state \<Rightarrow> usize" where
  "bitmap_total_frames s = total (fst s)"

definition bitmap_free_frames :: "bitmap_state \<Rightarrow> usize" where
  "bitmap_free_frames s = free (fst s)"

section \<open>The contract of a frame allocator\<close>

text \<open>
  What \<open>FrameAllocator\<close> promises. \<open>avail\<close> is the set of frames that can be handed out and
  \<open>taken\<close> the set of frames that have an owner; \<open>ok\<close> is the implementation's invariant.
\<close>

locale frame_allocator =
  fixes ok :: "'s \<Rightarrow> bool"
    and avail :: "'s \<Rightarrow> phys_frame set"
    and taken :: "'s \<Rightarrow> phys_frame set"
    and allocate :: "'s \<Rightarrow> (owned_frame option \<times> 's) res"
    and deallocate :: "phys_frame \<Rightarrow> 's \<Rightarrow> 's res"
    and total_frames :: "'s \<Rightarrow> usize"
    and free_frames :: "'s \<Rightarrow> usize"
  assumes allocate_some: "ok s \<Longrightarrow> avail s \<noteq> {} \<Longrightarrow>
      \<exists>f s'. allocate s = Inr (Some (OwnedFrame f), s') \<and> ok s' \<and> f \<in> avail s \<and>
        avail s' = avail s - {f} \<and> taken s' = insert f (taken s) \<and>
        total_frames s' = total_frames s"
    and allocate_none: "ok s \<Longrightarrow> avail s = {} \<Longrightarrow> allocate s = Inr (None, s)"
    and deallocate_taken: "ok s \<Longrightarrow> f \<in> taken s \<Longrightarrow>
      \<exists>s'. deallocate f s = Inr s' \<and> ok s' \<and> avail s' = insert f (avail s) \<and>
        taken s' = taken s - {f} \<and> total_frames s' = total_frames s"
    and deallocate_not_taken: "ok s \<Longrightarrow> f \<notin> taken s \<Longrightarrow> frame_ok PAGE_SIZE f \<Longrightarrow>
      \<exists>msg. deallocate f s = Inl (Panic msg)"
    and finite_frames: "ok s \<Longrightarrow> finite (avail s \<union> taken s)"
    and disjoint_frames: "ok s \<Longrightarrow> avail s \<inter> taken s = {}"
    and free_frames_card: "ok s \<Longrightarrow> unat (free_frames s) = card (avail s)"
    and total_frames_card: "ok s \<Longrightarrow> card (avail s \<union> taken s) \<le> unat (total_frames s)"

text \<open>
  A client of the allocator holds a list of owned frames. It allocates, keeping the handle
  it is given, or frees the handle at some position of its list.
\<close>

datatype client_op = Take | Release nat

definition client_step ::
    "('s \<Rightarrow> (owned_frame option \<times> 's) res) \<Rightarrow> (phys_frame \<Rightarrow> 's \<Rightarrow> 's res) \<Rightarrow>
     client_op \<Rightarrow> owned_frame list \<times> 's \<Rightarrow> (owned_frame list \<times> 's) res" where
  "client_step allocate deallocate q c =
     (case c of (hs, s) \<Rightarrow>
        (case q of
           Take \<Rightarrow> rbind (allocate s) (\<lambda>(r, s).
             Inr (case r of None \<Rightarrow> (hs, s) | Some h \<Rightarrow> (h # hs, s)))
         | Release k \<Rightarrow>
             if k < length hs then
               rbind (owned_free deallocate (hs ! k) s) (\<lambda>s. Inr (take k hs @ drop (Suc k) hs, s))
             else Inr (hs, s)))"

fun client_run ::
    "('s \<Rightarrow> (owned_frame option \<times> 's) res) \<Rightarrow> (phys_frame \<Rightarrow> 's \<Rightarrow> 's res) \<Rightarrow>
     client_op list \<Rightarrow> owned_frame list \<times> 's \<Rightarrow> (owned_frame list \<times> 's) res" where
  "client_run allocate deallocate [] c = Inr c"
| "client_run allocate deallocate (q # qs) c =
     rbind (client_step allocate deallocate q c) (client_run allocate deallocate qs)"

lemma remove_nth:
  assumes "k < length xs" and "distinct xs"
  shows "distinct (take k xs @ drop (Suc k) xs)"
    and "set (take k xs @ drop (Suc k) xs) = set xs - {xs ! k}"
proof -
  have "xs = take k xs @ xs ! k # drop (Suc k) xs"
    using assms(1) by (rule id_take_nth_drop)
  then have d: "distinct (take k xs @ xs ! k # drop (Suc k) xs)"
    and s: "set xs = set (take k xs @ xs ! k # drop (Suc k) xs)"
    using assms(2) by simp_all
  show "distinct (take k xs @ drop (Suc k) xs)"
    using d by simp
  show "set (take k xs @ drop (Suc k) xs) = set xs - {xs ! k}"
    unfolding s using d by auto
qed

context frame_allocator
begin

definition owns :: "owned_frame list \<times> 's \<Rightarrow> bool" where
  "owns c \<longleftrightarrow> ok (snd c) \<and> distinct (fst c) \<and> owned_inner ` set (fst c) = taken (snd c)"

lemma owns_step:
  assumes "owns c"
  shows "\<exists>c'. client_step allocate deallocate q c = Inr c' \<and> owns c' \<and>
    avail (snd c') \<union> taken (snd c') = avail (snd c) \<union> taken (snd c)"
proof (cases c)
  case (Pair hs s)
  with assms have ok: "ok s" and hs: "distinct hs" and tk: "owned_inner ` set hs = taken s"
    by (auto simp: owns_def)
  have disj: "avail s \<inter> taken s = {}"
    using ok by (rule disjoint_frames)
  show ?thesis
  proof (cases q)
    case Take
    show ?thesis
    proof (cases "avail s = {}")
      case True
      with Pair Take ok assms show ?thesis
        by (simp add: client_step_def allocate_none)
    next
      case False
      then obtain f s' where f: "allocate s = Inr (Some (OwnedFrame f), s')" "ok s'"
        "f \<in> avail s" "avail s' = avail s - {f}" "taken s' = insert f (taken s)"
        using allocate_some [OF ok] by blast
      then have "OwnedFrame f \<notin> set hs"
        using tk disj by force
      with f Pair Take hs tk show ?thesis
        by (auto simp: client_step_def owns_def)
    qed
  next
    case (Release k)
    show ?thesis
    proof (cases "k < length hs")
      case False
      with Pair Release assms show ?thesis
        by (simp add: client_step_def)
    next
      case True
      let ?f = "owned_inner (hs ! k)"
      have f: "?f \<in> taken s"
        using True tk by auto
      obtain s' where s': "deallocate ?f s = Inr s'" "ok s'" "avail s' = insert ?f (avail s)"
        "taken s' = taken s - {?f}"
        using deallocate_taken [OF ok f] by blast
      have "owned_inner ` (set hs - {hs ! k}) = taken s - {?f}"
        using tk by (auto simp: image_iff owned_frame.expand)
      with s' f Pair Release True show ?thesis
        using remove_nth [OF True hs]
        by (auto simp: client_step_def owned_free_def owns_def simp flip: set_append)
    qed
  qed
qed

lemma owns_run:
  "owns c \<Longrightarrow> \<exists>c'. client_run allocate deallocate qs c = Inr c' \<and> owns c' \<and>
    avail (snd c') \<union> taken (snd c') = avail (snd c) \<union> taken (snd c)"
proof (induction qs arbitrary: c)
  case Nil
  then show ?case
    by simp
next
  case (Cons q qs)
  obtain d where d: "client_step allocate deallocate q c = Inr d" "owns d"
    "avail (snd d) \<union> taken (snd d) = avail (snd c) \<union> taken (snd c)"
    using owns_step [OF Cons.prems] by blast
  with Cons.IH [OF d(2)] show ?case
    by simp
qed

lemma owns_count:
  assumes "owns c"
  shows "unat (free_frames (snd c)) + length (fst c) = card (avail (snd c) \<union> taken (snd c))"
proof -
  have "inj owned_inner"
    by (auto intro!: injI owned_frame.expand)
  then have "length (fst c) = card (taken (snd c))"
    using assms by (metis card_image distinct_card inj_on_subset owns_def subset_UNIV)
  moreover have "ok (snd c)"
    using assms by (simp add: owns_def)
  ultimately show ?thesis
    using finite_frames disjoint_frames by (simp add: free_frames_card card_Un_disjoint)
qed

lemma used_frames_defined: "ok s \<Longrightarrow> \<exists>n. used_frames total_frames free_frames s = Inr n"
proof -
  assume ok: "ok s"
  have "card (avail s) \<le> card (avail s \<union> taken s)"
    using finite_frames [OF ok] by (intro card_mono) auto
  then have "unat (free_frames s) \<le> unat (total_frames s)"
    using free_frames_card [OF ok] total_frames_card [OF ok] by simp
  then show ?thesis
    by (simp add: used_frames_def usub_def checked_sub_def word_le_nat_alt)
qed

end

section \<open>The invariant of the bitmap allocator\<close>

abbreviation page :: "nat \<Rightarrow> phys_frame" where
  "page i \<equiv> frame_at PAGE_SIZE i"

definition bitmap_bit :: "u8 list \<Rightarrow> nat \<Rightarrow> bool" where
  "bitmap_bit bm i \<longleftrightarrow> i div 8 < length bm \<and> bit (bm ! (i div 8)) (i mod 8)"

text \<open>
  The free list in memory, as frame indices: the head, then the frame each node names, as
  many nodes as the \<open>free\<close> counter says.
\<close>

fun free_walk :: "nat \<Rightarrow> mem \<Rightarrow> usize \<Rightarrow> usize \<Rightarrow> nat list" where
  "free_walk 0 m h p = []"
| "free_walk (Suc n) m h p = unat p div 4096 # free_walk n m h (m (p + h))"

fun chain :: "mem \<Rightarrow> usize \<Rightarrow> usize \<Rightarrow> nat list \<Rightarrow> bool" where
  "chain m h p [] \<longleftrightarrow> p = FREE_LIST_EMPTY"
| "chain m h p (i # is) \<longleftrightarrow> p = of_nat (i * 4096) \<and> chain m h (m (p + h)) is"

definition free_list :: "bitmap_state \<Rightarrow> nat list" where
  "free_list s = free_walk (unat (free (fst s))) (snd s) (hhdm_offset (fst s)) (free_list_head (fst s))"

definition layout_ok :: "bitmap_allocator \<Rightarrow> bool" where
  "layout_ok b \<longleftrightarrow> 0 < unat (hhdm_offset b) \<and>
     unat (hhdm_offset b) + unat (total b) * 4096 \<le> 2 ^ 64 \<and>
     unat (total b) * 4096 \<le> phys_limit \<and> unat (total b) \<le> 8 * length (bitmap b)"

definition list_ok :: "bitmap_state \<Rightarrow> nat list \<Rightarrow> bool" where
  "list_ok s is \<longleftrightarrow> distinct is \<and> unat (free (fst s)) = length is \<and>
     chain (snd s) (hhdm_offset (fst s)) (free_list_head (fst s)) is \<and>
     (\<forall>i \<in> set is. i < unat (total (fst s)) \<and> \<not> bitmap_bit (bitmap (fst s)) i)"

definition bits_ok :: "bitmap_allocator \<Rightarrow> bool" where
  "bits_ok b \<longleftrightarrow> (\<forall>i < 8 * length (bitmap b). bitmap_bit (bitmap b) i \<longrightarrow> i < unat (total b))"

definition bitmap_inv :: "bitmap_state \<Rightarrow> bool" where
  "bitmap_inv s \<longleftrightarrow> layout_ok (fst s) \<and> bits_ok (fst s) \<and> list_ok s (free_list s)"

definition bitmap_avail :: "bitmap_state \<Rightarrow> phys_frame set" where
  "bitmap_avail s = page ` set (free_list s)"

definition bitmap_taken :: "bitmap_state \<Rightarrow> phys_frame set" where
  "bitmap_taken s = page ` {i. bitmap_bit (bitmap (fst s)) i}"

lemma layout_page:
  assumes "layout_ok b" and "i < unat (total b)"
  shows "i * 4096 < phys_limit" and "unat (of_nat (i * 4096) :: usize) = i * 4096"
    and "i * 4096 + unat (hhdm_offset b) < 2 ^ 64" and "i div 8 < length (bitmap b)"
proof -
  have *: "i * 4096 < unat (total b) * 4096" "i < 8 * length (bitmap b)"
    using assms by (auto simp: layout_ok_def)
  show "i * 4096 < phys_limit"
    using * assms by (simp add: layout_ok_def)
  then show "unat (of_nat (i * 4096) :: usize) = i * 4096"
    by (rule unat_of_nat_limit)
  show "i * 4096 + unat (hhdm_offset b) < 2 ^ 64"
    using * assms by (simp add: layout_ok_def)
  show "i div 8 < length (bitmap b)"
    using *(2) by (simp add: less_mult_imp_div_less mult.commute)
qed

lemma frame_index_page: "i * 4096 < phys_limit \<Longrightarrow> frame_index PAGE_SIZE (page i) = of_nat i"
  by (simp add: word_eq_unat unat_frame_index)

lemma page_inject: "i * 4096 < phys_limit \<Longrightarrow> j * 4096 < phys_limit \<Longrightarrow> page i = page j \<longleftrightarrow> i = j"
  by (auto simp: frame_eq_nat)

lemma index_split:
  assumes "i * 4096 < phys_limit"
  shows "unat (of_nat i div 8 :: usize) = i div 8" "unat (of_nat i mod 8 :: usize) = i mod 8"
  using assms by (simp_all add: unat_div unat_mod)

lemma page_neq_empty: "i * 4096 < phys_limit \<Longrightarrow> of_nat (i * 4096) \<noteq> FREE_LIST_EMPTY"
proof
  assume i: "i * 4096 < phys_limit" and "of_nat (i * 4096) = FREE_LIST_EMPTY"
  then have "unat (of_nat (i * 4096) :: usize) = unat FREE_LIST_EMPTY"
    by (simp only:)
  with i show False
    by (simp add: FREE_LIST_EMPTY_def unsigned_minus_1_eq_mask mask_eq_exp_minus_1 phys_limit_def
        del: of_nat_mult)
qed

lemma is_allocated_bit:
  assumes "i * 4096 < phys_limit"
  shows "is_allocated b (page i) \<longleftrightarrow> 8 * length (bitmap b) \<le> i \<or> bitmap_bit (bitmap b) i"
proof -
  have bit: "x AND push_bit (i mod 8) 1 \<noteq> 0 \<longleftrightarrow> bit x (i mod 8)" for x :: u8
    by (simp only: bit_iff_and_push_bit_not_eq_0)
  have len: "length (bitmap b) \<le> i div 8 \<longleftrightarrow> 8 * length (bitmap b) \<le> i"
    by (simp add: less_eq_div_iff_mult_less_eq mult.commute)
  show ?thesis
    unfolding is_allocated_def Let_def frame_index_page [OF assms] index_split [OF assms] bit
    by (simp add: bitmap_bit_def len flip: not_le)
qed

lemma bitmap_bit_update:
  assumes "i div 8 < length bm"
  shows "bitmap_bit (bm[i div 8 := bm ! (i div 8) OR push_bit (i mod 8) 1]) j \<longleftrightarrow> j = i \<or> bitmap_bit bm j"
    and "bitmap_bit (bm[i div 8 := bm ! (i div 8) AND NOT (push_bit (i mod 8) 1)]) j \<longleftrightarrow>
      j \<noteq> i \<and> bitmap_bit bm j"
proof -
  have *: "j = i \<longleftrightarrow> j div 8 = i div 8 \<and> j mod 8 = i mod 8"
    by (metis div_mult_mod_eq)
  have "j mod 8 < 8" by simp
  then show "bitmap_bit (bm[i div 8 := bm ! (i div 8) OR push_bit (i mod 8) 1]) j \<longleftrightarrow> j = i \<or> bitmap_bit bm j"
    and "bitmap_bit (bm[i div 8 := bm ! (i div 8) AND NOT (push_bit (i mod 8) 1)]) j \<longleftrightarrow>
      j \<noteq> i \<and> bitmap_bit bm j"
    using assms unfolding * by (auto simp: bitmap_bit_def nth_list_update bit_simps)
qed

lemma mark_page:
  assumes "layout_ok b" and "i < unat (total b)"
  shows "mark_allocated (page i) b =
      Inr (b\<lparr>bitmap := (bitmap b)[i div 8 := bitmap b ! (i div 8) OR push_bit (i mod 8) 1]\<rparr>)"
    and "mark_free (page i) b =
      Inr (b\<lparr>bitmap := (bitmap b)[i div 8 := bitmap b ! (i div 8) AND NOT (push_bit (i mod 8) 1)]\<rparr>)"
  using layout_page [OF assms]
  by (simp_all add: mark_allocated_def mark_free_def Let_def frame_index_page index_split)

lemma chain_walk:
  "chain m h p is \<Longrightarrow> \<forall>i \<in> set is. i * 4096 < phys_limit \<Longrightarrow> free_walk (length is) m h p = is"
  by (induction "is" arbitrary: p) (auto simp del: of_nat_mult)

lemma list_ok_free_list:
  assumes "layout_ok (fst s)" and "list_ok s is"
  shows "free_list s = is"
  using assms chain_walk layout_page(1) by (auto simp: list_ok_def free_list_def)

lemma chain_upd:
  assumes "chain m h p is" and "\<forall>i \<in> set is. of_nat (i * 4096) + h \<noteq> a"
  shows "chain (m(a := v)) h p is"
  using assms by (induction "is" arbitrary: p) auto

lemma bitmap_invI:
  assumes "layout_ok (fst s)" and "bits_ok (fst s)" and "list_ok s is"
  shows "bitmap_inv s" and "free_list s = is"
  using assms list_ok_free_list by (auto simp: bitmap_inv_def)

lemma phys_to_virt_page:
  assumes "layout_ok b" and "i < unat (total b)"
  shows "phys_to_virt b (of_nat (i * 4096)) = Inr (of_nat (i * 4096) + hhdm_offset b)"
    and "of_nat (i * 4096) + hhdm_offset b \<noteq> 0"
proof -
  let ?a = "of_nat (i * 4096) :: usize"
  have le: "unat ?a + unat (hhdm_offset b) < 2 ^ 64"
    using layout_page(2,3) [OF assms] by (simp del: of_nat_mult)
  then show "phys_to_virt b ?a = Inr (?a + hhdm_offset b)"
    by (simp add: phys_to_virt_def uadd_def checked_add_def)
  have "unat (?a + hhdm_offset b) = unat ?a + unat (hhdm_offset b)"
    using le by (simp add: unat_plus_if' del: of_nat_mult)
  then show "?a + hhdm_offset b \<noteq> 0"
    using assms(1) by (auto simp: layout_ok_def simp del: of_nat_mult)
qed

definition same_config :: "bitmap_state \<Rightarrow> bitmap_state \<Rightarrow> bool" where
  "same_config s s' \<longleftrightarrow> hhdm_offset (fst s') = hhdm_offset (fst s) \<and>
     total (fst s') = total (fst s) \<and> length (bitmap (fst s')) = length (bitmap (fst s))"

lemma same_config_trans: "same_config s s' \<Longrightarrow> same_config s' s'' \<Longrightarrow> same_config s s''"
  by (simp add: same_config_def)

lemma same_config_refl [simp]: "same_config s s"
  by (simp add: same_config_def)

lemma pop_free_empty:
  assumes "bitmap_inv s" and "free_list s = []"
  shows "pop_free s = Inr (None, s)"
  using assms by (cases s) (auto simp: bitmap_inv_def list_ok_def pop_free_def)

lemma pop_free_page:
  assumes inv: "bitmap_inv s" and fl: "free_list s = i # is"
  shows "\<exists>s'. pop_free s = Inr (Some (OwnedFrame (page i)), s') \<and> bitmap_inv s' \<and>
    free_list s' = is \<and> same_config s s' \<and> snd s' = snd s \<and>
    (\<forall>j. bitmap_bit (bitmap (fst s')) j \<longleftrightarrow> j = i \<or> bitmap_bit (bitmap (fst s)) j)"
proof -
  obtain b m where s: "s = (b, m)"
    by (cases s)
  have lay: "layout_ok b" and bits: "bits_ok b" and l: "list_ok s (i # is)"
    using inv fl s by (simp_all add: bitmap_inv_def)
  then have i: "i < unat (total b)" "\<not> bitmap_bit (bitmap b) i"
    and head: "free_list_head b = of_nat (i * 4096)"
    and free: "unat (free b) = Suc (length is)"
    using s by (simp_all add: list_ok_def)
  note pg = layout_page [OF lay i(1)]
  define bm where "bm = (bitmap b)[i div 8 := bitmap b ! (i div 8) OR push_bit (i mod 8) 1]"
  have len: "length bm = length (bitmap b)"
    by (simp add: bm_def)
  have bit: "bitmap_bit bm j \<longleftrightarrow> j = i \<or> bitmap_bit (bitmap b) j" for j
    unfolding bm_def using pg(4) by (rule bitmap_bit_update)
  let ?s' = "(b\<lparr>free_list_head := m (of_nat (i * 4096) + hhdm_offset b), bitmap := bm,
    free := free b - 1\<rparr>, m)"
  have idx: "of_nat (i * 4096) div PAGE_SIZE = (of_nat i :: usize)"
    using frame_index_page [OF pg(1)] by (simp add: frame_index_def frame_at_def)
  have "frame_from_index PAGE_SIZE (of_nat i) = Some (page i)"
    using pg(1) by (simp add: frame_from_index_eq)
  moreover have free': "unat (free b - 1) = length is"
    using free unat_minus_one [of "free b"] by force
  moreover have "usub (free b) 1 = Inr (free b - 1)"
    using free by (simp add: usub_def checked_sub_def word_le_nat_alt)
  moreover have "mark_allocated (page i) (b\<lparr>free_list_head := v\<rparr>) =
      Inr (b\<lparr>free_list_head := v, bitmap := bm\<rparr>)" for v
    using mark_page(1) [of "b\<lparr>free_list_head := v\<rparr>" i] lay i(1) by (simp add: layout_ok_def bm_def)
  ultimately have pop: "pop_free s = Inr (Some (OwnedFrame (page i)), ?s')"
    using i page_neq_empty [OF pg(1)] phys_to_virt_page [OF lay i(1)]
    by (simp add: s pop_free_def head Let_def idx owned_new_def del: of_nat_mult)
  have "list_ok ?s' is"
    using l s free' head by (auto simp: list_ok_def bit)
  moreover have "bits_ok (fst ?s')"
    using bits i(1) by (auto simp: bits_ok_def bit len)
  moreover have "layout_ok (fst ?s')"
    using lay by (simp add: layout_ok_def len)
  ultimately have "bitmap_inv ?s'" "free_list ?s' = is"
    using bitmap_invI by blast+
  with pop bit show ?thesis
    by (auto simp: same_config_def s len)
qed

lemma free_frame_page:
  assumes inv: "bitmap_inv s" and i: "i < unat (total (fst s))" "i \<notin> set (free_list s)"
  shows "\<exists>s'. free_frame (page i) s = Inr s' \<and> bitmap_inv s' \<and>
    free_list s' = i # free_list s \<and> same_config s s' \<and>
    (\<forall>j. bitmap_bit (bitmap (fst s')) j \<longleftrightarrow> j \<noteq> i \<and> bitmap_bit (bitmap (fst s)) j) \<and>
    (\<forall>a. a \<noteq> of_nat (i * 4096) + hhdm_offset (fst s) \<longrightarrow> snd s' a = snd s a)"
proof -
  obtain b m where s: "s = (b, m)"
    by (cases s)
  let ?is = "free_list s"
  have lay: "layout_ok b" and bits: "bits_ok b" and l: "list_ok s ?is"
    using inv s by (simp_all add: bitmap_inv_def)
  have i': "i < unat (total b)"
    using i s by simp
  note pg = layout_page [OF lay i']
  define bm where "bm = (bitmap b)[i div 8 := bitmap b ! (i div 8) AND NOT (push_bit (i mod 8) 1)]"
  have len: "length bm = length (bitmap b)"
    by (simp add: bm_def)
  have bit: "bitmap_bit bm j \<longleftrightarrow> j \<noteq> i \<and> bitmap_bit (bitmap b) j" for j
    unfolding bm_def using pg(4) by (rule bitmap_bit_update)
  let ?a = "of_nat (i * 4096) + hhdm_offset b"
  let ?s' = "(b\<lparr>bitmap := bm, free_list_head := of_nat (i * 4096), free := free b + 1\<rparr>,
    m(?a := free_list_head b))"
  have "set (i # ?is) \<subseteq> {..< unat (total b)}"
    using l i' s by (auto simp: list_ok_def)
  moreover have "distinct (i # ?is)"
    using l i(2) by (simp add: list_ok_def)
  ultimately have "length (i # ?is) \<le> unat (total b)"
    by (metis card_lessThan card_mono distinct_card finite_lessThan)
  then have room: "unat (free b) + 1 < 2 ^ 64"
    using l s unat_bound [of "total b"] by (simp add: list_ok_def)
  then have free: "uadd (free b) 1 = Inr (free b + 1)" "unat (free b + 1) = Suc (length ?is)"
    using l s by (simp_all add: uadd_def checked_add_def list_ok_def unat_plus_if')
  have "layout_ok (b\<lparr>bitmap := bm\<rparr>)"
    using lay by (simp add: layout_ok_def len)
  from phys_to_virt_page [OF this, of i]
  have run: "free_frame (page i) s = Inr ?s'"
    using i' free(1) mark_page(2) [OF lay i', folded bm_def]
    by (simp add: s free_frame_def Let_def frame_at_def del: of_nat_mult)
  have "\<forall>j \<in> set ?is. of_nat (j * 4096) + hhdm_offset b \<noteq> ?a"
  proof
    fix j assume j: "j \<in> set ?is"
    then have "unat (of_nat (j * 4096) :: usize) = j * 4096"
      using l s layout_page(2) [OF lay] by (auto simp: list_ok_def simp del: of_nat_mult)
    moreover have "j \<noteq> i"
      using i(2) j by auto
    ultimately have "of_nat (j * 4096) \<noteq> (of_nat (i * 4096) :: usize)"
      using pg(2) by (metis mult_right_cancel zero_neq_numeral)
    then show "of_nat (j * 4096) + hhdm_offset b \<noteq> ?a"
      by (simp del: of_nat_mult)
  qed
  then have "chain (m(?a := free_list_head b)) (hhdm_offset b) (free_list_head b) ?is"
    using l s by (intro chain_upd) (simp_all add: list_ok_def)
  then have "list_ok ?s' (i # ?is)"
    using l s free i' i(2) by (auto simp: list_ok_def bit)
  moreover have "bits_ok (fst ?s')"
    using bits by (auto simp: bits_ok_def bit len)
  moreover have "layout_ok (fst ?s')"
    using lay by (simp add: layout_ok_def len)
  ultimately have "bitmap_inv ?s'" "free_list ?s' = i # ?is"
    using bitmap_invI by blast+
  with run bit show ?thesis
    by (auto simp: same_config_def s len)
qed

section \<open>The bitmap allocator keeps the contract\<close>

lemma bitmap_bit_total:
  assumes "bitmap_inv s" and "bitmap_bit (bitmap (fst s)) i"
  shows "i < unat (total (fst s))"
proof -
  have "i < 8 * length (bitmap (fst s))"
    using assms(2) by (simp add: bitmap_bit_def div_less_iff_less_mult mult.commute)
  with assms show ?thesis
    by (auto simp: bitmap_inv_def bits_ok_def)
qed

lemma free_list_total: "bitmap_inv s \<Longrightarrow> i \<in> set (free_list s) \<Longrightarrow> i < unat (total (fst s))"
  by (auto simp: bitmap_inv_def list_ok_def)

lemma free_list_bit: "bitmap_inv s \<Longrightarrow> i \<in> set (free_list s) \<Longrightarrow> \<not> bitmap_bit (bitmap (fst s)) i"
  by (auto simp: bitmap_inv_def list_ok_def)

lemma total_limit: "bitmap_inv s \<Longrightarrow> i < unat (total (fst s)) \<Longrightarrow> i * 4096 < phys_limit"
  using layout_page(1) by (auto simp: bitmap_inv_def)

lemma page_mem_avail:
  assumes "bitmap_inv s" and "i * 4096 < phys_limit"
  shows "page i \<in> bitmap_avail s \<longleftrightarrow> i \<in> set (free_list s)"
  unfolding bitmap_avail_def image_iff
  by (metis assms page_inject total_limit free_list_total)

lemma page_mem_taken:
  assumes "bitmap_inv s" and "i * 4096 < phys_limit"
  shows "page i \<in> bitmap_taken s \<longleftrightarrow> bitmap_bit (bitmap (fst s)) i"
  unfolding bitmap_taken_def image_iff Bex_def mem_Collect_eq
  by (metis assms page_inject total_limit bitmap_bit_total)

lemma inj_on_page: "bitmap_inv s \<Longrightarrow> inj_on page {..< unat (total (fst s))}"
  by (rule inj_onI) (metis lessThan_iff page_inject total_limit)

lemma bitmap_allocate_cons:
  assumes inv: "bitmap_inv s" and fl: "free_list s = i # is"
  shows "\<exists>s'. bitmap_allocate s = Inr (Some (OwnedFrame (page i)), s') \<and> bitmap_inv s' \<and>
    free_list s' = is \<and> bitmap_avail s' = bitmap_avail s - {page i} \<and>
    bitmap_taken s' = insert (page i) (bitmap_taken s) \<and> same_config s s'"
proof -
  obtain s' where s': "pop_free s = Inr (Some (OwnedFrame (page i)), s')" "bitmap_inv s'"
    "free_list s' = is" "same_config s s'"
    "\<And>j. bitmap_bit (bitmap (fst s')) j \<longleftrightarrow> j = i \<or> bitmap_bit (bitmap (fst s)) j"
    using pop_free_page [OF assms] by blast
  have "i \<notin> set is" "set (i # is) \<subseteq> {..< unat (total (fst s))}"
    using inv fl free_list_total [OF inv] by (auto simp: bitmap_inv_def list_ok_def)
  then have "page i \<notin> page ` set is"
    using inj_on_page [OF inv] by (auto dest: inj_onD)
  then have "bitmap_avail s' = bitmap_avail s - {page i}"
    using s'(3) fl by (auto simp: bitmap_avail_def)
  moreover have "bitmap_taken s' = insert (page i) (bitmap_taken s)"
    using s'(5) by (auto simp: bitmap_taken_def)
  ultimately show ?thesis
    using s' by (auto simp: bitmap_allocate_def)
qed

lemma bitmap_deallocate_page:
  assumes inv: "bitmap_inv s" and b: "bitmap_bit (bitmap (fst s)) i"
  shows "\<exists>s'. bitmap_deallocate (page i) s = Inr s' \<and> bitmap_inv s' \<and>
    free_list s' = i # free_list s \<and> bitmap_avail s' = insert (page i) (bitmap_avail s) \<and>
    bitmap_taken s' = bitmap_taken s - {page i} \<and> same_config s s' \<and>
    \<not> bitmap_bit (bitmap (fst s')) i"
proof -
  have i: "i < unat (total (fst s))" "i \<notin> set (free_list s)"
    using bitmap_bit_total [OF assms] free_list_bit [OF inv] b by auto
  then obtain s' where s': "free_frame (page i) s = Inr s'" "bitmap_inv s'"
    "free_list s' = i # free_list s" "same_config s s'"
    "\<And>j. bitmap_bit (bitmap (fst s')) j \<longleftrightarrow> j \<noteq> i \<and> bitmap_bit (bitmap (fst s)) j"
    using free_frame_page [OF inv] by blast
  have "is_allocated (fst s) (page i)"
    using is_allocated_bit [OF total_limit [OF inv i(1)]] b by simp
  then have "bitmap_deallocate (page i) s = Inr s'"
    using s'(1) by (simp add: bitmap_deallocate_def)
  moreover have "bitmap_taken s' = bitmap_taken s - {page i}"
    using s'(5) i(1) inj_on_page [OF inv] bitmap_bit_total [OF inv]
    by (auto simp: bitmap_taken_def dest: inj_onD)
  ultimately show ?thesis
    using s' by (auto simp: bitmap_avail_def)
qed

lemma bitmap_deallocate_refused:
  assumes inv: "bitmap_inv s" and f: "frame_ok PAGE_SIZE f" "f \<notin> bitmap_taken s"
  shows "\<exists>msg. bitmap_deallocate f s = Inl (Panic msg)"
proof -
  obtain i where i: "f = page i" "i * 4096 < phys_limit"
    using frame_ok_at [OF f(1)] by (metis unat_PAGE_SIZE)
  then have "\<not> bitmap_bit (bitmap (fst s)) i"
    using f(2) page_mem_taken [OF inv] by simp
  then have al: "is_allocated (fst s) f \<longleftrightarrow> 8 * length (bitmap (fst s)) \<le> i"
    by (simp add: i is_allocated_bit)
  show ?thesis
  proof (cases "8 * length (bitmap (fst s)) \<le> i")
    case True
    then have "\<not> i div 8 < length (bitmap (fst s))"
      by (simp add: div_less_iff_less_mult mult.commute)
    with al True show ?thesis
      by (cases s) (simp add: bitmap_deallocate_def free_frame_def mark_free_def i
          frame_index_page index_split)
  next
    case False
    with al show ?thesis
      by (simp add: bitmap_deallocate_def)
  qed
qed

interpretation bm: frame_allocator bitmap_inv bitmap_avail bitmap_taken
  bitmap_allocate bitmap_deallocate bitmap_total_frames bitmap_free_frames
proof
  fix s :: bitmap_state and f
  assume inv: "bitmap_inv s"
  let ?n = "unat (total (fst s))"
  have sub: "set (free_list s) \<subseteq> {..< ?n}" "{i. bitmap_bit (bitmap (fst s)) i} \<subseteq> {..< ?n}"
    using free_list_total [OF inv] bitmap_bit_total [OF inv] by auto
  have un: "bitmap_avail s \<union> bitmap_taken s =
      page ` (set (free_list s) \<union> {i. bitmap_bit (bitmap (fst s)) i})"
    by (auto simp: bitmap_avail_def bitmap_taken_def)
  show "finite (bitmap_avail s \<union> bitmap_taken s)"
    unfolding un using sub by (meson Un_least finite_imageI finite_lessThan finite_subset)
  have "card (bitmap_avail s \<union> bitmap_taken s) \<le> card (page ` {..< ?n})"
    unfolding un using sub by (intro card_mono) auto
  also have "\<dots> \<le> ?n"
    using card_image_le [of "{..< ?n}" page] by simp
  finally show "card (bitmap_avail s \<union> bitmap_taken s) \<le> unat (bitmap_total_frames s)"
    by (simp add: bitmap_total_frames_def)
  show "bitmap_avail s \<inter> bitmap_taken s = {}"
    using inv page_mem_taken [OF inv] free_list_bit [OF inv] free_list_total [OF inv]
      total_limit [OF inv]
    by (auto simp: bitmap_avail_def)
  have "card (bitmap_avail s) = card (set (free_list s))"
    unfolding bitmap_avail_def using sub(1) inj_on_page [OF inv] card_image inj_on_subset by blast
  then show "unat (bitmap_free_frames s) = card (bitmap_avail s)"
    using inv by (auto simp: bitmap_free_frames_def bitmap_inv_def list_ok_def distinct_card)
  show "bitmap_avail s = {} \<Longrightarrow> bitmap_allocate s = Inr (None, s)"
    using pop_free_empty [OF inv] by (simp add: bitmap_avail_def bitmap_allocate_def)
  show "\<exists>f s'. bitmap_allocate s = Inr (Some (OwnedFrame f), s') \<and> bitmap_inv s' \<and>
      f \<in> bitmap_avail s \<and> bitmap_avail s' = bitmap_avail s - {f} \<and>
      bitmap_taken s' = insert f (bitmap_taken s) \<and> bitmap_total_frames s' = bitmap_total_frames s"
    if ne: "bitmap_avail s \<noteq> {}"
  proof -
    obtain i "is" where "free_list s = i # is"
      using ne by (cases "free_list s") (auto simp: bitmap_avail_def)
    from bitmap_allocate_cons [OF inv this] this show ?thesis
      by (auto simp: same_config_def bitmap_total_frames_def bitmap_avail_def)
  qed
  show "\<exists>s'. bitmap_deallocate f s = Inr s' \<and> bitmap_inv s' \<and>
      bitmap_avail s' = insert f (bitmap_avail s) \<and> bitmap_taken s' = bitmap_taken s - {f} \<and>
      bitmap_total_frames s' = bitmap_total_frames s"
    if "f \<in> bitmap_taken s"
    using that bitmap_deallocate_page [OF inv]
    by (fastforce simp: bitmap_taken_def same_config_def bitmap_total_frames_def)
  show "\<exists>msg. bitmap_deallocate f s = Inl (Panic msg)"
    if "f \<notin> bitmap_taken s" "frame_ok PAGE_SIZE f"
    using bitmap_deallocate_refused [OF inv] that by blast
qed

section \<open>Adding a region\<close>

definition outside :: "nat set \<Rightarrow> usize \<Rightarrow> mem \<Rightarrow> mem \<Rightarrow> bool" where
  "outside A h m m' \<longleftrightarrow> (\<forall>a. (\<forall>i \<in> A. a \<noteq> of_nat (i * 4096) + h) \<longrightarrow> m' a = m a)"

lemma add_region_loop_pages:
  assumes "bitmap_inv s" and "i \<le> j" and "j \<le> unat (total (fst s))" and "j * 4096 < phys_limit"
    and "set (free_list s) \<inter> {i ..< j} = {}"
  shows "\<exists>s'. add_region_loop (page i) (page j) s = Inr s' \<and> bitmap_inv s' \<and>
    free_list s' = rev [i ..< j] @ free_list s \<and> same_config s s' \<and>
    (\<forall>k. bitmap_bit (bitmap (fst s')) k \<longleftrightarrow> k \<notin> {i ..< j} \<and> bitmap_bit (bitmap (fst s)) k) \<and>
    outside {i ..< j} (hhdm_offset (fst s)) (snd s) (snd s')"
  using assms
proof (induction "j - i" arbitrary: i s)
  case 0
  then show ?case
    by (simp add: outside_def)
next
  case (Suc n)
  then have i: "i < j" "i * 4096 < phys_limit" "i < unat (total (fst s))" "i \<notin> set (free_list s)"
    by auto
  obtain t where t: "free_frame (page i) s = Inr t" "bitmap_inv t"
    "free_list t = i # free_list s" "same_config s t"
    "\<And>k. bitmap_bit (bitmap (fst t)) k \<longleftrightarrow> k \<noteq> i \<and> bitmap_bit (bitmap (fst s)) k"
    "outside {i} (hhdm_offset (fst s)) (snd s) (snd t)"
    using free_frame_page [OF Suc.prems(1) i(3,4)] by (auto simp: outside_def simp del: of_nat_mult)
  have "n = j - Suc i" "Suc i \<le> j" "j \<le> unat (total (fst t))" "set (free_list t) \<inter> {Suc i ..< j} = {}"
    using Suc.hyps(2) Suc.prems t(3,4) i by (auto simp: same_config_def)
  from Suc.hyps(1) [OF this(1) t(2) this(2,3) Suc.prems(4) this(4)]
  obtain u where u: "add_region_loop (page (Suc i)) (page j) t = Inr u" "bitmap_inv u"
    "free_list u = rev [Suc i ..< j] @ free_list t" "same_config t u"
    "\<And>k. bitmap_bit (bitmap (fst u)) k \<longleftrightarrow> k \<notin> {Suc i ..< j} \<and> bitmap_bit (bitmap (fst t)) k"
    "outside {Suc i ..< j} (hhdm_offset (fst t)) (snd t) (snd u)"
    by blast
  have "page i < page j"
    using i Suc.prems(4) by (simp add: frame_less_nat)
  moreover have "uadd (frame_index PAGE_SIZE (page i)) 1 = Inr (of_nat (Suc i))"
    "unat (of_nat (Suc i) :: usize) = Suc i"
    using i(1) Suc.prems(4) by (simp_all add: frame_index_page [OF i(2)] uadd_Inr del: of_nat_Suc)
  then have "uadd (frame_index PAGE_SIZE (page i)) 1 = Inr (of_nat (Suc i))"
    "frame_from_index PAGE_SIZE (of_nat (Suc i)) = Some (page (Suc i))"
    using i(1) Suc.prems(4) by (simp_all add: frame_from_index_eq del: of_nat_Suc)
  ultimately have "add_region_loop (page i) (page j) s = Inr u"
    using t(1) u(1) by (subst add_region_loop.simps) (simp del: of_nat_Suc add_region_loop.simps)
  moreover have "{i ..< j} = insert i {Suc i ..< j}" "[i ..< j] = i # [Suc i ..< j]"
    using i(1) by (auto simp: upt_rec)
  ultimately show ?case
    using t u same_config_trans [OF t(4) u(4)]
    by (auto simp: outside_def same_config_def simp del: of_nat_mult)
qed

lemma frame_containing_page:
  assumes "unat a < phys_limit"
  shows "frame_containing PAGE_SIZE (PhysAddr a) = Inr (page (unat a div 4096))"
proof -
  have "unat a div 4096 * 4096 < phys_limit"
    using assms div_times_less_eq_dividend le_less_trans by blast
  then have "PhysFrame (PhysAddr (a AND NOT (PAGE_SIZE - 1))) = page (unat a div 4096)"
    unfolding frame_eq_nat by (simp add: unat_and_not_low minus_mod_eq_div_mult)
  then show ?thesis
    by (simp add: frame_containing_eq)
qed

lemma phys_checked_add_eq:
  "phys_checked_add (PhysAddr a) n =
     (if unat a + unat n < phys_limit then Some (PhysAddr (a + n)) else None)"
proof (cases "checked_add a n")
  case None
  then have "2 ^ 64 \<le> unat a + unat n"
    by (simp add: unat_simps)
  with None phys_limit_bounds(2) show ?thesis
    by (simp add: phys_checked_add_def)
next
  case (Some v)
  then have "unat v = unat a + unat n" "v = a + n"
    unfolding checked_add_Some using unat_bound [of v]
    by (simp_all add: word_eq_unat unat_plus_if')
  with Some show ?thesis
    by (simp add: phys_checked_add_def phys_new_def le_phys_max)
qed

lemma add_region_pages:
  assumes inv: "bitmap_inv s"
    and up: "round_up (unat base) 4096 < phys_limit" and fits: "unat base + unat len < phys_limit"
    and i: "i = round_up (unat base) 4096 div 4096" and j: "j = (unat base + unat len) div 4096"
    and tot: "j \<le> unat (total (fst s))"
    and new: "set (free_list s) \<inter> {i ..< j} = {}"
  shows "\<exists>s'. add_region (PhysAddr base) len s = Inr s' \<and> bitmap_inv s' \<and>
    free_list s' = rev [i ..< j] @ free_list s \<and> same_config s s' \<and>
    (\<forall>k. bitmap_bit (bitmap (fst s')) k \<longleftrightarrow> k \<notin> {i ..< j} \<and> bitmap_bit (bitmap (fst s)) k) \<and>
    outside {i ..< j} (hhdm_offset (fst s)) (snd s) (snd s')"
proof -
  have al: "phys_align_up (PhysAddr base) PAGE_SIZE =
      Inr (Some (PhysAddr (of_nat (round_up (unat base) 4096))))"
    using up by (simp add: phys_align_up_cases)
  have st: "frame_containing PAGE_SIZE (PhysAddr (of_nat (round_up (unat base) 4096))) = Inr (page i)"
    using frame_containing_page [of "of_nat (round_up (unat base) 4096)"] up i by simp
  have en: "unat (base + len) = unat base + unat len"
    using fits phys_limit_bounds(2) by (simp add: unat_plus_if')
  have "unat ((base + len) AND NOT (PAGE_SIZE - 1)) = j * 4096"
    by (simp add: unat_and_not_low en j minus_mod_eq_div_mult)
  moreover have lim: "j * 4096 < phys_limit"
    using fits div_times_less_eq_dividend [of "unat base + unat len" 4096] by (simp add: j)
  ultimately have de: "frame_containing PAGE_SIZE
      (PhysAddr ((base + len) AND NOT (PAGE_SIZE - 1))) = Inr (page j)"
    using frame_containing_page [of "(base + len) AND NOT (PAGE_SIZE - 1)"] by simp
  have "i * 4096 < phys_limit"
    using up div_times_less_eq_dividend [of "round_up (unat base) 4096" 4096] by (simp add: i)
  then have le: "page j \<le> page i \<longleftrightarrow> j \<le> i"
    using lim by (simp add: frame_less_eq_nat)
  have run: "add_region (PhysAddr base) len s =
      (if j \<le> i then Inr s else add_region_loop (page i) (page j) s)"
    by (simp add: add_region_def al st phys_checked_add_eq fits phys_align_down_eq de le
        del: add_region_loop.simps)
  show ?thesis
  proof (cases "j \<le> i")
    case True
    then show ?thesis
      using inv by (simp add: run outside_def)
  next
    case False
    then show ?thesis
      using add_region_loop_pages [OF inv _ tot lim new] by (simp add: run del: add_region_loop.simps)
  qed
qed

text \<open>A small allocator: eight frames, of which frame 1 is free (\<open>w = 0\<close>) or owned (\<open>w = 2\<close>).\<close>

definition small_state :: "u8 \<Rightarrow> bitmap_state" where
  "small_state w = (\<lparr>bitmap = [w], free_list_head = (if w = 0 then 4096 else FREE_LIST_EMPTY),
     hhdm_offset = 65536, total = 8, free = (if w = 0 then 1 else 0)\<rparr>,
     (\<lambda>a. FREE_LIST_EMPTY))"

lemma bitmap_bit_small: "bitmap_bit [w] i \<longleftrightarrow> i < 8 \<and> bit w i"
  by (auto simp: bitmap_bit_def)

lemma small_state_inv:
  "bitmap_inv (small_state 0)" "free_list (small_state 0) = [1]" "bitmap_taken (small_state 0) = {}"
  "bitmap_inv (small_state 2)" "free_list (small_state 2) = []" "page 1 \<in> bitmap_taken (small_state 2)"
proof -
  show fl: "free_list (small_state 0) = [1]" "free_list (small_state 2) = []"
    by (simp_all add: free_list_def small_state_def)
  show "bitmap_taken (small_state 0) = {}"
    by (simp add: bitmap_taken_def small_state_def bitmap_bit_small)
  have "bitmap_bit [2] 1"
    by (simp add: bitmap_bit_small bit_2_iff)
  then show "page 1 \<in> bitmap_taken (small_state 2)"
    by (auto simp: bitmap_taken_def small_state_def)
  have lay: "layout_ok (fst (small_state 0))" "layout_ok (fst (small_state 2))"
    by (simp_all add: layout_ok_def small_state_def phys_limit_def)
  have bits: "bits_ok (fst (small_state 0))" "bits_ok (fst (small_state 2))"
    by (simp_all add: bits_ok_def small_state_def)
  have "list_ok (small_state 0) [1]" "list_ok (small_state 2) []"
    by (simp_all add: list_ok_def small_state_def bitmap_bit_small)
  with lay bits fl show "bitmap_inv (small_state 0)" "bitmap_inv (small_state 2)"
    by (simp_all add: bitmap_inv_def)
qed

text \<open>
  C5. For a client that starts with no frames, any sequence of allocations and releases
  of its own handles runs without a panic. At every point the handles are distinct, the
  owned frames are exactly those the bitmap marks, no owned frame is on the free list,
  and no frame is lost: the free counter plus the number of handles is constant.
\<close>

theorem bitmap_ownership:
  assumes "bitmap_inv s" and "bitmap_taken s = {}"
  shows "\<exists>hs s'. client_run bitmap_allocate bitmap_deallocate qs ([], s) = Inr (hs, s') \<and>
    bitmap_inv s' \<and> distinct hs \<and> owned_inner ` set hs = bitmap_taken s' \<and>
    bitmap_taken s' \<inter> bitmap_avail s' = {} \<and>
    bitmap_avail s' \<union> bitmap_taken s' = bitmap_avail s \<and>
    unat (bitmap_free_frames s') + length hs = unat (bitmap_free_frames s)"
proof -
  have "bm.owns ([], s)"
    using assms by (simp add: bm.owns_def)
  then obtain hs s' where *: "client_run bitmap_allocate bitmap_deallocate qs ([], s) = Inr (hs, s')"
    "bm.owns (hs, s')" "bitmap_avail s' \<union> bitmap_taken s' = bitmap_avail s"
    using bm.owns_run [of "([], s)" qs] assms(2) by auto
  then show ?thesis
    using bm.owns_count [OF *(2)] bm.disjoint_frames [of s'] bm.free_frames_card [OF assms(1)]
    by (auto simp: bm.owns_def)
qed

theorem bitmap_ownership_witness:
  "\<exists>hs s'. client_run bitmap_allocate bitmap_deallocate [Take, Take, Release 0, Take] ([], small_state 0)
       = Inr (hs, s') \<and> distinct hs \<and> owned_inner ` set hs = bitmap_taken s' \<and>
     unat (bitmap_free_frames s') + length hs = 1"
proof -
  have "unat (bitmap_free_frames (small_state 0)) = 1"
    by (simp add: bitmap_free_frames_def small_state_def)
  with bitmap_ownership [OF small_state_inv(1,3), of "[Take, Take, Release 0, Take]"]
  show ?thesis
    by auto
qed

text \<open>
  C6. A released frame is the next one handed out, and allocating it again restores the
  free list and the set of owned frames. Releasing it twice is refused.
\<close>

theorem bitmap_release_then_allocate:
  assumes "bitmap_inv s" and "f \<in> bitmap_taken s"
  shows "\<exists>s'. bitmap_deallocate f s = Inr s' \<and>
    bitmap_free_frames s' = bitmap_free_frames s + 1 \<and>
    (\<exists>msg. bitmap_deallocate f s' = Inl (Panic msg)) \<and>
    (\<exists>s''. bitmap_allocate s' = Inr (Some (OwnedFrame f), s'') \<and>
       free_list s'' = free_list s \<and> bitmap_taken s'' = bitmap_taken s)"
proof -
  obtain i where i: "f = page i" "bitmap_bit (bitmap (fst s)) i"
    using assms(2) by (auto simp: bitmap_taken_def)
  then obtain s' where s': "bitmap_deallocate f s = Inr s'" "bitmap_inv s'"
    "free_list s' = i # free_list s" "bitmap_taken s' = bitmap_taken s - {f}"
    using bitmap_deallocate_page [OF assms(1)] by blast
  have "i * 4096 < phys_limit"
    using total_limit bitmap_bit_total assms(1) i(2) by blast
  then have "\<exists>msg. bitmap_deallocate f s' = Inl (Panic msg)"
    using bitmap_deallocate_refused [OF s'(2)] s'(4) i(1) by simp
  moreover have "unat (free (fst s')) = Suc (unat (free (fst s)))"
    using s'(2,3) assms(1) by (simp add: bitmap_inv_def list_ok_def)
  then have "free (fst s') = free (fst s) + 1"
    using unat_bound [of "free (fst s')"] by (simp add: word_eq_unat unat_plus_if')
  ultimately show ?thesis
    using bitmap_allocate_cons [OF s'(2,3)] s' i(1) assms(2)
    by (auto simp: bitmap_free_frames_def insert_absorb)
qed

theorem bitmap_release_then_allocate_witness:
  "\<exists>s'. bitmap_deallocate (page 1) (small_state 2) = Inr s' \<and>
     (\<exists>msg. bitmap_deallocate (page 1) s' = Inl (Panic msg)) \<and>
     (\<exists>s''. bitmap_allocate s' = Inr (Some (OwnedFrame (page 1)), s''))"
  using bitmap_release_then_allocate [OF small_state_inv(4,6)] by blast



end
