(* ===== verification/Init.thy ===== *)
theory Init
  imports Bitmap
begin

text \<open>
  Boot-time set-up of the frame allocator and the kernel-global entry points
  (\<open>eira/src/mm/init.rs\<close>). The statics of the module are the record \<open>mm_state\<close>; the
  lock of \<open>FRAME_ALLOCATOR\<close> is explicit, since taking it while it is held spins forever.
  The boot loader's memory map is a list of entries and its code for usable memory,
  \<open>MEMMAP_USABLE\<close>, is a parameter. Log output is not modelled.
\<close>

section \<open>State\<close>

record mm_state =
  FRAME_ALLOCATOR :: "bitmap_allocator option"
  frame_lock :: bool
  HHDM_OFFSET :: usize
  ram :: mem

record memmap_entry =
  me_base :: u64
  me_length :: u64
  me_type :: u64

definition frames_lock :: "mm_state \<Rightarrow> mm_state res" where
  "frames_lock s = (if frame_lock s then Inl Deadlock else Inr (s\<lparr>frame_lock := True\<rparr>))"

definition frames_unlock :: "mm_state \<Rightarrow> mm_state" where
  "frames_unlock s = s\<lparr>frame_lock := False\<rparr>"

section \<open>Initialisation\<close>

fun usable_ends :: "u64 \<Rightarrow> memmap_entry list \<Rightarrow> usize list res" where
  "usable_ends usable [] = Inr []"
| "usable_ends usable (e # es) =
     (if me_type e = usable then
        rbind (uadd (me_base e) (me_length e)) (\<lambda>x.
        rbind (usable_ends usable es) (\<lambda>xs. Inr (x # xs)))
      else usable_ends usable es)"

fun list_max :: "usize list \<Rightarrow> usize option" where
  "list_max [] = None"
| "list_max (x # xs) = Some (fold max xs x)"

definition bitmap_size_for :: "usize \<Rightarrow> usize res" where
  "bitmap_size_for max_phys =
     rbind (uadd max_phys PAGE_SIZE) (\<lambda>t.
     rbind (usub t 1) (\<lambda>t.
     let total_frames = t div PAGE_SIZE in
     rbind (uadd total_frames 7) (\<lambda>t.
     let bitmap_bytes = t div 8 in
     rbind (uadd bitmap_bytes PAGE_SIZE) (\<lambda>t.
     rbind (usub t 1) (\<lambda>t.
     let bitmap_pages = t div PAGE_SIZE in
     umul bitmap_pages PAGE_SIZE)))))"

text \<open>The body of the loop over the usable entries: the part below the bitmap, then the part above.\<close>

definition init_below :: "usize \<Rightarrow> usize \<Rightarrow> usize \<Rightarrow> bitmap_state \<Rightarrow> bitmap_state res" where
  "init_below bitmap_phys region_base region_end s =
     (if region_base < bitmap_phys then
        rbind (usub (min bitmap_phys region_end) region_base) (\<lambda>len.
          if 0 < len then
            case phys_new region_base of
              Some base \<Rightarrow> add_region base len s
            | None \<Rightarrow> Inr s
          else Inr s)
      else Inr s)"

definition init_above :: "usize \<Rightarrow> usize \<Rightarrow> usize \<Rightarrow> bitmap_state \<Rightarrow> bitmap_state res" where
  "init_above bitmap_end region_base region_end s =
     (if bitmap_end < region_end then
        let start = max bitmap_end region_base in
        rbind (usub region_end start) (\<lambda>len.
          if 0 < len then
            case phys_new start of
              Some base \<Rightarrow> add_region base len s
            | None \<Rightarrow> Inr s
          else Inr s)
      else Inr s)"

fun init_regions :: "u64 \<Rightarrow> usize \<Rightarrow> usize \<Rightarrow> memmap_entry list \<Rightarrow> bitmap_state \<Rightarrow> bitmap_state res" where
  "init_regions usable bitmap_phys bitmap_end [] s = Inr s"
| "init_regions usable bitmap_phys bitmap_end (e # es) s =
     (if me_type e = usable then
        let region_base = me_base e in
        rbind (uadd region_base (me_length e)) (\<lambda>region_end.
        rbind (init_below bitmap_phys region_base region_end s) (\<lambda>s.
        rbind (init_above bitmap_end region_base region_end s) (\<lambda>s.
          init_regions usable bitmap_phys bitmap_end es s)))
      else init_regions usable bitmap_phys bitmap_end es s)"

definition init :: "u64 \<Rightarrow> memmap_entry list \<Rightarrow> u64 \<Rightarrow> mm_state \<Rightarrow> mm_state res" where
  "init usable entries hhdm s =
     rbind (frames_lock s) (\<lambda>s.
     rbind (require (FRAME_ALLOCATOR s = None) ''mm::init::init() called more than once'') (\<lambda>_.
     let s = s\<lparr>HHDM_OFFSET := hhdm\<rparr> in
     rbind (usable_ends usable entries) (\<lambda>ends.
     rbind (expect (list_max ends) ''memory map contains no usable entries'') (\<lambda>max_phys.
     rbind (bitmap_size_for max_phys) (\<lambda>bitmap_size.
     rbind (expect (map_option me_base
                      (List.find (\<lambda>e. me_type e = usable \<and> bitmap_size \<le> me_length e) entries))
              ''no usable region large enough for the physical memory bitmap'') (\<lambda>bitmap_phys.
     rbind (uadd bitmap_phys hhdm) (\<lambda>_.
     rbind (bitmap_new (replicate (unat bitmap_size) 0) hhdm max_phys) (\<lambda>alloc.
     rbind (uadd bitmap_phys bitmap_size) (\<lambda>bitmap_end.
     rbind (init_regions usable bitmap_phys bitmap_end entries (alloc, ram s)) (\<lambda>(alloc, m).
       Inr (frames_unlock (s\<lparr>FRAME_ALLOCATOR := Some alloc, ram := m\<rparr>))))))))))))"

section \<open>The global allocator\<close>

definition mm_allocate :: "mm_state \<Rightarrow> (owned_frame \<times> mm_state) res" where
  "mm_allocate s =
     rbind (frames_lock s) (\<lambda>s.
     rbind (expect (FRAME_ALLOCATOR s) ''frame allocator not initialised'') (\<lambda>alloc.
     rbind (bitmap_allocate (alloc, ram s)) (\<lambda>(r, alloc, m).
     rbind (expect r ''out of physical memory'') (\<lambda>frame.
       Inr (frame, frames_unlock (s\<lparr>FRAME_ALLOCATOR := Some alloc, ram := m\<rparr>))))))"

definition mm_deallocate :: "owned_frame \<Rightarrow> mm_state \<Rightarrow> mm_state res" where
  "mm_deallocate frame s =
     rbind (frames_lock s) (\<lambda>s.
     rbind (expect (FRAME_ALLOCATOR s) ''frame allocator not initialised'') (\<lambda>alloc.
     rbind (owned_free bitmap_deallocate frame (alloc, ram s)) (\<lambda>(alloc, m).
       Inr (frames_unlock (s\<lparr>FRAME_ALLOCATOR := Some alloc, ram := m\<rparr>)))))"

definition mm_free_frames :: "mm_state \<Rightarrow> usize res" where
  "mm_free_frames s =
     rbind (frames_lock s) (\<lambda>s.
     rbind (expect (FRAME_ALLOCATOR s) ''frame allocator not initialised'') (\<lambda>alloc.
       Inr (bitmap_free_frames (alloc, ram s))))"

definition mm_total_frames :: "mm_state \<Rightarrow> usize res" where
  "mm_total_frames s =
     rbind (frames_lock s) (\<lambda>s.
     rbind (expect (FRAME_ALLOCATOR s) ''frame allocator not initialised'') (\<lambda>alloc.
       Inr (bitmap_total_frames (alloc, ram s))))"

section \<open>The memory map and its pages\<close>

text \<open>
  What the boot protocol documents of the map: usable entries start and end on a page
  boundary and do not overlap. That they end below the 52-bit limit is a fact about the
  processor.
\<close>

definition entry_pages :: "memmap_entry \<Rightarrow> nat set" where
  "entry_pages e = {unat (me_base e) div 4096 ..< (unat (me_base e) + unat (me_length e)) div 4096}"

definition entry_ok :: "memmap_entry \<Rightarrow> bool" where
  "entry_ok e \<longleftrightarrow> 4096 dvd unat (me_base e) \<and> 4096 dvd unat (me_length e) \<and>
     unat (me_base e) + unat (me_length e) < phys_limit"

abbreviation usable_entries :: "u64 \<Rightarrow> memmap_entry list \<Rightarrow> memmap_entry list" where
  "usable_entries usable es \<equiv> filter (\<lambda>e. me_type e = usable) es"

definition memmap_ok :: "u64 \<Rightarrow> memmap_entry list \<Rightarrow> bool" where
  "memmap_ok usable es \<longleftrightarrow> (\<forall>e \<in> set (usable_entries usable es). entry_ok e) \<and>
     sorted_wrt (\<lambda>e f. entry_pages e \<inter> entry_pages f = {}) (usable_entries usable es)"

lemma add_region_aligned:
  assumes inv: "bitmap_inv s" and q: "q \<le> unat (total (fst s))" "q * 4096 < phys_limit"
    and base: "unat base = p * 4096" and len: "unat len = (q - p) * 4096" and "p \<le> q"
    and new: "set (free_list s) \<inter> {p ..< q} = {}"
  shows "\<exists>s'. add_region (PhysAddr base) len s = Inr s' \<and> bitmap_inv s' \<and>
    set (free_list s') = set (free_list s) \<union> {p ..< q} \<and> same_config s s' \<and>
    (\<forall>k. bitmap_bit (bitmap (fst s')) k \<longrightarrow> bitmap_bit (bitmap (fst s)) k)"
proof -
  have sum: "unat base + unat len = q * 4096"
    using assms(6) by (simp add: base len flip: distrib_right)
  have "p * 4096 < phys_limit"
    by (rule le_less_trans [OF mult_le_mono1 [OF assms(6)] q(2)])
  then have "round_up (unat base) 4096 < phys_limit" "p = round_up (unat base) 4096 div 4096"
    by (simp_all add: base)
  moreover have "unat base + unat len < phys_limit" "q = (unat base + unat len) div 4096"
    unfolding sum using q(2) by simp_all
  ultimately obtain s' where
    "add_region (PhysAddr base) len s = Inr s'" "bitmap_inv s'"
    "free_list s' = rev [p ..< q] @ free_list s" "same_config s s'"
    "\<forall>k. bitmap_bit (bitmap (fst s')) k \<longleftrightarrow> k \<notin> {p ..< q} \<and> bitmap_bit (bitmap (fst s)) k"
    using add_region_pages [OF inv _ _ _ _ q(1) new] by blast
  then show ?thesis
    by (intro exI [of _ s']) auto
qed

lemma unat_min_max: "unat (min a b) = min (unat a) (unat b)" "unat (max a b) = max (unat a) (unat b)"
  for a b :: "'a::len word"
  by (simp_all add: min_def max_def word_le_nat_alt)

lemma add_or_skip:
  assumes "bitmap_inv s" and "r = (if p < q then t else Inr s)"
    and "\<exists>s'. t = Inr s' \<and> bitmap_inv s' \<and> set (free_list s') = set (free_list s) \<union> {p ..< q} \<and>
      same_config s s' \<and> (\<forall>k. bitmap_bit (bitmap (fst s')) k \<longrightarrow> bitmap_bit (bitmap (fst s)) k)"
  shows "\<exists>s'. r = Inr s' \<and> bitmap_inv s' \<and> set (free_list s') = set (free_list s) \<union> {p ..< q} \<and>
    same_config s s' \<and> (\<forall>k. bitmap_bit (bitmap (fst s')) k \<longrightarrow> bitmap_bit (bitmap (fst s)) k)"
  using assms by (cases "p < q") auto

lemma init_below_pages:
  assumes inv: "bitmap_inv s" and q: "q \<le> unat (total (fst s))" "q * 4096 < phys_limit" "p \<le> q"
    and u: "unat rb = p * 4096" "unat re = q * 4096" "unat bp = bs * 4096"
    and new: "set (free_list s) \<inter> {p ..< min bs q} = {}"
  shows "\<exists>s'. init_below bp rb re s = Inr s' \<and> bitmap_inv s' \<and>
    set (free_list s') = set (free_list s) \<union> {p ..< min bs q} \<and> same_config s s' \<and>
    (\<forall>k. bitmap_bit (bitmap (fst s')) k \<longrightarrow> bitmap_bit (bitmap (fst s)) k)"
proof (cases "p < bs")
  case False
  then have "\<not> rb < bp"
    by (simp add: word_less_nat_alt u)
  with inv False show ?thesis
    by (simp add: init_below_def)
next
  case True
  let ?q = "min bs q"
  have "?q * 4096 \<le> q * 4096"
    by simp
  then have q': "?q \<le> unat (total (fst s))" "?q * 4096 < phys_limit" "p \<le> ?q" "rb < bp"
    using q True by (simp_all add: word_less_nat_alt u)
  have m: "unat (min bp re) = ?q * 4096"
    by (simp add: unat_min_max u min_mult_distrib_right)
  moreover have "rb \<le> min bp re"
    using m q'(3) by (simp add: word_le_nat_alt u)
  ultimately have len: "usub (min bp re) rb = Inr (min bp re - rb)"
    "unat (min bp re - rb) = (?q - p) * 4096"
    by (simp_all add: usub_def checked_sub_def unat_sub u diff_mult_distrib)
  have "p * 4096 < phys_limit"
    by (rule le_less_trans [OF mult_le_mono1 [OF q'(3)] q'(2)])
  then have "phys_new rb = Some (PhysAddr rb)"
    by (simp add: u)
  moreover have "0 < min bp re - rb \<longleftrightarrow> p < ?q"
    using len(2) by (simp add: word_less_nat_alt)
  ultimately have "init_below bp rb re s =
      (if p < ?q then add_region (PhysAddr rb) (min bp re - rb) s else Inr s)"
    using q'(4) len(1) by (simp add: init_below_def del: phys_new_Some)
  then show ?thesis
    using add_region_aligned [OF inv q'(1,2) u(1) len(2) q'(3) new]
    by (rule add_or_skip [OF inv])
qed

lemma init_above_pages:
  assumes inv: "bitmap_inv s" and q: "q \<le> unat (total (fst s))" "q * 4096 < phys_limit" "p \<le> q"
    and u: "unat rb = p * 4096" "unat re = q * 4096" "unat be' = be * 4096"
    and new: "set (free_list s) \<inter> {max be p ..< q} = {}"
  shows "\<exists>s'. init_above be' rb re s = Inr s' \<and> bitmap_inv s' \<and>
    set (free_list s') = set (free_list s) \<union> {max be p ..< q} \<and> same_config s s' \<and>
    (\<forall>k. bitmap_bit (bitmap (fst s')) k \<longrightarrow> bitmap_bit (bitmap (fst s)) k)"
proof (cases "be < q")
  case False
  then have "\<not> be' < re"
    by (simp add: word_less_nat_alt u)
  with inv False show ?thesis
    by (simp add: init_above_def)
next
  case True
  let ?p = "max be p"
  have p': "?p \<le> q" "be' < re"
    using q True by (simp_all add: word_less_nat_alt u)
  have m: "unat (max be' rb) = ?p * 4096"
    by (simp add: unat_min_max u max_mult_distrib_right)
  moreover have "max be' rb \<le> re"
    using m p'(1) by (simp add: word_le_nat_alt u)
  ultimately have len: "usub re (max be' rb) = Inr (re - max be' rb)"
    "unat (re - max be' rb) = (q - ?p) * 4096"
    by (simp_all add: usub_def checked_sub_def unat_sub u diff_mult_distrib)
  have "?p * 4096 < phys_limit"
    by (rule le_less_trans [OF mult_le_mono1 [OF p'(1)] q(2)])
  then have "phys_new (max be' rb) = Some (PhysAddr (max be' rb))"
    by (simp add: m)
  moreover have "0 < re - max be' rb \<longleftrightarrow> ?p < q"
    using len(2) by (simp add: word_less_nat_alt)
  ultimately have "init_above be' rb re s =
      (if ?p < q then add_region (PhysAddr (max be' rb)) (re - max be' rb) s else Inr s)"
    using p'(2) len(1) by (simp add: init_above_def Let_def del: phys_new_Some)
  then show ?thesis
    using add_region_aligned [OF inv q(1,2) m len(2) p'(1) new]
    by (rule add_or_skip [OF inv])
qed

lemma init_entry_pages:
  assumes inv: "bitmap_inv s" and e: "entry_ok e"
    and tot: "(unat (me_base e) + unat (me_length e)) div 4096 \<le> unat (total (fst s))"
    and new: "set (free_list s) \<inter> (entry_pages e - {bs ..< be}) = {}"
    and u: "unat bp = bs * 4096" "unat be' = be * 4096" and "bs \<le> be"
  shows "\<exists>re t s'. uadd (me_base e) (me_length e) = Inr re \<and>
    init_below bp (me_base e) re s = Inr t \<and> init_above be' (me_base e) re t = Inr s' \<and>
    bitmap_inv s' \<and> set (free_list s') = set (free_list s) \<union> (entry_pages e - {bs ..< be}) \<and>
    same_config s s' \<and> (\<forall>k. bitmap_bit (bitmap (fst s')) k \<longrightarrow> bitmap_bit (bitmap (fst s)) k)"
proof -
  define p where "p = unat (me_base e) div 4096"
  define q where "q = (unat (me_base e) + unat (me_length e)) div 4096"
  have p: "unat (me_base e) = p * 4096" and q: "unat (me_base e) + unat (me_length e) = q * 4096"
    using e by (simp_all add: entry_ok_def p_def q_def)
  have lim: "q * 4096 < phys_limit"
    using e unfolding entry_ok_def q by blast
  have le: "p \<le> q"
    unfolding p_def q_def by (simp add: div_le_mono)
  define re where "re = me_base e + me_length e"
  have re: "uadd (me_base e) (me_length e) = Inr re" "unat re = q * 4096"
    using lim q phys_limit_bounds(2) by (simp_all add: uadd_def checked_add_def re_def unat_plus_if')
  have ep: "entry_pages e = {p ..< q}"
    by (simp add: entry_pages_def p_def q_def)
  have split: "entry_pages e - {bs ..< be} = {p ..< min bs q} \<union> {max be p ..< q}"
    "{p ..< min bs q} \<inter> {max be p ..< q} = {}"
    unfolding ep using \<open>bs \<le> be\<close> le by auto
  have "set (free_list s) \<inter> {p ..< min bs q} = {}"
    using new unfolding split(1) by blast
  then obtain t where t: "init_below bp (me_base e) re s = Inr t" "bitmap_inv t"
    "set (free_list t) = set (free_list s) \<union> {p ..< min bs q}" "same_config s t"
    "\<forall>k. bitmap_bit (bitmap (fst t)) k \<longrightarrow> bitmap_bit (bitmap (fst s)) k"
    using init_below_pages [OF inv _ lim le p re(2) u(1)] tot unfolding q_def by blast
  have tott: "total (fst t) = total (fst s)"
    using t(4) by (simp add: same_config_def)
  have "set (free_list t) \<inter> {max be p ..< q} = {}"
    using new split(2) unfolding split(1) t(3) by blast
  then obtain v where v: "init_above be' (me_base e) re t = Inr v" "bitmap_inv v"
    "set (free_list v) = set (free_list t) \<union> {max be p ..< q}" "same_config t v"
    "\<forall>k. bitmap_bit (bitmap (fst v)) k \<longrightarrow> bitmap_bit (bitmap (fst t)) k"
    using init_above_pages [OF t(2) _ lim le p re(2) u(2)] tot unfolding q_def tott by blast
  have "set (free_list v) = set (free_list s) \<union> (entry_pages e - {bs ..< be})"
    using t(3) v(3) unfolding split(1) by blast
  then show ?thesis
    using re(1) t(1,5) v(1,2,5) same_config_trans [OF t(4) v(4)] by blast
qed

lemma init_regions_pages:
  assumes "bitmap_inv s"
    and "\<forall>e \<in> set (usable_entries usable es). entry_ok e \<and>
      (unat (me_base e) + unat (me_length e)) div 4096 \<le> unat (total (fst s)) \<and>
      set (free_list s) \<inter> (entry_pages e - {bs ..< be}) = {}"
    and "sorted_wrt (\<lambda>e f. entry_pages e \<inter> entry_pages f = {}) (usable_entries usable es)"
    and "unat bp = bs * 4096" and "unat be' = be * 4096" and "bs \<le> be"
  shows "\<exists>s'. init_regions usable bp be' es s = Inr s' \<and> bitmap_inv s' \<and>
    set (free_list s') = set (free_list s) \<union>
      ((\<Union>e \<in> set (usable_entries usable es). entry_pages e) - {bs ..< be}) \<and>
    same_config s s' \<and> (\<forall>k. bitmap_bit (bitmap (fst s')) k \<longrightarrow> bitmap_bit (bitmap (fst s)) k)"
  using assms
proof (induction es arbitrary: s)
  case Nil
  then show ?case
    by simp
next
  case (Cons e es)
  show ?case
  proof (cases "me_type e = usable")
    case False
    with Cons show ?thesis
      by simp
  next
    case True
    then have "entry_ok e" "(unat (me_base e) + unat (me_length e)) div 4096 \<le> unat (total (fst s))"
      "set (free_list s) \<inter> (entry_pages e - {bs ..< be}) = {}"
      using Cons.prems(2) by simp_all
    from init_entry_pages [OF Cons.prems(1) this Cons.prems(4-6)] obtain re t u where u: "uadd (me_base e) (me_length e) = Inr re"
      "init_below bp (me_base e) re s = Inr t" "init_above be' (me_base e) re t = Inr u" "bitmap_inv u"
      "set (free_list u) = set (free_list s) \<union> (entry_pages e - {bs ..< be})" "same_config s u"
      "\<forall>k. bitmap_bit (bitmap (fst u)) k \<longrightarrow> bitmap_bit (bitmap (fst s)) k"
      by blast
    have "\<forall>f \<in> set (usable_entries usable es). entry_pages e \<inter> entry_pages f = {}"
      using Cons.prems(3) True by simp
    then have "\<forall>f \<in> set (usable_entries usable es). entry_ok f \<and>
        (unat (me_base f) + unat (me_length f)) div 4096 \<le> unat (total (fst u)) \<and>
        set (free_list u) \<inter> (entry_pages f - {bs ..< be}) = {}"
      using Cons.prems(2) True u(5,6) by (auto simp: same_config_def)
    moreover have "sorted_wrt (\<lambda>e f. entry_pages e \<inter> entry_pages f = {}) (usable_entries usable es)"
      using Cons.prems(3) True by simp
    ultimately obtain v where v: "init_regions usable bp be' es u = Inr v" "bitmap_inv v"
      "set (free_list v) = set (free_list u) \<union>
        ((\<Union>e \<in> set (usable_entries usable es). entry_pages e) - {bs ..< be})"
      "same_config u v" "\<forall>k. bitmap_bit (bitmap (fst v)) k \<longrightarrow> bitmap_bit (bitmap (fst u)) k"
      using Cons.IH [OF u(4) _ _ Cons.prems(4-6)] by blast
    have "init_regions usable bp be' (e # es) s = Inr v"
      using True u(1-3) v(1) by simp
    moreover have "set (free_list v) = set (free_list s) \<union>
        ((\<Union>e \<in> set (usable_entries usable (e # es)). entry_pages e) - {bs ..< be})"
      using v(3) u(5) True by auto
    ultimately show ?thesis
      using v(2,5) u(7) same_config_trans [OF u(6) v(4)] by blast
  qed
qed

section \<open>Placing the bitmap\<close>

definition bitmap_need :: "nat \<Rightarrow> nat" where
  "bitmap_need max_phys = round_up ((max_phys div 4096 + 7) div 8) 4096"

lemma uadd_ok: "unat a + unat b < 2 ^ LENGTH('a) \<Longrightarrow> uadd a b = Inr (a + b) \<and> unat (a + b) = unat a + unat b"
  for a b :: "'a::len word"
  by (simp add: uadd_def checked_add_def unat_plus_if')

lemma ceil_pages:
  assumes "unat x < phys_limit" and "4096 dvd unat x"
  shows "\<exists>t. uadd x PAGE_SIZE = Inr t \<and> usub t 1 = Inr (t - 1) \<and> unat ((t - 1) div PAGE_SIZE) = unat x div 4096"
proof -
  have "unat x + unat PAGE_SIZE < 2 ^ 64"
    using assms(1) by (simp add: phys_limit_def)
  then have t: "uadd x PAGE_SIZE = Inr (x + PAGE_SIZE)" "unat (x + PAGE_SIZE) = unat x + 4096"
    using uadd_ok [of x PAGE_SIZE] by simp_all
  then have "unat (x + PAGE_SIZE - 1) = unat x + 4095"
    by (subst unat_minus_one) auto
  moreover have "(unat x + 4095) div 4096 = unat x div 4096"
    using assms(2) by (auto elim!: dvdE)
  ultimately have "unat ((x + PAGE_SIZE - 1) div PAGE_SIZE) = unat x div 4096"
    by (simp add: unat_div)
  moreover have "usub (x + PAGE_SIZE) 1 = Inr (x + PAGE_SIZE - 1)"
    using t(2) by (simp add: usub_def checked_sub_def word_le_nat_alt)
  ultimately show ?thesis
    using t(1) by blast
qed

lemma round_up_div: "round_up n 4096 = (n + 4095) div 4096 * 4096"
  by (simp add: round_up_def minus_mod_eq_div_mult)

lemma bitmap_need_bounds: "(n div 4096 + 7) div 8 \<le> bitmap_need n" "4096 dvd bitmap_need n"
  unfolding bitmap_need_def by (rule round_up_bounds, simp)+

lemma bitmap_size_for_eq:
  assumes "unat x < phys_limit" and "4096 dvd unat x"
  shows "\<exists>sz. bitmap_size_for x = Inr sz \<and> unat sz = bitmap_need (unat x)"
proof -
  obtain t where t: "uadd x PAGE_SIZE = Inr t" "usub t 1 = Inr (t - 1)"
    "unat ((t - 1) div PAGE_SIZE) = unat x div 4096"
    using ceil_pages [OF assms] by blast
  let ?T = "(t - 1) div PAGE_SIZE"
  have T: "unat ?T + 7 < 2 ^ 52"
    using assms(1) unfolding t(3) phys_limit_def by simp
  then have a: "uadd ?T 7 = Inr (?T + 7)" "unat ((?T + 7) div 8) = (unat ?T + 7) div 8"
    using uadd_ok [of ?T 7] by (simp_all add: unat_div)
  let ?B = "(?T + 7) div 8"
  have "unat ?B + unat PAGE_SIZE < 2 ^ 53"
    using T unfolding a(2) by simp
  then have b: "uadd ?B PAGE_SIZE = Inr (?B + PAGE_SIZE)" "unat (?B + PAGE_SIZE) = unat ?B + 4096"
    using uadd_ok [of ?B PAGE_SIZE] by simp_all
  then have b': "unat (?B + PAGE_SIZE - 1) = unat ?B + 4095"
    by (subst unat_minus_one) auto
  with b have c: "usub (?B + PAGE_SIZE) 1 = Inr (?B + PAGE_SIZE - 1)"
    "unat ((?B + PAGE_SIZE - 1) div PAGE_SIZE) = (unat ?B + 4095) div 4096"
    using b' by (simp_all add: usub_def checked_sub_def word_le_nat_alt unat_div)
  let ?P = "(?B + PAGE_SIZE - 1) div PAGE_SIZE"
  have "unat ?P * 4096 \<le> unat ?B + 4095"
    unfolding c(2) by (rule div_times_less_eq_dividend)
  then have "unat ?P * unat PAGE_SIZE < 2 ^ 64"
    using T unfolding a(2) by simp
  then have "umul ?P PAGE_SIZE = Inr (?P * PAGE_SIZE)" "unat (?P * PAGE_SIZE) = unat ?P * 4096"
    by (simp_all add: umul_def checked_mul_def unat_word_ariths)
  then show ?thesis
    using t a b c by (simp add: bitmap_size_for_def Let_def bitmap_need_def round_up_div)
qed

lemma bitmap_new_eq:
  assumes "unat x < phys_limit" and "4096 dvd unat x" and "(unat x div 4096 + 7) div 8 \<le> length bm"
  shows "\<exists>t. unat t = unat x div 4096 \<and> bitmap_new bm h x =
    Inr \<lparr>bitmap = bm, free_list_head = FREE_LIST_EMPTY, hhdm_offset = h, total = t, free = 0\<rparr>"
proof -
  obtain t where t: "uadd x PAGE_SIZE = Inr t" "usub t 1 = Inr (t - 1)"
    "unat ((t - 1) div PAGE_SIZE) = unat x div 4096"
    using ceil_pages [OF assms(1,2)] by blast
  let ?T = "(t - 1) div PAGE_SIZE"
  have "unat ?T + 7 < 2 ^ 52"
    using assms(1) unfolding t(3) phys_limit_def by simp
  then have "uadd ?T 7 = Inr (?T + 7)" "unat ((?T + 7) div 8) = (unat ?T + 7) div 8"
    using uadd_ok [of ?T 7] by (simp_all add: unat_div)
  with t assms(3) show ?thesis
    by (intro exI [of _ ?T]) (simp add: bitmap_new_def Let_def)
qed

lemma bitmap_bit_replicate [simp]: "\<not> bitmap_bit (replicate n 0) i"
  by (auto simp: bitmap_bit_def)

lemma bitmap_new_inv:
  assumes "0 < unat h" and "unat h + unat t * 4096 < 2 ^ 64"
    and "unat t * 4096 < phys_limit" and "unat t \<le> 8 * n"
  shows "bitmap_inv (\<lparr>bitmap = replicate n 0, free_list_head = FREE_LIST_EMPTY, hhdm_offset = h,
      total = t, free = 0\<rparr>, m)"
    and "free_list (\<lparr>bitmap = replicate n 0, free_list_head = FREE_LIST_EMPTY, hhdm_offset = h,
      total = t, free = 0\<rparr>, m) = []"
  using assms by (simp_all add: bitmap_inv_def layout_ok_def bits_ok_def list_ok_def free_list_def)

lemma usable_ends_eq:
  assumes "\<forall>e \<in> set (usable_entries usable es). entry_ok e"
  shows "usable_ends usable es = Inr (map (\<lambda>e. me_base e + me_length e) (usable_entries usable es))"
  using assms
proof (induction es)
  case (Cons e es)
  have "entry_ok e \<Longrightarrow> uadd (me_base e) (me_length e) = Inr (me_base e + me_length e)"
    using uadd_ok [of "me_base e" "me_length e"] phys_limit_bounds(2) by (simp add: entry_ok_def)
  with Cons show ?case
    by simp
qed simp

lemma entry_end:
  "entry_ok e \<Longrightarrow> unat (me_base e + me_length e) = unat (me_base e) + unat (me_length e)"
  using uadd_ok [of "me_base e" "me_length e"] phys_limit_bounds(2) by (simp add: entry_ok_def)

lemma list_max_mem: "list_max xs = Some x \<Longrightarrow> x \<in> set xs \<and> (\<forall>y \<in> set xs. y \<le> x)"
proof (cases xs)
  case (Cons a ys)
  assume "list_max xs = Some x"
  then have "x = Max (set xs)"
    using Cons Max.set_eq_fold [of a ys] by simp
  with Cons show ?thesis
    by (metis List.finite_set Max_ge Max_in list.distinct(1) set_empty)
qed simp

text \<open>The size of the bitmap and where it goes: inside the first usable entry that can hold it.\<close>

lemma init_placement:
  assumes ok: "memmap_ok usable es"
    and e: "e \<in> set (usable_entries usable es)"
    and need: "\<forall>f \<in> set (usable_entries usable es).
      bitmap_need (unat (me_base f) + unat (me_length f)) \<le> unat (me_length e)"
  obtains mx sz b where
    "list_max (map (\<lambda>e. me_base e + me_length e) (usable_entries usable es)) = Some mx"
    "unat mx < phys_limit" "4096 dvd unat mx"
    "\<forall>f \<in> set (usable_entries usable es). unat (me_base f) + unat (me_length f) \<le> unat mx"
    "\<exists>f \<in> set (usable_entries usable es). unat mx = unat (me_base f) + unat (me_length f)"
    "bitmap_size_for mx = Inr sz" "unat sz = bitmap_need (unat mx)"
    "List.find (\<lambda>e. me_type e = usable \<and> sz \<le> me_length e) es = Some b"
    "b \<in> set (usable_entries usable es)" "unat sz \<le> unat (me_length b)"
proof -
  let ?us = "usable_entries usable es"
  have eok: "entry_ok f" if "f \<in> set ?us" for f
    using ok that by (auto simp: memmap_ok_def)
  obtain mx where mx: "list_max (map (\<lambda>e. me_base e + me_length e) ?us) = Some mx"
    using e by (cases ?us) auto
  from list_max_mem [OF this] obtain f where f: "f \<in> set ?us" "mx = me_base f + me_length f"
    and le: "\<forall>f \<in> set ?us. me_base f + me_length f \<le> mx"
    by auto
  have mxn: "unat mx = unat (me_base f) + unat (me_length f)"
    using entry_end [OF eok [OF f(1)]] f(2) by simp
  then have mx2: "unat mx < phys_limit" "4096 dvd unat mx"
    using eok [OF f(1)] by (simp_all add: entry_ok_def)
  have ends: "\<forall>f \<in> set ?us. unat (me_base f) + unat (me_length f) \<le> unat mx"
    using le entry_end eok by (metis word_le_nat_alt)
  obtain sz where sz: "bitmap_size_for mx = Inr sz" "unat sz = bitmap_need (unat mx)"
    using bitmap_size_for_eq [OF mx2] by blast
  then have "sz \<le> me_length e"
    using need f(1) mxn by (simp add: word_le_nat_alt)
  then obtain b where b: "List.find (\<lambda>e. me_type e = usable \<and> sz \<le> me_length e) es = Some b"
    using e by (cases "List.find (\<lambda>e. me_type e = usable \<and> sz \<le> me_length e) es")
      (auto simp: find_None_iff)
  then have "b \<in> set ?us" "unat sz \<le> unat (me_length b)"
    by (auto simp: find_Some_iff word_le_nat_alt)
  with that mx mx2 ends sz b f(1) mxn show thesis
    by blast
qed

text \<open>
  C8. On a well-formed memory map with a usable entry that can hold the bitmap, \<open>init\<close>
  succeeds and releases the lock. The bitmap lies inside one usable entry, no frame is
  owned, and the frames that can be handed out are exactly the pages of the usable
  entries that are not pages of the bitmap.
\<close>

theorem init_correct:
  assumes ok: "memmap_ok usable es"
    and e: "e \<in> set (usable_entries usable es)"
    and need: "\<forall>f \<in> set (usable_entries usable es).
      bitmap_need (unat (me_base f) + unat (me_length f)) \<le> unat (me_length e)"
    and h: "0 < unat hhdm"
    and map: "\<forall>f \<in> set (usable_entries usable es).
      unat hhdm + (unat (me_base f) + unat (me_length f)) < 2 ^ 64"
    and s: "\<not> frame_lock s" "FRAME_ALLOCATOR s = None"
  shows "\<exists>s' a b. init usable es hhdm s = Inr s' \<and> \<not> frame_lock s' \<and> HHDM_OFFSET s' = hhdm \<and>
    FRAME_ALLOCATOR s' = Some a \<and> bitmap_inv (a, ram s') \<and> bitmap_taken (a, ram s') = {} \<and>
    b \<in> set (usable_entries usable es) \<and> length (bitmap a) \<le> unat (me_length b) \<and>
    set (free_list (a, ram s')) = (\<Union>f \<in> set (usable_entries usable es). entry_pages f) -
      {unat (me_base b) div 4096 ..< (unat (me_base b) + length (bitmap a)) div 4096}"
proof -
  let ?us = "usable_entries usable es"
  have eok: "entry_ok f" if "f \<in> set ?us" for f
    using ok that by (auto simp: memmap_ok_def)
  obtain mx sz b where
    mx: "list_max (map (\<lambda>e. me_base e + me_length e) ?us) = Some mx"
      "unat mx < phys_limit" "4096 dvd unat mx"
      "\<forall>f \<in> set ?us. unat (me_base f) + unat (me_length f) \<le> unat mx"
      "\<exists>f \<in> set ?us. unat mx = unat (me_base f) + unat (me_length f)"
    and sz: "bitmap_size_for mx = Inr sz" "unat sz = bitmap_need (unat mx)"
    and b: "List.find (\<lambda>e. me_type e = usable \<and> sz \<le> me_length e) es = Some b"
      "b \<in> set ?us" "unat sz \<le> unat (me_length b)"
    using init_placement [OF ok e need] by blast
  note fits = bitmap_need_bounds [of "unat mx", folded sz(2)]
  obtain t where t: "unat t = unat mx div 4096"
    "bitmap_new (replicate (unat sz) 0) hhdm mx = Inr \<lparr>bitmap = replicate (unat sz) 0,
       free_list_head = FREE_LIST_EMPTY, hhdm_offset = hhdm, total = t, free = 0\<rparr>"
    using bitmap_new_eq [OF mx(2,3), of "replicate (unat sz) 0" hhdm] fits by auto
  let ?a = "(\<lparr>bitmap = replicate (unat sz) 0, free_list_head = FREE_LIST_EMPTY,
    hhdm_offset = hhdm, total = t, free = 0\<rparr>, ram s)"
  have "unat t * 4096 < phys_limit" "unat t \<le> 8 * unat sz" "unat hhdm + unat t * 4096 < 2 ^ 64"
    using t(1) mx(2,3,5) fits(1) map by auto
  note new = bitmap_new_inv [OF h this(3,1,2), of "ram s"]
  have base: "4096 dvd unat (me_base b)" "unat (me_base b) + unat sz < phys_limit"
    using eok [OF b(2)] b(3) by (auto simp: entry_ok_def)
  have "unat (me_base b) + unat hhdm < 2 ^ 64"
    using map b(2) by fastforce
  moreover have "unat (me_base b) + unat sz < 2 ^ 64"
    using base(2) phys_limit_bounds(2) by linarith
  ultimately have add: "uadd (me_base b) hhdm = Inr (me_base b + hhdm)"
    "uadd (me_base b) sz = Inr (me_base b + sz)"
    "unat (me_base b + sz) = unat (me_base b) + unat sz"
    using uadd_ok [of "me_base b" hhdm] uadd_ok [of "me_base b" sz] by simp_all
  let ?bs = "unat (me_base b) div 4096" and ?be = "(unat (me_base b) + unat sz) div 4096"
  have fr: "\<forall>f \<in> set ?us. entry_ok f \<and>
      (unat (me_base f) + unat (me_length f)) div 4096 \<le> unat (total (fst ?a)) \<and>
      set (free_list ?a) \<inter> (entry_pages f - {?bs ..< ?be}) = {}"
    using eok mx(4) new(2) by (simp add: t(1) div_le_mono)
  have pg: "unat (me_base b) = ?bs * 4096" "unat (me_base b + sz) = ?be * 4096" "?bs \<le> ?be"
    using base(1) fits(2) by (simp_all add: add(3) div_le_mono)
  have dj: "sorted_wrt (\<lambda>e f. entry_pages e \<inter> entry_pages f = {}) ?us"
    using ok by (simp add: memmap_ok_def)
  from init_regions_pages [OF new(1) fr dj pg] obtain r where r: "init_regions usable (me_base b) (me_base b + sz) es ?a = Inr r"
    "bitmap_inv r" "set (free_list r) = (\<Union>f \<in> set ?us. entry_pages f) - {?bs ..< ?be}"
    "same_config ?a r" "\<forall>k. bitmap_bit (bitmap (fst r)) k \<longrightarrow> bitmap_bit (bitmap (fst ?a)) k"
    unfolding new(2) list.set(1) Un_empty_left by blast
  obtain a m where am: "r = (a, m)"
    by (cases r)
  let ?s' = "s\<lparr>frame_lock := False, HHDM_OFFSET := hhdm, FRAME_ALLOCATOR := Some a, ram := m\<rparr>"
  have "init usable es hhdm s = Inr ?s'"
    using s mx(1) sz(1) b(1) t(2) add r(1) eok
    by (simp add: init_def frames_lock_def frames_unlock_def usable_ends_eq Let_def am)
  moreover have "bitmap_taken (a, m) = {}"
    using r(5) by (simp add: am bitmap_taken_def)
  moreover have "length (bitmap a) = unat sz"
    using r(4) by (simp add: am same_config_def)
  ultimately show ?thesis
    using r(2,3) am b(2,3) by (intro exI [of _ ?s'] exI [of _ a] exI [of _ b]) simp
qed

definition small_map :: "memmap_entry list" where
  "small_map = [\<lparr>me_base = 0, me_length = 65536, me_type = 1\<rparr>,
                \<lparr>me_base = 65536, me_length = 65536, me_type = 0\<rparr>]"

theorem init_correct_witness:
  "\<exists>s' a b. init 0 small_map 0xffff800000000000
       \<lparr>FRAME_ALLOCATOR = None, frame_lock = False, HHDM_OFFSET = 0, ram = (\<lambda>_. 0)\<rparr> = Inr s' \<and>
     FRAME_ALLOCATOR s' = Some a \<and> bitmap_inv (a, ram s') \<and> b \<in> set small_map"
  using init_correct [of 0 small_map "\<lparr>me_base = 65536, me_length = 65536, me_type = 0\<rparr>"
      "0xffff800000000000"
      "\<lparr>FRAME_ALLOCATOR = None, frame_lock = False, HHDM_OFFSET = 0, ram = (\<lambda>_. 0)\<rparr>"]
  by (fastforce simp: small_map_def memmap_ok_def entry_ok_def phys_limit_def bitmap_need_def
      round_up_def)

section \<open>The global allocator is the bitmap allocator\<close>

definition mm_ok :: "mm_state \<Rightarrow> bool" where
  "mm_ok s \<longleftrightarrow> \<not> frame_lock s \<and>
     (case FRAME_ALLOCATOR s of None \<Rightarrow> False | Some a \<Rightarrow> bitmap_inv (a, ram s))"

definition mm_frames :: "mm_state \<Rightarrow> bitmap_state" where
  "mm_frames s = (the (FRAME_ALLOCATOR s), ram s)"

lemma mm_ok_frames:
  assumes "mm_ok s"
  shows "\<not> frame_lock s" and "FRAME_ALLOCATOR s = Some (fst (mm_frames s))"
    and "ram s = snd (mm_frames s)" and "bitmap_inv (mm_frames s)"
  using assms by (auto simp: mm_ok_def mm_frames_def split: option.splits)

definition mm_put :: "bitmap_state \<Rightarrow> mm_state \<Rightarrow> mm_state" where
  "mm_put r s = s\<lparr>FRAME_ALLOCATOR := Some (fst r), ram := snd r, frame_lock := False\<rparr>"

lemma mm_put_simps [simp]:
  "mm_ok (mm_put r s) \<longleftrightarrow> bitmap_inv r" "mm_frames (mm_put r s) = r"
  "HHDM_OFFSET (mm_put r s) = HHDM_OFFSET s" "ram (mm_put r s) = snd r"
  by (simp_all add: mm_put_def mm_ok_def mm_frames_def)

lemma mm_allocate_eq:
  assumes "mm_ok s"
  shows "mm_allocate s = rbind (bitmap_allocate (mm_frames s)) (\<lambda>(r, t).
    rbind (expect r ''out of physical memory'') (\<lambda>f. Inr (f, mm_put t s)))"
  using mm_ok_frames [OF assms]
  by (simp add: mm_allocate_def frames_lock_def frames_unlock_def mm_put_def split_def)

lemma mm_deallocate_eq:
  assumes "mm_ok s"
  shows "mm_deallocate f s =
    rbind (bitmap_deallocate (owned_inner f) (mm_frames s)) (\<lambda>t. Inr (mm_put t s))"
  using mm_ok_frames [OF assms]
  by (simp add: mm_deallocate_def owned_free_def frames_lock_def frames_unlock_def mm_put_def split_def)

text \<open>
  C9. After initialisation, \<open>allocate\<close> panics exactly when no frame is free. Otherwise it
  returns a free frame, leaves the lock released, and the matching \<open>deallocate\<close> succeeds
  and restores the free list and the set of owned frames.
\<close>

theorem mm_allocate_correct:
  assumes "mm_ok s"
  shows "if bitmap_avail (mm_frames s) = {}
    then mm_allocate s = Inl (Panic ''out of physical memory'')
    else \<exists>f s' s''. mm_allocate s = Inr (OwnedFrame f, s') \<and> mm_ok s' \<and>
      f \<in> bitmap_avail (mm_frames s) \<and> f \<notin> bitmap_avail (mm_frames s') \<and>
      mm_deallocate (OwnedFrame f) s' = Inr s'' \<and> mm_ok s'' \<and>
      free_list (mm_frames s'') = free_list (mm_frames s) \<and>
      bitmap_taken (mm_frames s'') = bitmap_taken (mm_frames s)"
proof -
  note inv = mm_ok_frames(4) [OF assms]
  show ?thesis
  proof (cases "free_list (mm_frames s)")
    case Nil
    then have "bitmap_avail (mm_frames s) = {}"
      by (simp add: bitmap_avail_def)
    then show ?thesis
      by (simp add: mm_allocate_eq [OF assms] bm.allocate_none [OF inv])
  next
    case (Cons i "is")
    obtain t where t: "bitmap_allocate (mm_frames s) = Inr (Some (OwnedFrame (page i)), t)" "bitmap_inv t"
      "free_list t = is" "bitmap_avail t = bitmap_avail (mm_frames s) - {page i}"
      "bitmap_taken t = insert (page i) (bitmap_taken (mm_frames s))"
      using bitmap_allocate_cons [OF inv Cons] by blast
    have "bitmap_bit (bitmap (fst t)) i"
      using page_mem_taken [OF t(2)] t(5) total_limit [OF inv] free_list_total [OF inv] Cons by auto
    then obtain u where u: "bitmap_deallocate (page i) t = Inr u" "bitmap_inv u"
      "free_list u = i # free_list t" "bitmap_taken u = bitmap_taken t - {page i}"
      using bitmap_deallocate_page [OF t(2)] by blast
    have "page i \<in> bitmap_avail (mm_frames s)"
      using Cons by (simp add: bitmap_avail_def)
    moreover from this have "page i \<notin> bitmap_taken (mm_frames s)"
      using bm.disjoint_frames [OF inv] by blast
    moreover have "mm_allocate s = Inr (OwnedFrame (page i), mm_put t s)"
      by (simp add: mm_allocate_eq [OF assms] t(1))
    moreover have "mm_deallocate (OwnedFrame (page i)) (mm_put t s) = Inr (mm_put u (mm_put t s))"
      using t(2) u(1) by (simp add: mm_deallocate_eq)
    ultimately show ?thesis
      using t u Cons by auto
  qed
qed

theorem mm_allocate_correct_witness:
  "\<exists>f s'. mm_allocate (mm_put (small_state 0)
      \<lparr>FRAME_ALLOCATOR = None, frame_lock = False, HHDM_OFFSET = 0, ram = (\<lambda>_. 0)\<rparr>) =
    Inr (OwnedFrame f, s') \<and> mm_ok s'"
  using mm_allocate_correct [of "mm_put (small_state 0)
      \<lparr>FRAME_ALLOCATOR = None, frame_lock = False, HHDM_OFFSET = 0, ram = (\<lambda>_. 0)\<rparr>"]
  by (auto simp: small_state_inv bitmap_avail_def)

end
