(* ===== verification/Intervals.thy ===== *)
theory Intervals
  imports Main
begin

text \<open>
  Sorted lists of disjoint, non-adjacent address intervals, the shape that both the region
  allocator and the kernel heap keep their free memory in, and the contract of an allocator
  of address ranges that clients rely on. An interval is a pair of its first address and
  the address after its last.
\<close>

section \<open>Interval lists\<close>

type_synonym ivl = "nat \<times> nat"

definition ivl_span :: "ivl \<Rightarrow> nat set" where
  "ivl_span i = {fst i ..< snd i}"

definition ivl_cover :: "ivl list \<Rightarrow> nat set" where
  "ivl_cover xs = (\<Union>i \<in> set xs. ivl_span i)"

definition ivl_normal :: "ivl list \<Rightarrow> bool" where
  "ivl_normal xs \<longleftrightarrow> (\<forall>i \<in> set xs. fst i < snd i) \<and> sorted_wrt (\<lambda>i j. snd i < fst j) xs"

lemma ivl_cover_simps [simp]:
  "ivl_cover [] = {}"
  "ivl_cover (i # xs) = ivl_span i \<union> ivl_cover xs"
  "ivl_cover (xs @ ys) = ivl_cover xs \<union> ivl_cover ys"
  by (auto simp: ivl_cover_def)

lemma ivl_normal_simps [simp]:
  "ivl_normal []"
  "ivl_normal (i # xs) \<longleftrightarrow> fst i < snd i \<and> ivl_normal xs \<and> (\<forall>j \<in> set xs. snd i < fst j)"
  "ivl_normal (xs @ ys) \<longleftrightarrow>
     ivl_normal xs \<and> ivl_normal ys \<and> (\<forall>i \<in> set xs. \<forall>j \<in> set ys. snd i < fst j)"
  by (auto simp: ivl_normal_def sorted_wrt_append)

lemma finite_ivl_cover [simp]: "finite (ivl_cover xs)"
  by (simp add: ivl_cover_def ivl_span_def)

lemma ivl_span_iff [simp]: "a \<in> ivl_span i \<longleftrightarrow> fst i \<le> a \<and> a < snd i"
  by (simp add: ivl_span_def)

lemma ivl_cover_above:
  assumes "ivl_normal (i # xs)" and "a \<in> ivl_cover xs"
  shows "snd i < a"
  using assms by (fastforce simp: ivl_cover_def)

text \<open>A run of covered addresses lies inside one interval.\<close>

lemma ivl_cover_run:
  assumes "ivl_normal xs" and "0 < n" and "{a ..< a + n} \<subseteq> ivl_cover xs"
  shows "\<exists>i \<in> set xs. {a ..< a + n} \<subseteq> ivl_span i"
  using assms
proof (induction xs)
  case (Cons i xs)
  note above = ivl_cover_above [OF Cons.prems(1)]
  show ?case
  proof (cases "a < snd i")
    case True
    then have lo: "fst i \<le> a"
      using Cons.prems(2,3) above [of a] by (auto simp: subset_iff)
    have "\<not> snd i < a + n"
    proof
      assume "snd i < a + n"
      with True have "snd i \<in> {a ..< a + n}"
        by simp
      then have "snd i \<in> ivl_cover (i # xs)"
        using Cons.prems(3) by blast
      then show False
        using above [of "snd i"] by simp
    qed
    with lo show ?thesis
      by auto
  next
    case False
    then have "{a ..< a + n} \<subseteq> ivl_cover xs"
      using Cons.prems(3) by auto
    then show ?thesis
      using Cons by auto
  qed
qed auto

text \<open>A normal list is determined by the addresses it covers.\<close>

lemma ivl_normal_unique:
  assumes "ivl_normal xs" and "ivl_normal ys" and "ivl_cover xs = ivl_cover ys"
  shows "xs = ys"
  using assms
proof (induction xs arbitrary: ys)
  case Nil
  then show ?case
    by (cases ys) (auto simp: ivl_span_def)
next
  case (Cons i xs)
  have "fst i \<in> ivl_cover ys"
    using Cons.prems(1,3) by auto
  then obtain j ys' where ys: "ys = j # ys'"
    by (cases ys) auto
  note ar = ivl_cover_above [OF Cons.prems(1)] and as = ivl_cover_above [OF Cons.prems(2) [unfolded ys]]
  have eq: "a \<in> ivl_span i \<or> a \<in> ivl_cover xs \<longleftrightarrow> a \<in> ivl_span j \<or> a \<in> ivl_cover ys'" for a
    using Cons.prems(3) ys by auto
  have pos: "fst i < snd i" "fst j < snd j"
    using Cons.prems(1,2) ys by auto
  have lo: "fst i = fst j"
    using eq [of "fst i"] eq [of "fst j"] ar [of "fst j"] as [of "fst i"] pos by auto
  have "snd i \<le> snd j"
    using eq [of "snd j"] as [of "snd j"] lo pos by auto
  moreover have "snd j \<le> snd i"
    using eq [of "snd i"] ar [of "snd i"] lo pos by auto
  ultimately have ij: "i = j"
    using lo by (auto intro: prod_eqI)
  have "a \<in> ivl_cover xs \<longleftrightarrow> a \<in> ivl_cover ys'" for a
    using eq [of a] ar [of a] as [of a] by (auto simp: ij)
  then have "ivl_cover xs = ivl_cover ys'"
    by blast
  then show ?case
    using Cons ys ij by simp
qed

lemma card_ivl_cover:
  assumes "ivl_normal xs"
  shows "card (ivl_cover xs) = (\<Sum>i \<leftarrow> xs. snd i - fst i)"
  using assms
proof (induction xs)
  case (Cons i xs)
  have "ivl_span i \<inter> ivl_cover xs = {}"
    using ivl_cover_above [OF Cons.prems] by fastforce
  moreover have "card (ivl_span i) = snd i - fst i" "finite (ivl_span i)"
    by (simp_all add: ivl_span_def)
  ultimately show ?case
    using Cons by (simp add: card_Un_disjoint)
qed simp

section \<open>Coalescing insertion\<close>

text \<open>
  Inserting an interval between the intervals below it and those above it, merging it with
  a neighbour it touches: right neighbour first, then left.
\<close>

fun coalesce :: "ivl \<Rightarrow> ivl list \<Rightarrow> ivl list" where
  "coalesce i [] = [i]"
| "coalesce i (j # ys) = (if snd i = fst j then (fst i, snd j) # ys else i # j # ys)"

definition merge_at :: "ivl list \<Rightarrow> ivl \<Rightarrow> ivl list \<Rightarrow> ivl list" where
  "merge_at xs i ys =
     (if xs \<noteq> [] \<and> snd (last xs) = fst i
      then butlast xs @ (fst (last xs), snd (hd (coalesce i ys))) # tl (coalesce i ys)
      else xs @ coalesce i ys)"

lemma coalesce_normal:
  assumes "fst i < snd i" and "ivl_normal ys" and "\<forall>j \<in> set ys. snd i \<le> fst j"
  shows "ivl_normal (coalesce i ys)" and "ivl_cover (coalesce i ys) = ivl_span i \<union> ivl_cover ys"
    and "coalesce i ys \<noteq> []" and "fst (hd (coalesce i ys)) = fst i"
    and "snd i \<le> snd (hd (coalesce i ys))"
proof -
  show "ivl_normal (coalesce i ys)" "ivl_cover (coalesce i ys) = ivl_span i \<union> ivl_cover ys"
    using assms by (cases ys; force simp: ivl_span_def)+
  show "coalesce i ys \<noteq> []" "fst (hd (coalesce i ys)) = fst i"
    by (cases ys; simp)+
  show "snd i \<le> snd (hd (coalesce i ys))"
    using assms by (cases ys) auto
qed

lemma merge_at_normal:
  assumes i: "fst i < snd i" and n: "ivl_normal xs" "ivl_normal ys"
    and below: "\<forall>j \<in> set xs. snd j \<le> fst i" and above: "\<forall>j \<in> set ys. snd i \<le> fst j"
  shows "ivl_normal (merge_at xs i ys)"
    and "ivl_cover (merge_at xs i ys) = ivl_cover xs \<union> ivl_span i \<union> ivl_cover ys"
proof -
  note c = coalesce_normal [OF i n(2) above]
  obtain k zs where k: "coalesce i ys = k # zs"
    using c(3) by (cases "coalesce i ys") auto
  have kz: "ivl_normal (k # zs)" "ivl_span k \<union> ivl_cover zs = ivl_span i \<union> ivl_cover ys" "fst k = fst i"
    using c k by simp_all
  show "ivl_normal (merge_at xs i ys)"
  proof (cases xs rule: rev_cases)
    case Nil
    then show ?thesis
      using c(1) by (simp add: merge_at_def)
  next
    case (snoc xs' x)
    have "snd j < fst z" if "j \<in> set xs" "z \<in> set zs" for j z
      using below kz that i by fastforce
    moreover have "snd j < fst x" if "j \<in> set xs'" for j
      using n(1) snoc that by simp
    moreover have "snd j < fst i" if "j \<in> set xs" "snd x \<noteq> fst i" for j
      using n(1) snoc that below by fastforce
    ultimately show ?thesis
      using snoc n(1) kz k below i by (auto simp: merge_at_def)
  qed
  show "ivl_cover (merge_at xs i ys) = ivl_cover xs \<union> ivl_span i \<union> ivl_cover ys"
  proof (cases xs rule: rev_cases)
    case Nil
    then show ?thesis
      using c(2) by (simp add: merge_at_def)
  next
    case (snoc xs' x)
    have "fst x < snd x" "fst k < snd k"
      using n(1) kz(1) snoc by simp_all
    then have "ivl_span (fst x, snd k) = ivl_span x \<union> ivl_span k" if "snd x = fst i"
      using that kz(3) by (auto simp: ivl_span_def)
    then show ?thesis
      using kz(2) c(2) snoc k by (auto simp: merge_at_def)
  qed
qed

text \<open>Where an interval that is not covered belongs.\<close>

lemma ivl_apart:
  assumes "fst i < snd i" and "fst j < snd j" and "ivl_span i \<inter> ivl_span j = {}"
  shows "snd j \<le> fst i \<or> snd i \<le> fst j"
proof (rule ccontr)
  assume "\<not> (snd j \<le> fst i \<or> snd i \<le> fst j)"
  then have "max (fst i) (fst j) \<in> ivl_span i \<inter> ivl_span j"
    using assms(1,2) by auto
  then show False
    using assms(3) by blast
qed

lemma ivl_split_at:
  assumes "ivl_normal xs" and "fst i < snd i" and "ivl_span i \<inter> ivl_cover xs = {}"
  shows "\<exists>as bs. xs = as @ bs \<and> (\<forall>j \<in> set as. snd j \<le> fst i) \<and> (\<forall>j \<in> set bs. snd i \<le> fst j)"
  using assms
proof (induction xs)
  case (Cons x xs)
  have x: "fst x < snd x" "\<forall>j \<in> set xs. snd x < fst j"
    using Cons.prems(1) by simp_all
  have sp: "ivl_span i \<inter> ivl_span x = {}" "ivl_span i \<inter> ivl_cover xs = {}"
    using Cons.prems(3) by (simp_all add: Int_Un_distrib)
  consider "snd i \<le> fst x" | "snd x \<le> fst i"
    using ivl_apart [OF Cons.prems(2) x(1) sp(1)] by blast
  then show ?case
  proof cases
    case 1
    have "snd i \<le> fst j" if "j \<in> set (x # xs)" for j
      using 1 x that by fastforce
    then show ?thesis
      by (intro exI [of _ "[]"] exI [of _ "x # xs"]) simp
  next
    case 2
    obtain as bs where "xs = as @ bs" "\<forall>j \<in> set as. snd j \<le> fst i" "\<forall>j \<in> set bs. snd i \<le> fst j"
      using Cons.IH Cons.prems(1,2) sp(2) by auto
    then show ?thesis
      using 2 by (intro exI [of _ "x # as"] exI [of _ bs]) simp
  qed
qed simp

section \<open>Cutting a run out of an interval\<close>

definition ivl_parts :: "ivl \<Rightarrow> nat \<Rightarrow> nat \<Rightarrow> ivl list" where
  "ivl_parts i u e = (if fst i < u then [(fst i, u)] else []) @ (if e < snd i then [(e, snd i)] else [])"

lemma ivl_cut:
  assumes n: "ivl_normal (xs @ i # ys)" and u: "fst i \<le> u" "u < e" "e \<le> snd i"
  shows "ivl_normal (xs @ ivl_parts i u e @ ys)"
    and "ivl_cover (xs @ ivl_parts i u e @ ys) = ivl_cover (xs @ i # ys) - {u ..< e}"
proof -
  have P: "snd x < fst i \<and> snd x < u \<and> snd x < e" if "x \<in> set xs" for x
    using n u that by fastforce
  have Q: "u < fst y \<and> snd i < fst y \<and> e < fst y" if "y \<in> set ys" for y
    using n u that by fastforce
  show "ivl_normal (xs @ ivl_parts i u e @ ys)"
    using n u P Q by (auto simp: ivl_parts_def)
  have A: "a < fst i" if "a \<in> ivl_cover xs" for a
    using that n by (fastforce simp: ivl_cover_def)
  have B: "snd i < a" if "a \<in> ivl_cover ys" for a
    using that n ivl_cover_above [of i ys a] by simp
  have "ivl_cover (ivl_parts i u e) = ivl_span i - {u ..< e}"
    using u by (auto simp: ivl_parts_def ivl_span_def)
  then have "a \<in> ivl_cover (xs @ ivl_parts i u e @ ys) \<longleftrightarrow> a \<in> ivl_cover (xs @ i # ys) - {u ..< e}" for a
    using A [of a] B [of a] u by auto
  then show "ivl_cover (xs @ ivl_parts i u e @ ys) = ivl_cover (xs @ i # ys) - {u ..< e}"
    by blast
qed

section \<open>Allocators of address ranges\<close>

text \<open>
  The states reachable by taking ranges from an allocator and giving back ranges that are
  held: the list of held ranges and the state of the allocator.
\<close>

inductive range_reach ::
    "('s \<Rightarrow> 'r \<Rightarrow> 's \<Rightarrow> bool) \<Rightarrow> ('s \<Rightarrow> 'r \<Rightarrow> 's \<Rightarrow> bool) \<Rightarrow> 's \<Rightarrow> 'r list \<Rightarrow> 's \<Rightarrow> bool"
  for takes gives s0 where
  reach_start: "range_reach takes gives s0 [] s0"
| reach_take: "range_reach takes gives s0 rs s \<Longrightarrow> takes s r s' \<Longrightarrow> range_reach takes gives s0 (r # rs) s'"
| reach_give: "range_reach takes gives s0 (xs @ r # ys) s \<Longrightarrow> gives s r s' \<Longrightarrow>
    range_reach takes gives s0 (xs @ ys) s'"

text \<open>
  The contract: \<open>avail\<close> is the set of free addresses and \<open>span\<close> the addresses of a range.
  Taking a range removes it from the free addresses; giving back a range that is not free
  adds it.
\<close>

locale range_allocator =
  fixes ok :: "'s \<Rightarrow> bool"
    and avail :: "'s \<Rightarrow> nat set"
    and span :: "'r \<Rightarrow> nat set"
    and valid :: "'r \<Rightarrow> bool"
    and takes :: "'s \<Rightarrow> 'r \<Rightarrow> 's \<Rightarrow> bool"
    and gives :: "'s \<Rightarrow> 'r \<Rightarrow> 's \<Rightarrow> bool"
  assumes takes_ok: "ok s \<Longrightarrow> takes s r s' \<Longrightarrow>
      ok s' \<and> valid r \<and> span r \<subseteq> avail s \<and> avail s' = avail s - span r"
    and gives_ok: "ok s \<Longrightarrow> valid r \<Longrightarrow> span r \<inter> avail s = {} \<Longrightarrow> gives s r s' \<Longrightarrow>
      ok s' \<and> avail s' = avail s \<union> span r"
begin

abbreviation held :: "'r list \<Rightarrow> nat set" where
  "held rs \<equiv> (\<Union>r \<in> set rs. span r)"

lemma reach_inv:
  assumes "range_reach takes gives s0 rs s" and "ok s0"
  shows "ok s \<and> (\<forall>r \<in> set rs. valid r) \<and> sorted_wrt (\<lambda>r t. span r \<inter> span t = {}) rs \<and>
    held rs \<inter> avail s = {} \<and> held rs \<union> avail s = avail s0"
  using assms
proof induction
  case reach_start
  then show ?case
    by simp
next
  case (reach_take rs s r s')
  then have ih: "ok s" "\<forall>t \<in> set rs. valid t" "sorted_wrt (\<lambda>r t. span r \<inter> span t = {}) rs"
    "held rs \<inter> avail s = {}" "held rs \<union> avail s = avail s0"
    by simp_all
  have "ok s' \<and> valid r \<and> span r \<subseteq> avail s \<and> avail s' = avail s - span r"
    by (rule takes_ok [OF ih(1) reach_take.hyps(2)])
  then show ?case
    using ih by auto
next
  case (reach_give xs r ys s s')
  then have ih: "ok s" "\<forall>t \<in> set (xs @ r # ys). valid t"
    "sorted_wrt (\<lambda>r t. span r \<inter> span t = {}) (xs @ r # ys)"
    "held (xs @ r # ys) \<inter> avail s = {}" "held (xs @ r # ys) \<union> avail s = avail s0"
    by auto
  have r: "span r \<inter> avail s = {}" "span r \<inter> held (xs @ ys) = {}"
    "sorted_wrt (\<lambda>r t. span r \<inter> span t = {}) (xs @ ys)"
    using ih(3,4) by (simp_all add: sorted_wrt_append) blast+
  have "ok s' \<and> avail s' = avail s \<union> span r"
    using gives_ok [OF ih(1) _ r(1) reach_give.hyps(2)] ih(2) by simp
  moreover have "held (xs @ r # ys) = held (xs @ ys) \<union> span r"
    by auto
  ultimately show ?case
    using ih r by auto
qed

end

end
