(* ===== verification/Region.thy ===== *)
theory Region
  imports Addr Intervals
begin

text \<open>
  The virtual address region allocator (\<open>eira/src/mm/vm/region.rs\<close>) and the kernel's
  address layout (\<open>eira/src/mm/vm/mod.rs\<close>). The slot array is a list of \<open>CAPACITY\<close>
  regions of which the first \<open>ra_len\<close> are in use; slot numbers, which never exceed the
  capacity, are natural numbers. \<open>partition_point\<close> is the standard library's binary
  search, whose result on a partitioned slice is the length of the true prefix.
\<close>

section \<open>Regions\<close>

definition CAPACITY :: nat where
  "CAPACITY = 64"

record region =
  reg_base :: virt_addr
  reg_size :: usize

definition region_new :: "virt_addr \<Rightarrow> usize \<Rightarrow> region res" where
  "region_new base sz =
     rbind (require (0 < sz) ''region size must be non-zero'') (\<lambda>_.
     rbind (virt_is_aligned base PAGE_SIZE) (\<lambda>aligned.
     rbind (require aligned ''region base is not page-aligned'') (\<lambda>_.
     rbind (require (sz mod PAGE_SIZE = 0) ''region size is not a multiple of PAGE_SIZE'') (\<lambda>_.
       Inr \<lparr>reg_base = base, reg_size = sz\<rparr>))))"

definition region_end :: "region \<Rightarrow> virt_addr option" where
  "region_end r =
     (case checked_add (virt_as_usize (reg_base r)) (reg_size r) of
        None \<Rightarrow> None
      | Some raw \<Rightarrow> Some (virt_new_unchecked raw))"

definition is_left_adjacent_to :: "region \<Rightarrow> region \<Rightarrow> bool" where
  "is_left_adjacent_to r other =
     (case region_end r of
        None \<Rightarrow> False
      | Some e \<Rightarrow> virt_as_usize e = virt_as_usize (reg_base other))"

datatype region_error = OutOfVirtualMemory | TrackerFull | RegionUnaligned

section \<open>The allocator\<close>

record region_allocator =
  slots :: "region list"
  ra_len :: nat

definition region_allocator_new :: region_allocator where
  "region_allocator_new =
     \<lparr>slots = replicate CAPACITY \<lparr>reg_base = virt_new_unchecked 0, reg_size = PAGE_SIZE\<rparr>, ra_len = 0\<rparr>"

definition partition_point :: "('a \<Rightarrow> bool) \<Rightarrow> 'a list \<Rightarrow> nat" where
  "partition_point P xs = length (takeWhile P xs)"

definition insert_at ::
    "nat \<Rightarrow> region \<Rightarrow> region_allocator \<Rightarrow> ((region_error + unit) \<times> region_allocator) res" where
  "insert_at pos r a =
     (if CAPACITY \<le> ra_len a then Inr (Inl TrackerFull, a)
      else rbind (copy_within (slots a) pos (ra_len a) (pos + 1)) (\<lambda>xs.
           rbind (array_set xs pos r) (\<lambda>xs.
             Inr (Inr (), a\<lparr>slots := xs, ra_len := ra_len a + 1\<rparr>))))"

definition remove_at :: "nat \<Rightarrow> region_allocator \<Rightarrow> (region \<times> region_allocator) res" where
  "remove_at pos a =
     rbind (require (pos < ra_len a) ''remove_at: index out of bounds'') (\<lambda>_.
     rbind (array_get (slots a) pos) (\<lambda>r.
     rbind (copy_within (slots a) (pos + 1) (ra_len a) pos) (\<lambda>xs.
       Inr (r, a\<lparr>slots := xs, ra_len := ra_len a - 1\<rparr>))))"

definition merge_right :: "nat \<Rightarrow> region_allocator \<Rightarrow> region_allocator res" where
  "merge_right pos a =
     (if pos + 1 < ra_len a then
        rbind (array_get (slots a) pos) (\<lambda>left.
        rbind (array_get (slots a) (pos + 1)) (\<lambda>right.
          if is_left_adjacent_to left right then
            rbind (uadd (reg_size left) (reg_size right)) (\<lambda>sz.
            rbind (region_new (reg_base left) sz) (\<lambda>r.
            rbind (array_set (slots a) pos r) (\<lambda>xs.
            rbind (remove_at (pos + 1) (a\<lparr>slots := xs\<rparr>)) (\<lambda>(_, a). Inr a))))
          else Inr a))
      else Inr a)"

definition merge_left :: "nat \<Rightarrow> region_allocator \<Rightarrow> region_allocator res" where
  "merge_left pos a =
     (if 0 < pos then
        rbind (array_get (slots a) (pos - 1)) (\<lambda>left.
        rbind (array_get (slots a) pos) (\<lambda>right.
          if is_left_adjacent_to left right then
            rbind (uadd (reg_size left) (reg_size right)) (\<lambda>sz.
            rbind (region_new (reg_base left) sz) (\<lambda>r.
            rbind (array_set (slots a) (pos - 1) r) (\<lambda>xs.
            rbind (remove_at pos (a\<lparr>slots := xs\<rparr>)) (\<lambda>(_, a). Inr a))))
          else Inr a))
      else Inr a)"

definition try_merge_at :: "nat \<Rightarrow> region_allocator \<Rightarrow> region_allocator res" where
  "try_merge_at pos a = rbind (merge_right pos a) (merge_left pos)"

definition region_add :: "region \<Rightarrow> region_allocator \<Rightarrow> ((region_error + unit) \<times> region_allocator) res" where
  "region_add r a =
     rbind (virt_is_aligned (reg_base r) PAGE_SIZE) (\<lambda>aligned.
       if \<not> aligned \<or> reg_size r mod PAGE_SIZE \<noteq> 0 then Inr (Inl RegionUnaligned, a)
       else
         let pos = partition_point (\<lambda>s. virt_as_usize (reg_base s) < virt_as_usize (reg_base r))
                     (take (ra_len a) (slots a)) in
         rbind (insert_at pos r a) (\<lambda>(res, a).
           case res of
             Inl e \<Rightarrow> Inr (Inl e, a)
           | Inr _ \<Rightarrow> rbind (try_merge_at pos a) (\<lambda>a. Inr (Inr (), a))))"

text \<open>
  The closure of \<open>find_map\<close> in \<open>alloc\<close>, on one slot: the aligned base and the padding
  before it, if the request fits.
\<close>

definition slot_fit :: "usize \<Rightarrow> usize \<Rightarrow> region \<Rightarrow> (usize \<times> usize) option res" where
  "slot_fit sz align slot =
     (let base_raw = virt_as_usize (reg_base slot) in
      rbind (usub align 1) (\<lambda>mask.
        case checked_add base_raw mask of
          None \<Rightarrow> Inr None
        | Some t \<Rightarrow>
            let aligned_raw = t AND NOT mask in
            rbind (usub aligned_raw base_raw) (\<lambda>padding.
              case checked_add padding sz of
                None \<Rightarrow> Inr None
              | Some total_needed \<Rightarrow>
                  Inr (if total_needed \<le> reg_size slot then Some (aligned_raw, padding) else None))))"

fun find_fit :: "nat \<Rightarrow> usize \<Rightarrow> usize \<Rightarrow> region list \<Rightarrow> (nat \<times> usize \<times> usize) option res" where
  "find_fit i sz align [] = Inr None"
| "find_fit i sz align (slot # rest) =
     rbind (slot_fit sz align slot) (\<lambda>f.
       case f of
         Some (aligned, padding) \<Rightarrow> Inr (Some (i, aligned, padding))
       | None \<Rightarrow> find_fit (i + 1) sz align rest)"

text \<open>Putting a leftover fragment back: \<open>insert_at(..).expect(..)\<close>.\<close>

definition insert_fragment :: "nat \<Rightarrow> virt_addr \<Rightarrow> usize \<Rightarrow> region_allocator \<Rightarrow> region_allocator res" where
  "insert_fragment pos base sz a =
     rbind (region_new base sz) (\<lambda>r.
     rbind (insert_at pos r a) (\<lambda>(res, a).
       case res of
         Inl e \<Rightarrow> Inl (Panic ''slot available after removal'')
       | Inr _ \<Rightarrow> Inr a))"

definition region_alloc ::
    "usize \<Rightarrow> usize \<Rightarrow> region_allocator \<Rightarrow> ((region_error + region) \<times> region_allocator) res" where
  "region_alloc sz align a =
     (if sz = 0 \<or> sz mod PAGE_SIZE \<noteq> 0 then Inr (Inl RegionUnaligned, a)
      else if \<not> is_power_of_two align \<or> align mod PAGE_SIZE \<noteq> 0 then Inr (Inl RegionUnaligned, a)
      else
        rbind (find_fit 0 sz align (take (ra_len a) (slots a))) (\<lambda>found.
          case found of
            None \<Rightarrow> Inr (Inl OutOfVirtualMemory, a)
          | Some (slot_idx, aligned_base, padding) \<Rightarrow>
              rbind (remove_at slot_idx a) (\<lambda>(slot, a).
              rbind (if 0 < padding then insert_fragment slot_idx (reg_base slot) padding a
                     else Inr a) (\<lambda>a.
              rbind (usub (reg_size slot) padding) (\<lambda>t.
              rbind (usub t sz) (\<lambda>tail_size.
              rbind (if 0 < tail_size then
                       rbind (uadd aligned_base sz) (\<lambda>tail_base_raw.
                         insert_fragment (slot_idx + (if 0 < padding then 1 else 0))
                           (virt_new_unchecked tail_base_raw) tail_size a)
                     else Inr a) (\<lambda>a.
              rbind (region_new (virt_new_unchecked aligned_base) sz) (\<lambda>r.
                Inr (Inr r, a)))))))))"

definition region_free :: "region \<Rightarrow> region_allocator \<Rightarrow> ((region_error + unit) \<times> region_allocator) res" where
  "region_free r a = region_add r a"

fun sum_sizes :: "usize \<Rightarrow> region list \<Rightarrow> usize res" where
  "sum_sizes acc [] = Inr acc"
| "sum_sizes acc (r # rs) = rbind (uadd acc (reg_size r)) (\<lambda>acc. sum_sizes acc rs)"

definition region_free_bytes :: "region_allocator \<Rightarrow> usize res" where
  "region_free_bytes a = sum_sizes 0 (take (ra_len a) (slots a))"

definition free_region_count :: "region_allocator \<Rightarrow> nat" where
  "free_region_count a = ra_len a"

section \<open>The kernel's layout\<close>

definition HEAP_START :: usize where "HEAP_START = 0xffffc00000000000"
definition HEAP_END :: usize where "HEAP_END = 0xffffd00000000000"
definition KERNEL_VM_START :: usize where "KERNEL_VM_START = 0xffffd00000000000"
definition KERNEL_VM_END :: usize where "KERNEL_VM_END = 0xffffe00000000000"

definition is_heap_addr :: "virt_addr \<Rightarrow> bool" where
  "is_heap_addr addr = (HEAP_START \<le> virt_as_usize addr \<and> virt_as_usize addr < HEAP_END)"

definition is_kernel_vm_addr :: "virt_addr \<Rightarrow> bool" where
  "is_kernel_vm_addr addr = (KERNEL_VM_START \<le> virt_as_usize addr \<and> virt_as_usize addr < KERNEL_VM_END)"

definition preloaded :: "usize \<Rightarrow> usize \<Rightarrow> string \<Rightarrow> region_allocator res" where
  "preloaded lo hi msg =
     rbind (usub hi lo) (\<lambda>sz.
     rbind (region_new (virt_new_unchecked lo) sz) (\<lambda>r.
     rbind (region_add r region_allocator_new) (\<lambda>(res, ra).
       case res of Inl e \<Rightarrow> Inl (Panic msg) | Inr _ \<Rightarrow> Inr ra)))"

definition heap_region_allocator :: "region_allocator res" where
  "heap_region_allocator = preloaded HEAP_START HEAP_END ''initial heap region registration failed''"

definition kernel_vm_region_allocator :: "region_allocator res" where
  "kernel_vm_region_allocator =
     preloaded KERNEL_VM_START KERNEL_VM_END ''initial kernel VM region registration failed''"

section \<open>Normalised region lists\<close>

text \<open>
  The three invariants of the slot array: the slots in use hold well-formed regions, in
  ascending order, with a gap between neighbours. Such a list is a normal form of the set
  of addresses it covers.
\<close>

abbreviation rlo :: "region \<Rightarrow> nat" where
  "rlo r \<equiv> unat (virt_as_usize (reg_base r))"

abbreviation rhi :: "region \<Rightarrow> nat" where
  "rhi r \<equiv> rlo r + unat (reg_size r)"

definition addrs :: "region \<Rightarrow> nat set" where
  "addrs r = {rlo r ..< rhi r}"

definition region_ok :: "region \<Rightarrow> bool" where
  "region_ok r \<longleftrightarrow> 4096 dvd rlo r \<and> 4096 dvd unat (reg_size r) \<and> 0 < unat (reg_size r) \<and>
     rhi r < 2 ^ 64"

definition normal :: "region list \<Rightarrow> bool" where
  "normal rs \<longleftrightarrow> (\<forall>r \<in> set rs. region_ok r) \<and> sorted_wrt (\<lambda>r s. rhi r < rlo s) rs"

definition cover :: "region list \<Rightarrow> nat set" where
  "cover rs = (\<Union>r \<in> set rs. addrs r)"

lemma cover_simps [simp]:
  "cover [] = {}" "cover (r # rs) = addrs r \<union> cover rs" "cover (rs @ ss) = cover rs \<union> cover ss"
  by (auto simp: cover_def)

lemma normal_simps [simp]:
  "normal []"
  "normal (r # rs) \<longleftrightarrow> region_ok r \<and> normal rs \<and> (\<forall>s \<in> set rs. rhi r < rlo s)"
  "normal (rs @ ss) \<longleftrightarrow> normal rs \<and> normal ss \<and> (\<forall>r \<in> set rs. \<forall>s \<in> set ss. rhi r < rlo s)"
  by (auto simp: normal_def sorted_wrt_append)

lemma region_ok_pos: "region_ok r \<Longrightarrow> rlo r < rhi r"
  by (simp add: region_ok_def)

lemma normal_region_ok: "normal rs \<Longrightarrow> r \<in> set rs \<Longrightarrow> region_ok r"
  by (simp add: normal_def)

lemma rlo_mem_addrs: "region_ok r \<Longrightarrow> rlo r \<in> addrs r"
  by (simp add: addrs_def region_ok_def)

lemma finite_cover: "finite (cover rs)"
  by (simp add: cover_def addrs_def)

text \<open>The interval list of a region list, through which the facts on interval lists apply.\<close>

abbreviation ivls :: "region list \<Rightarrow> ivl list" where
  "ivls rs \<equiv> map (\<lambda>r. (rlo r, rhi r)) rs"

lemma ivls_cover: "ivl_cover (ivls rs) = cover rs"
  by (auto simp: ivl_cover_def cover_def addrs_def)

lemma ivls_normal: "normal rs \<Longrightarrow> ivl_normal (ivls rs)"
  using region_ok_pos by (auto simp: normal_def ivl_normal_def sorted_wrt_map)

lemma cover_run:
  assumes "normal rs" and "0 < n" and "{a ..< a + n} \<subseteq> cover rs"
  shows "\<exists>r \<in> set rs. {a ..< a + n} \<subseteq> addrs r"
  using ivl_cover_run [OF ivls_normal [OF assms(1)] assms(2)] assms(3)
  by (simp add: ivls_cover addrs_def ivl_span_def)

lemma region_eqI:
  fixes r s :: region
  assumes "rlo r = rlo s" and "rhi r = rhi s"
  shows "r = s"
proof -
  have "virt_as_usize (reg_base r) = virt_as_usize (reg_base s)" "reg_size r = reg_size s"
    using assms by (simp_all add: word_eq_unat)
  then show ?thesis
    by (cases r; cases s) (simp add: virt_addr.expand)
qed

text \<open>A normalised list is determined by the addresses it covers.\<close>

lemma normal_unique:
  assumes "normal rs" and "normal ss" and "cover rs = cover ss"
  shows "rs = ss"
proof -
  have "ivls rs = ivls ss"
    using assms by (intro ivl_normal_unique ivls_normal) (simp_all add: ivls_cover)
  moreover have "inj (\<lambda>r. (rlo r, rhi r))"
    by (rule injI, rule region_eqI) simp_all
  ultimately show ?thesis
    by (simp add: inj_map_eq_map)
qed

lemma sum_addrs:
  assumes "normal rs"
  shows "(\<Sum>r \<leftarrow> rs. unat (reg_size r)) = card (cover rs)"
  using card_ivl_cover [OF ivls_normal [OF assms]] by (simp add: ivls_cover comp_def)

section \<open>The slot array\<close>

definition regs :: "region_allocator \<Rightarrow> region list" where
  "regs a = take (ra_len a) (slots a)"

definition slots_ok :: "region_allocator \<Rightarrow> bool" where
  "slots_ok a \<longleftrightarrow> length (slots a) = CAPACITY \<and> ra_len a \<le> CAPACITY"

definition region_inv :: "region_allocator \<Rightarrow> bool" where
  "region_inv a \<longleftrightarrow> slots_ok a \<and> normal (regs a)"

definition free_addrs :: "region_allocator \<Rightarrow> nat set" where
  "free_addrs a = cover (regs a)"

lemma length_regs: "slots_ok a \<Longrightarrow> length (regs a) = ra_len a"
  by (simp add: slots_ok_def regs_def)

lemma slots_split:
  assumes "slots_ok a" and "regs a = xs @ ys"
  shows "slots a = xs @ ys @ drop (ra_len a) (slots a)" and "ra_len a = length xs + length ys"
proof -
  show "slots a = xs @ ys @ drop (ra_len a) (slots a)"
    by (metis append_assoc append_take_drop_id assms(2) regs_def)
  show "ra_len a = length xs + length ys"
    using length_regs [OF assms(1)] assms(2) by simp
qed

lemma insert_at_regs:
  assumes ok: "slots_ok a" and regs: "regs a = xs @ ys" and room: "ra_len a < CAPACITY"
  shows "\<exists>a'. insert_at (length xs) r a = Inr (Inr (), a') \<and> slots_ok a' \<and>
    regs a' = xs @ r # ys \<and> ra_len a' = Suc (ra_len a)"
proof -
  note s = slots_split [OF ok regs]
  define zs where "zs = drop (ra_len a) (slots a)"
  have sl: "slots a = xs @ ys @ zs"
    using s(1) zs_def by simp
  have "length zs = CAPACITY - ra_len a"
    using ok zs_def by (simp add: slots_ok_def)
  with room obtain z zs' where zs: "zs = z # zs'"
    by (cases zs) auto
  have len: "length (xs @ ys @ zs) = CAPACITY"
    using ok sl by (simp add: slots_ok_def)
  obtain w ws where w: "ys @ zs = w # ws"
    using zs by (cases "ys @ zs") auto
  have "copy_within (slots a) (length xs) (ra_len a) (length xs + 1) = Inr (xs @ w # ys @ zs')"
    using room len s(2) zs w unfolding sl copy_within_def by (cases ys) auto
  then have "insert_at (length xs) r a =
      Inr (Inr (), a\<lparr>slots := xs @ r # ys @ zs', ra_len := ra_len a + 1\<rparr>)"
    using room by (simp add: insert_at_def list_update_append)
  with room len s(2) zs show ?thesis
    by (simp add: slots_ok_def regs_def)
qed

lemma remove_at_regs:
  assumes ok: "slots_ok a" and regs: "regs a = xs @ r # ys"
  shows "\<exists>a'. remove_at (length xs) a = Inr (r, a') \<and> slots_ok a' \<and>
    regs a' = xs @ ys \<and> Suc (ra_len a') = ra_len a"
proof -
  note s = slots_split [OF ok regs]
  define zs where "zs = drop (ra_len a) (slots a)"
  have sl: "slots a = xs @ r # ys @ zs"
    using s(1) zs_def by simp
  have len: "length (xs @ r # ys @ zs) = CAPACITY"
    using ok sl by (simp add: slots_ok_def)
  let ?xs = "xs @ ys @ drop (length xs + length ys) (xs @ r # ys @ zs)"
  have "copy_within (slots a) (length xs + 1) (ra_len a) (length xs) = Inr ?xs"
    using len s(2) unfolding sl copy_within_def by simp
  then have "remove_at (length xs) a = Inr (r, a\<lparr>slots := ?xs, ra_len := ra_len a - 1\<rparr>)"
    using s(2) by (simp add: remove_at_def sl nth_append)
  with len s(2) show ?thesis
    by (simp add: slots_ok_def regs_def)
qed

lemma array_get_regs:
  assumes "slots_ok a" and "regs a = xs @ r # ys"
  shows "array_get (slots a) (length xs) = Inr r"
proof -
  have "slots a = xs @ (r # ys) @ drop (ra_len a) (slots a)"
    by (rule slots_split(1) [OF assms])
  then have "slots a ! length xs = r" "length xs < length (slots a)"
    by (metis append_Cons nth_append_length, metis append_Cons length_append length_Cons less_add_Suc1 add_Suc_right)
  then show ?thesis
    by simp
qed

lemma array_set_regs:
  assumes "slots_ok a" and "regs a = xs @ r # ys"
  shows "\<exists>zs. array_set (slots a) (length xs) v = Inr zs \<and> slots_ok (a\<lparr>slots := zs\<rparr>) \<and>
    regs (a\<lparr>slots := zs\<rparr>) = xs @ v # ys"
proof -
  have s: "slots a = xs @ (r # ys) @ drop (ra_len a) (slots a)"
    and l: "ra_len a = length xs + length (r # ys)"
    by (rule slots_split [OF assms])+
  have "length xs < length (slots a)"
    using l assms(1) by (simp add: slots_ok_def)
  moreover have "take (ra_len a) ((slots a)[length xs := v]) = (xs @ r # ys)[length xs := v]"
    using assms(2) by (simp add: take_update_swap regs_def)
  ultimately show ?thesis
    using assms(1) by (simp add: slots_ok_def regs_def list_update_append)
qed

section \<open>Joining neighbours\<close>

definition join :: "region \<Rightarrow> region \<Rightarrow> region" where
  "join l r = \<lparr>reg_base = reg_base l, reg_size = reg_size l + reg_size r\<rparr>"

lemma mod_page_eq_0: "n mod PAGE_SIZE = 0 \<longleftrightarrow> 4096 dvd unat n"
  by (simp add: word_eq_unat unat_mod dvd_eq_mod_eq_0)

lemma region_new_ok:
  assumes "0 < unat n" and "4096 dvd virt_nat v" and "4096 dvd unat n"
  shows "region_new v n = Inr \<lparr>reg_base = v, reg_size = n\<rparr>"
  using assms by (simp add: region_new_def virt_is_aligned_page mod_page_eq_0 word_less_nat_alt)

lemma region_end_ok: "region_ok r \<Longrightarrow> region_end r = Some (VirtAddr (virt_as_usize (reg_base r) + reg_size r))"
  by (simp add: region_end_def region_ok_def checked_add_def virt_new_unchecked_def)

lemma is_left_adjacent_to_iff: "region_ok l \<Longrightarrow> is_left_adjacent_to l r \<longleftrightarrow> rhi l = rlo r"
  by (simp add: is_left_adjacent_to_def region_end_ok word_eq_unat unat_plus_if' region_ok_def)

lemma join_ok:
  assumes "region_ok l" and "region_ok r" and "rhi l = rlo r"
  shows "uadd (reg_size l) (reg_size r) = Inr (reg_size l + reg_size r)"
    and "region_new (reg_base l) (reg_size l + reg_size r) = Inr (join l r)"
    and "region_ok (join l r)" and "rlo (join l r) = rlo l" and "rhi (join l r) = rhi r"
    and "addrs (join l r) = addrs l \<union> addrs r"
proof -
  have "unat (reg_size l) + unat (reg_size r) < 2 ^ 64"
    using assms by (simp add: region_ok_def)
  then have n: "uadd (reg_size l) (reg_size r) = Inr (reg_size l + reg_size r)"
    "unat (reg_size l + reg_size r) = unat (reg_size l) + unat (reg_size r)"
    by (simp_all add: uadd_def checked_add_def unat_plus_if')
  show "uadd (reg_size l) (reg_size r) = Inr (reg_size l + reg_size r)"
    by (rule n)
  show "region_new (reg_base l) (reg_size l + reg_size r) = Inr (join l r)"
    using assms by (simp add: join_def region_new_ok n region_ok_def)
  show "rlo (join l r) = rlo l"
    by (simp add: join_def)
  show "rhi (join l r) = rhi r"
    using assms(3) by (simp add: join_def n)
  then show "region_ok (join l r)"
    using assms by (simp add: region_ok_def join_def n)
  show "addrs (join l r) = addrs l \<union> addrs r"
    using assms(3) by (auto simp: addrs_def join_def n)
qed

lemma merge_right_regs:
  assumes ok: "slots_ok a" and regs: "regs a = xs @ n # ys"
    and n: "region_ok n" and ys: "normal ys" "\<forall>y \<in> set ys. rhi n \<le> rlo y"
  shows "\<exists>a' n' ys'. merge_right (length xs) a = Inr a' \<and> slots_ok a' \<and> regs a' = xs @ n' # ys' \<and>
    normal (n' # ys') \<and> rlo n' = rlo n \<and> addrs n' \<union> cover ys' = addrs n \<union> cover ys"
proof (cases ys)
  case Nil
  then show ?thesis
    using assms slots_split(2) [OF ok regs] by (intro exI [of _ a] exI [of _ n] exI [of _ ys])
      (simp add: merge_right_def)
next
  case (Cons y ys')
  have y: "region_ok y" "normal ys'" "\<forall>z \<in> set ys'. rhi y < rlo z" "rhi n \<le> rlo y"
    using ys Cons by auto
  have "length xs + 1 < ra_len a"
    using slots_split(2) [OF ok regs] Cons by simp
  moreover have "array_get (slots a) (length xs) = Inr n" "array_get (slots a) (length xs + 1) = Inr y"
    using array_get_regs [OF ok regs] array_get_regs [OF ok, of "xs @ [n]" y ys'] regs Cons by simp_all
  ultimately have run: "merge_right (length xs) a =
      (if rhi n = rlo y then
         rbind (array_set (slots a) (length xs) (join n y)) (\<lambda>zs.
         rbind (remove_at (length xs + 1) (a\<lparr>slots := zs\<rparr>)) (\<lambda>(_, a). Inr a))
       else Inr a)"
    using join_ok(1,2) [OF n y(1)] by (simp add: merge_right_def is_left_adjacent_to_iff [OF n])
  show ?thesis
  proof (cases "rhi n = rlo y")
    case True
    obtain zs where zs: "array_set (slots a) (length xs) (join n y) = Inr zs"
      "slots_ok (a\<lparr>slots := zs\<rparr>)" "regs (a\<lparr>slots := zs\<rparr>) = xs @ join n y # ys"
      using array_set_regs [OF ok regs] by blast
    then obtain a' where a': "remove_at (length xs + 1) (a\<lparr>slots := zs\<rparr>) = Inr (y, a')" "slots_ok a'"
      "regs a' = xs @ join n y # ys'"
      using remove_at_regs [OF zs(2), of "xs @ [join n y]" y ys'] Cons by auto
    have "normal (join n y # ys')"
      using y join_ok(3,5) [OF n y(1) True] by simp
    with a' zs(1) run True show ?thesis
      using join_ok(4,6) [OF n y(1) True] Cons
      by (intro exI [of _ a'] exI [of _ "join n y"] exI [of _ ys']) auto
  next
    case False
    then have "normal (n # ys)"
      using n y ys(1) Cons region_ok_pos [OF y(1)] by fastforce
    with False run ok regs show ?thesis
      by auto
  qed
qed

lemma merge_left_regs:
  assumes ok: "slots_ok a" and regs: "regs a = xs @ n # ys"
    and xs: "normal xs" "\<forall>x \<in> set xs. rhi x \<le> rlo n" and n: "normal (n # ys)"
  shows "\<exists>a'. merge_left (length xs) a = Inr a' \<and> slots_ok a' \<and> normal (regs a') \<and>
    cover (regs a') = cover (regs a)"
proof (cases xs rule: rev_cases)
  case Nil
  with assms show ?thesis
    by (simp add: merge_left_def)
next
  case (snoc xs' x)
  have x: "region_ok x" "normal xs'" "\<forall>z \<in> set xs'. rhi z < rlo x" "rhi x \<le> rlo n"
    using xs snoc by auto
  have n': "region_ok n"
    using n by simp
  have regs': "regs a = xs' @ x # n # ys"
    using regs snoc by simp
  have "array_get (slots a) (length xs') = Inr x" "array_get (slots a) (length xs' + 1) = Inr n"
    using array_get_regs [OF ok regs'] array_get_regs [OF ok regs] snoc by simp_all
  then have run: "merge_left (length xs) a =
      (if rhi x = rlo n then
         rbind (array_set (slots a) (length xs') (join x n)) (\<lambda>zs.
         rbind (remove_at (length xs' + 1) (a\<lparr>slots := zs\<rparr>)) (\<lambda>(_, a). Inr a))
       else Inr a)"
    using join_ok(1,2) [OF x(1) n'] snoc by (simp add: merge_left_def is_left_adjacent_to_iff [OF x(1)])
  have pos: "rlo x < rhi x" "rlo n < rhi n"
    using region_ok_pos x(1) n' by auto
  show ?thesis
  proof (cases "rhi x = rlo n")
    case True
    obtain zs where zs: "array_set (slots a) (length xs') (join x n) = Inr zs"
      "slots_ok (a\<lparr>slots := zs\<rparr>)" "regs (a\<lparr>slots := zs\<rparr>) = xs' @ join x n # n # ys"
      using array_set_regs [OF ok regs'] by blast
    then obtain a' where a': "remove_at (length xs' + 1) (a\<lparr>slots := zs\<rparr>) = Inr (n, a')" "slots_ok a'"
      "regs a' = xs' @ join x n # ys"
      using remove_at_regs [OF zs(2), of "xs' @ [join x n]" n ys] by auto
    note j = join_ok(3-6) [OF x(1) n' True]
    have "\<forall>z \<in> set xs'. \<forall>y \<in> set ys. rhi z < rlo y"
      using x(3) n True pos by fastforce
    then have "normal (regs a')"
      using a'(3) j x n by auto
    with a' zs(1) run True j(4) regs' show ?thesis
      by auto
  next
    case False
    have "\<forall>z \<in> set xs. \<forall>y \<in> set (n # ys). rhi z < rlo y"
      using x n pos snoc False by fastforce
    then have "normal (regs a)"
      using regs xs(1) n by simp
    with False run ok show ?thesis
      by simp
  qed
qed

section \<open>Registering a region\<close>

lemma sorted_partition:
  assumes "normal rs" and "region_ok r" and "addrs r \<inter> cover rs = {}"
    and xs: "xs = takeWhile (\<lambda>s. rlo s < rlo r) rs" and ys: "ys = dropWhile (\<lambda>s. rlo s < rlo r) rs"
  shows "\<forall>x \<in> set xs. rhi x \<le> rlo r" and "\<forall>y \<in> set ys. rhi r \<le> rlo y"
proof -
  have rs: "rs = xs @ ys"
    by (simp add: xs ys)
  have disj: "addrs r \<inter> addrs s = {}" if "s \<in> set rs" for s
    using assms(3) that by (auto simp: cover_def)
  have n: "normal ys" "\<forall>s \<in> set rs. region_ok s"
    using assms(1) normal_region_ok [OF assms(1)] rs by auto
  show "\<forall>x \<in> set xs. rhi x \<le> rlo r"
  proof
    fix x assume x: "x \<in> set xs"
    then have "rlo x < rlo r" "x \<in> set rs"
      using set_takeWhileD xs by fast+
    then show "rhi x \<le> rlo r"
      using disj [of x] rlo_mem_addrs [OF assms(2)] by (auto simp: addrs_def disjoint_iff)
  qed
  have ge: "rlo r \<le> rlo y" if "y \<in> set ys" for y
  proof (cases ys)
    case (Cons z zs)
    then have "rlo r \<le> rlo z"
      using ys hd_dropWhile [of "\<lambda>s. rlo s < rlo r" rs] by simp
    then show ?thesis
      using that Cons n(1) by force
  qed (use that in simp)
  show "\<forall>y \<in> set ys. rhi r \<le> rlo y"
  proof
    fix y assume y: "y \<in> set ys"
    then have "rlo y \<notin> addrs r"
      using disj [of y] rs n(2) rlo_mem_addrs [of y] by auto
    then show "rhi r \<le> rlo y"
      using ge [OF y] by (simp add: addrs_def)
  qed
qed

lemma region_add_regs:
  assumes inv: "region_inv a" and r: "region_ok r" and new: "addrs r \<inter> free_addrs a = {}"
    and room: "ra_len a < CAPACITY"
  shows "\<exists>a'. region_add r a = Inr (Inr (), a') \<and> region_inv a' \<and>
    free_addrs a' = free_addrs a \<union> addrs r"
proof -
  have ok: "slots_ok a" and n: "normal (regs a)"
    using inv by (simp_all add: region_inv_def)
  define xs where "xs = takeWhile (\<lambda>s. rlo s < rlo r) (regs a)"
  define ys where "ys = dropWhile (\<lambda>s. rlo s < rlo r) (regs a)"
  have regs: "regs a = xs @ ys"
    by (simp add: xs_def ys_def)
  have sp: "\<forall>x \<in> set xs. rhi x \<le> rlo r" "\<forall>y \<in> set ys. rhi r \<le> rlo y"
    using sorted_partition [OF n r _ xs_def ys_def] new by (simp_all add: free_addrs_def)
  have nn: "normal xs" "normal ys"
    using n regs by simp_all
  obtain b where b: "insert_at (length xs) r a = Inr (Inr (), b)" "slots_ok b" "regs b = xs @ r # ys"
    using insert_at_regs [OF ok regs room] by blast
  obtain c n' ys' where c: "merge_right (length xs) b = Inr c" "slots_ok c" "regs c = xs @ n' # ys'"
    "normal (n' # ys')" "rlo n' = rlo r" "addrs n' \<union> cover ys' = addrs r \<union> cover ys"
    using merge_right_regs [OF b(2,3) r nn(2) sp(2)] by blast
  obtain d where d: "merge_left (length xs) c = Inr d" "slots_ok d" "normal (regs d)"
    "cover (regs d) = cover (regs c)"
    using merge_left_regs [OF c(2,3) nn(1) _ c(4)] sp(1) c(5) by auto
  have "partition_point (\<lambda>s. virt_as_usize (reg_base s) < virt_as_usize (reg_base r)) (regs a) = length xs"
    by (simp add: partition_point_def xs_def word_less_nat_alt)
  then have "region_add r a = Inr (Inr (), d)"
    using r b(1) c(1) d(1)
    by (simp add: region_add_def regs_def virt_is_aligned_page mod_page_eq_0 region_ok_def
        try_merge_at_def Let_def)
  moreover have "cover (regs d) = cover (regs a) \<union> addrs r"
    using c(3,6) d(4) regs by auto
  ultimately show ?thesis
    using d by (auto simp: region_inv_def free_addrs_def)
qed

lemma region_add_full:
  assumes "region_ok r" and "CAPACITY \<le> ra_len a"
  shows "region_add r a = Inr (Inl TrackerFull, a)"
  using assms
  by (simp add: region_add_def virt_is_aligned_page mod_page_eq_0 region_ok_def insert_at_def Let_def)

lemma region_add_unaligned:
  assumes "\<not> (4096 dvd rlo r \<and> 4096 dvd unat (reg_size r))"
  shows "region_add r a = Inr (Inl RegionUnaligned, a)"
  using assms by (simp add: region_add_def virt_is_aligned_page mod_page_eq_0)

section \<open>First fit\<close>

definition fits :: "nat \<Rightarrow> nat \<Rightarrow> region \<Rightarrow> bool" where
  "fits n al r \<longleftrightarrow> round_up (rlo r) al + n \<le> rhi r"

lemma round_up_top:
  assumes "is_power_of_two (al :: usize)" and "2 ^ 64 \<le> n + (unat al - 1)"
  shows "2 ^ 64 \<le> round_up n (unat al)"
proof -
  obtain k where k: "k < 64" "unat al = 2 ^ k"
    using assms(1) by (auto elim: is_power_of_two_E)
  have top: "(2 ^ 64 :: nat) = 2 ^ (64 - k) * 2 ^ k"
    using k(1) by (simp flip: power_add)
  then have "2 ^ (64 - k) \<le> (n + (unat al - 1)) div 2 ^ k"
    using assms(2) by (simp add: less_eq_div_iff_mult_less_eq del: power_numeral)
  then have "2 ^ (64 - k) * 2 ^ k \<le> (n + (unat al - 1)) div 2 ^ k * 2 ^ k"
    by (rule mult_le_mono1)
  then show ?thesis
    by (simp only: round_up_def minus_mod_eq_div_mult k(2) top)
qed

lemma slot_fit_eq:
  assumes al: "is_power_of_two al" and r: "region_ok r"
  shows "slot_fit n al r = Inr (if fits (unat n) (unat al) r
    then Some (of_nat (round_up (rlo r) (unat al)), of_nat (round_up (rlo r) (unat al) - rlo r)) else None)"
proof -
  let ?b = "virt_as_usize (reg_base r)" and ?u = "round_up (rlo r) (unat al)"
  have pos: "0 < unat al"
    using al by auto
  have msk: "unat (al - 1) = unat al - 1"
    using pos by (subst unat_minus_one) auto
  have sub: "usub al 1 = Inr (al - 1)"
    using pos by (simp add: usub_def checked_sub_def word_le_nat_alt)
  have top: "rhi r < 2 ^ 64"
    using r by (simp add: region_ok_def)
  show ?thesis
  proof (cases "checked_add ?b (al - 1)")
    case None
    then have "2 ^ 64 \<le> ?u"
      by (intro round_up_top [OF al]) (simp add: unat_simps msk)
    then have "\<not> fits (unat n) (unat al) r"
      using top unfolding fits_def by linarith
    then show ?thesis
      by (simp add: slot_fit_def Let_def sub None)
  next
    case (Some t)
    then have t: "unat t = rlo r + (unat al - 1)"
      by (simp add: unat_simps msk)
    have u: "unat (t AND NOT (al - 1)) = ?u"
      by (simp add: unat_and_not_low al t round_up_def)
    then have u': "t AND NOT (al - 1) = of_nat ?u"
      by (simp flip: u)
    have le: "rlo r \<le> ?u"
      using pos by (rule round_up_bounds)
    have d: "usub (t AND NOT (al - 1)) ?b = Inr ((t AND NOT (al - 1)) - ?b)"
      "unat ((t AND NOT (al - 1)) - ?b) = ?u - rlo r"
      using le by (simp_all add: usub_def checked_sub_def word_le_nat_alt u unat_sub)
    then have d': "(t AND NOT (al - 1)) - ?b = of_nat (?u - rlo r)"
      by (simp flip: d(2))
    let ?p = "of_nat (?u - rlo r) :: usize"
    have p: "unat ?p = ?u - rlo r"
      using d(2) d' by simp
    show ?thesis
    proof (cases "checked_add ?p n")
      case None
      then have "2 ^ 64 \<le> ?u - rlo r + unat n"
        by (simp add: unat_simps p)
      then have "\<not> fits (unat n) (unat al) r"
        using top le unfolding fits_def by linarith
      then show ?thesis
        using Some None d(1) u' d' by (simp add: slot_fit_def Let_def sub)
    next
      case (Some w)
      then have "unat w = ?u - rlo r + unat n"
        by (simp add: unat_simps p)
      then have "w \<le> reg_size r \<longleftrightarrow> fits (unat n) (unat al) r"
        using le by (simp add: fits_def word_le_nat_alt) linarith
      then show ?thesis
        using \<open>checked_add ?b (al - 1) = Some t\<close> Some d(1) u' d' by (simp add: slot_fit_def Let_def sub)
    qed
  qed
qed

lemma find_fit_none:
  assumes "is_power_of_two al" and "\<forall>r \<in> set rs. region_ok r \<and> \<not> fits (unat n) (unat al) r"
  shows "find_fit i n al rs = Inr None"
  using assms(2) by (induction rs arbitrary: i) (simp_all add: slot_fit_eq [OF assms(1)])

lemma find_fit_first:
  assumes "is_power_of_two al" and "\<forall>r \<in> set xs. region_ok r \<and> \<not> fits (unat n) (unat al) r"
    and "region_ok s" and "fits (unat n) (unat al) s"
  shows "find_fit i n al (xs @ s # ys) = Inr (Some (i + length xs,
    of_nat (round_up (rlo s) (unat al)), of_nat (round_up (rlo s) (unat al) - rlo s)))"
  using assms(2) by (induction xs arbitrary: i) (simp_all add: slot_fit_eq [OF assms(1)] assms(3,4))

text \<open>What is left of a free region when an aligned run is cut out of it.\<close>

definition head_part :: "nat \<Rightarrow> region \<Rightarrow> region list" where
  "head_part u s = (if rlo s < u then [\<lparr>reg_base = reg_base s, reg_size = of_nat (u - rlo s)\<rparr>] else [])"

definition tail_part :: "nat \<Rightarrow> region \<Rightarrow> region list" where
  "tail_part e s = (if e < rhi s
     then [\<lparr>reg_base = VirtAddr (of_nat e), reg_size = of_nat (rhi s - e)\<rparr>] else [])"

lemma head_tail_part:
  assumes s: "region_ok s" and u: "rlo s \<le> u" "4096 dvd u" and e: "u \<le> e" "4096 dvd e" "e \<le> rhi s"
  shows "head_part u s = [] \<longleftrightarrow> u = rlo s" and "tail_part e s = [] \<longleftrightarrow> e = rhi s"
    and "\<forall>h \<in> set (head_part u s). region_ok h \<and> rlo h = rlo s \<and> rhi h = u"
    and "\<forall>t \<in> set (tail_part e s). region_ok t \<and> rlo t = e \<and> rhi t = rhi s"
    and "addrs s = cover (head_part u s) \<union> {u ..< e} \<union> cover (tail_part e s)"
proof -
  have top: "rhi s < 2 ^ 64" "4096 dvd rlo s" "4096 dvd rhi s"
    using s by (simp_all add: region_ok_def)
  have "u - rlo s < 2 ^ 64" "rhi s - e < 2 ^ 64" "e < 2 ^ 64"
    using top u e by linarith+
  then have n: "unat (of_nat (u - rlo s) :: usize) = u - rlo s" "unat (of_nat (rhi s - e) :: usize) = rhi s - e"
    "unat (of_nat e :: usize) = e"
    by (simp_all only: unat_of_nat_64)
  show "head_part u s = [] \<longleftrightarrow> u = rlo s" "tail_part e s = [] \<longleftrightarrow> e = rhi s"
    using u e by (auto simp: head_part_def tail_part_def)
  show h: "\<forall>h \<in> set (head_part u s). region_ok h \<and> rlo h = rlo s \<and> rhi h = u"
    using top u e by (auto simp: head_part_def region_ok_def n simp del: of_nat_diff)
  show t: "\<forall>t \<in> set (tail_part e s). region_ok t \<and> rlo t = e \<and> rhi t = rhi s"
    using top u e by (auto simp: tail_part_def region_ok_def n simp del: of_nat_diff)
  have "cover (head_part u s) = {rlo s ..< u}" "cover (tail_part e s) = {e ..< rhi s}"
    using u e by (auto simp: head_part_def tail_part_def addrs_def n simp del: of_nat_diff)
  then show "addrs s = cover (head_part u s) \<union> {u ..< e} \<union> cover (tail_part e s)"
    using u e by (auto simp: addrs_def)
qed

lemma sorted_head_tail: "sorted_wrt P (head_part u s)" "sorted_wrt P (tail_part e s)"
  by (simp_all add: head_part_def tail_part_def)

lemma normal_cut:
  assumes n: "normal (xs @ s # ys)" and u: "rlo s \<le> u" "4096 dvd u" and e: "u < e" "4096 dvd e" "e \<le> rhi s"
  shows "normal (xs @ head_part u s @ tail_part e s @ ys)"
    and "cover (xs @ head_part u s @ tail_part e s @ ys) = cover (xs @ s # ys) - {u ..< e}"
proof -
  have s: "region_ok s" "\<forall>x \<in> set xs. rhi x < rlo s" "\<forall>y \<in> set ys. rhi s < rlo y"
    using n by auto
  have ue: "u \<le> e"
    using e by simp
  note ht = head_tail_part [OF s(1) u ue e(2,3)]
  have one: "normal (head_part u s)" "normal (tail_part e s)"
    unfolding normal_def using ht(3,4) by (simp_all add: sorted_head_tail)
  have z: "rlo s \<le> rlo z \<and> rhi z \<le> rhi s" if "z \<in> set (head_part u s @ tail_part e s)" for z
    using that ht(3,4) u(1) e by auto
  have "\<forall>x \<in> set xs. \<forall>z \<in> set (head_part u s @ tail_part e s). rhi x < rlo z"
    using s(2) z less_le_trans by blast
  moreover have "\<forall>z \<in> set (head_part u s @ tail_part e s). \<forall>y \<in> set ys. rhi z < rlo y"
    using s(3) z le_less_trans by blast
  moreover have "\<forall>h \<in> set (head_part u s). \<forall>t \<in> set (tail_part e s). rhi h < rlo t"
    using ht(3,4) e(1) by metis
  ultimately show "normal (xs @ head_part u s @ tail_part e s @ ys)"
    using n one by auto
  have A: "x < rlo s" if "x \<in> cover xs" for x
    using that s(2) by (fastforce simp: cover_def addrs_def)
  have B: "rhi s < y" if "y \<in> cover ys" for y
    using that s(3) by (fastforce simp: cover_def addrs_def)
  have C: "x < u" if "x \<in> cover (head_part u s)" for x
    using that ht(3) by (auto simp: cover_def addrs_def)
  have D: "e \<le> x" if "x \<in> cover (tail_part e s)" for x
    using that ht(4) by (auto simp: cover_def addrs_def)
  have "x \<in> cover (xs @ head_part u s @ tail_part e s @ ys) \<longleftrightarrow> x \<in> cover (xs @ s # ys) - {u ..< e}" for x
    using A [of x] B [of x] C [of x] D [of x] u(1) e(3) by (auto simp: ht(5))
  then show "cover (xs @ head_part u s @ tail_part e s @ ys) = cover (xs @ s # ys) - {u ..< e}"
    by blast
qed

section \<open>Allocation\<close>

lemma insert_fragment_regs:
  assumes ok: "slots_ok a" and regs: "regs a = xs @ ys"
    and n: "0 < unat n" "4096 dvd unat n" "4096 dvd virt_nat v"
  shows "if ra_len a = CAPACITY
    then insert_fragment (length xs) v n a = Inl (Panic ''slot available after removal'')
    else \<exists>a'. insert_fragment (length xs) v n a = Inr a' \<and> slots_ok a' \<and>
      regs a' = xs @ \<lparr>reg_base = v, reg_size = n\<rparr> # ys"
proof (cases "ra_len a = CAPACITY")
  case True
  then show ?thesis
    by (simp add: insert_fragment_def insert_at_def region_new_ok [OF n(1,3,2)])
next
  case False
  then have "ra_len a < CAPACITY"
    using ok by (simp add: slots_ok_def)
  from insert_at_regs [OF ok regs this, of "\<lparr>reg_base = v, reg_size = n\<rparr>"] False show ?thesis
    by (auto simp: insert_fragment_def region_new_ok [OF n(1,3,2)])
qed

text \<open>The two leftovers of a cut, put back one after the other.\<close>

lemma insert_head:
  assumes ok: "slots_ok a" and regs: "regs a = xs @ ys" and room: "ra_len a < CAPACITY"
    and s: "region_ok s" "rlo s \<le> u" "4096 dvd u" "u \<le> rhi s" and p: "p = of_nat (u - rlo s)"
  shows "\<exists>a'. (if 0 < p then insert_fragment (length xs) (reg_base s) p a else Inr a) = Inr a' \<and>
    slots_ok a' \<and> regs a' = (xs @ head_part u s) @ ys \<and>
    length (xs @ head_part u s) = length xs + (if 0 < p then 1 else 0)"
proof -
  have "u - rlo s < 2 ^ 64"
    using s unfolding region_ok_def by linarith
  then have w: "unat p = u - rlo s"
    unfolding p by (rule unat_of_nat_64)
  have "4096 dvd rlo s" "4096 dvd unat p"
    using s by (simp_all add: region_ok_def w)
  with insert_fragment_regs [OF ok regs, of p "reg_base s"] ok regs room show ?thesis
    by (auto simp: word_less_nat_alt w head_part_def p [symmetric] simp del: of_nat_diff)
qed

lemma insert_tail:
  assumes ok: "slots_ok a" and regs: "regs a = xs @ ys"
    and s: "region_ok s" "e \<le> rhi s" "4096 dvd e" and q: "q = of_nat (rhi s - e)"
    and sum: "uadd b n = Inr (of_nat e)"
  shows "if ra_len a = CAPACITY \<and> e < rhi s
    then (if 0 < q then rbind (uadd b n) (\<lambda>t. insert_fragment (length xs) (virt_new_unchecked t) q a)
          else Inr a) = Inl (Panic ''slot available after removal'')
    else \<exists>a'. (if 0 < q then rbind (uadd b n) (\<lambda>t. insert_fragment (length xs) (virt_new_unchecked t) q a)
          else Inr a) = Inr a' \<and> slots_ok a' \<and> regs a' = xs @ tail_part e s @ ys"
proof -
  have "rhi s - e < 2 ^ 64" "e < 2 ^ 64"
    using s(1,2) unfolding region_ok_def by linarith+
  then have w: "unat q = rhi s - e" "unat (of_nat e :: usize) = e"
    unfolding q by (simp_all only: unat_of_nat_64)
  have "4096 dvd rhi s"
    using s by (simp add: region_ok_def)
  then have "4096 dvd unat q" "4096 dvd virt_nat (VirtAddr (of_nat e))"
    using s(3) by (simp_all add: w)
  with insert_fragment_regs [OF ok regs, of q "VirtAddr (of_nat e)"] ok regs show ?thesis
    by (auto simp: word_less_nat_alt w tail_part_def q [symmetric] sum virt_new_unchecked_def
        simp del: of_nat_diff)
qed

definition request_ok :: "usize \<Rightarrow> usize \<Rightarrow> bool" where
  "request_ok n al \<longleftrightarrow> 0 < unat n \<and> 4096 dvd unat n \<and> is_power_of_two al \<and> 4096 dvd unat al"

lemma request_ok_iff:
  "request_ok n al \<longleftrightarrow> n \<noteq> 0 \<and> n mod PAGE_SIZE = 0 \<and> is_power_of_two al \<and> al mod PAGE_SIZE = 0"
  by (auto simp: request_ok_def mod_page_eq_0 unat_gt_0)

lemma region_alloc_regs:
  assumes inv: "region_inv a" and req: "request_ok n al" and regs: "regs a = xs @ s # ys"
    and first: "\<forall>x \<in> set xs. \<not> fits (unat n) (unat al) x" and fit: "fits (unat n) (unat al) s"
    and u: "u = round_up (rlo s) (unat al)" and e: "e = u + unat n"
  shows "if ra_len a = CAPACITY \<and> rlo s < u \<and> e < rhi s
    then region_alloc n al a = Inl (Panic ''slot available after removal'')
    else \<exists>a'. region_alloc n al a = Inr (Inr \<lparr>reg_base = VirtAddr (of_nat u), reg_size = n\<rparr>, a') \<and>
      slots_ok a' \<and> regs a' = xs @ head_part u s @ tail_part e s @ ys"
proof -
  have ok: "slots_ok a" and nrm: "normal (xs @ s # ys)"
    using inv regs by (simp_all add: region_inv_def)
  have al: "is_power_of_two al" "0 < unat al" and n: "0 < unat n" "4096 dvd unat n"
    using req by (auto simp: request_ok_def)
  have s: "region_ok s" and xs: "\<forall>x \<in> set xs. region_ok x"
    using nrm normal_region_ok [OF nrm] by auto
  have u': "rlo s \<le> u" "4096 dvd u"
    using req round_up_bounds [OF al(2), of "rlo s"] by (auto simp: u request_ok_def intro: dvd_trans)
  have e': "e \<le> rhi s" "4096 dvd e" "u \<le> rhi s"
    using fit u'(2) n(2) by (simp_all add: fits_def e u)
  define p where "p = (of_nat (u - rlo s) :: usize)"
  define b where "b = (of_nat u :: usize)"
  have "rhi s < 2 ^ 64"
    using s by (simp add: region_ok_def)
  then have "u - rlo s < 2 ^ 64" "u < 2 ^ 64" "e < 2 ^ 64" "rhi s - e < 2 ^ 64"
    using e' by linarith+
  then have w: "unat p = u - rlo s" "unat b = u" "unat (of_nat e :: usize) = e"
    "unat (of_nat (rhi s - e) :: usize) = rhi s - e"
    unfolding p_def b_def by (simp_all only: unat_of_nat_64)
  define c where "c = reg_size s - p"
  have "unat p \<le> unat (reg_size s)"
    using w(1) e'(3) by linarith
  then have c: "usub (reg_size s) p = Inr c" "unat c = unat (reg_size s) - (u - rlo s)"
    by (simp_all add: usub_def checked_sub_def c_def word_le_nat_alt unat_sub w)
  have "unat c = rhi s - e + unat n"
    using c(2) u'(1) e'(1) e by linarith
  then have d: "usub c n = Inr (of_nat (rhi s - e))" "uadd b n = Inr (of_nat e)"
    unfolding usub_Inr uadd_Inr w using e by simp_all
  have find: "find_fit 0 n al (take (ra_len a) (slots a)) = Inr (Some (length xs, b, p))"
    using find_fit_first [OF al(1) _ s fit, of xs 0 ys] first xs regs by (simp add: regs_def b_def p_def u)
  obtain a1 where a1: "remove_at (length xs) a = Inr (s, a1)" "slots_ok a1" "regs a1 = xs @ ys"
    "Suc (ra_len a1) = ra_len a"
    using remove_at_regs [OF ok regs] by blast
  then have "ra_len a1 < CAPACITY"
    using ok by (simp add: slots_ok_def)
  then obtain a2 where a2: "(if 0 < p then insert_fragment (length xs) (reg_base s) p a1 else Inr a1) = Inr a2"
    "slots_ok a2" "regs a2 = (xs @ head_part u s) @ ys"
    "length (xs @ head_part u s) = length xs + (if 0 < p then 1 else 0)"
    using insert_head [OF a1(2,3) _ s u' e'(3) p_def] by blast
  have len: "ra_len a2 = CAPACITY \<longleftrightarrow> ra_len a = CAPACITY \<and> rlo s < u"
    using length_regs [OF a2(2)] length_regs [OF a1(2)] a1(3,4) a2(3) \<open>ra_len a1 < CAPACITY\<close>
    by (auto simp: head_part_def split: if_splits)
  have new: "region_new (virt_new_unchecked b) n = Inr \<lparr>reg_base = VirtAddr b, reg_size = n\<rparr>"
    using n u'(2) w(2) by (simp add: virt_new_unchecked_def region_new_ok)
  have "region_alloc n al a =
      rbind (if 0 < (of_nat (rhi s - e) :: usize) then rbind (uadd b n) (\<lambda>t.
               insert_fragment (length (xs @ head_part u s)) (virt_new_unchecked t) (of_nat (rhi s - e)) a2)
             else Inr a2) (\<lambda>a. Inr (Inr \<lparr>reg_base = VirtAddr b, reg_size = n\<rparr>, a))"
    unfolding region_alloc_def find a2(4) using req a1(1) a2(1) c(1) d(1) new
    by (simp add: request_ok_iff del: of_nat_diff)
  then show ?thesis
    using insert_tail [OF a2(2,3) s e'(1,2) refl d(2)] len unfolding b_def
    by (auto simp del: of_nat_diff)
qed

lemma region_alloc_success:
  assumes inv: "region_inv a" and req: "request_ok n al" and regs: "regs a = xs @ s # ys"
    and first: "\<forall>x \<in> set xs. \<not> fits (unat n) (unat al) x" and fit: "fits (unat n) (unat al) s"
    and a': "region_alloc n al a = Inr (res, a')"
  shows "\<exists>r. res = Inr r \<and> region_inv a' \<and> region_ok r \<and> reg_size r = n \<and>
    rlo r = round_up (rlo s) (unat al) \<and> addrs r \<subseteq> free_addrs a \<and>
    free_addrs a' = free_addrs a - addrs r"
proof -
  let ?u = "round_up (rlo s) (unat al)"
  let ?e = "?u + unat n" and ?r = "\<lparr>reg_base = VirtAddr (of_nat ?u), reg_size = n\<rparr>"
  have "res = Inr ?r" and ok: "slots_ok a'" and regs': "regs a' = xs @ head_part ?u s @ tail_part ?e s @ ys"
    using region_alloc_regs [OF inv req regs first fit refl refl] a' by (auto split: if_splits)
  have nrm: "normal (xs @ s # ys)"
    using inv regs by (simp add: region_inv_def)
  then have s: "rhi s < 2 ^ 64"
    using normal_region_ok [OF nrm, of s] by (simp add: region_ok_def)
  have pos: "0 < unat al" "0 < unat n" "4096 dvd unat n"
    using req by (auto simp: request_ok_def)
  have u: "rlo s \<le> ?u" "4096 dvd ?u"
    using req round_up_bounds [OF pos(1), of "rlo s"] by (auto simp: request_ok_def intro: dvd_trans)
  have e: "?e \<le> rhi s" "?u < ?e" "4096 dvd ?e"
    using fit pos u by (simp_all add: fits_def)
  have r: "rlo ?r = ?u"
    using e(1) s by (simp add: unat_of_nat_64)
  then have ar: "addrs ?r = {?u ..< ?e}"
    by (simp add: addrs_def)
  have "{?u ..< ?e} \<subseteq> addrs s"
    using u(1) e(1) by (auto simp: addrs_def)
  then have "addrs ?r \<subseteq> free_addrs a"
    by (auto simp: free_addrs_def regs ar)
  moreover have "region_ok ?r"
    using u e s pos r unfolding region_ok_def by simp
  moreover have "region_inv a'" "free_addrs a' = free_addrs a - addrs ?r"
    using normal_cut [OF nrm u e(2,3,1)] ok by (simp_all add: region_inv_def regs' free_addrs_def regs ar)
  ultimately show ?thesis
    using \<open>res = Inr ?r\<close> r by auto
qed

lemma first_fit_split:
  assumes "r \<in> set rs" and "P r"
  obtains xs s ys where "rs = xs @ s # ys" "\<forall>x \<in> set xs. \<not> P x" "P s"
  using assms split_list_first_prop [of rs P] by blast

lemma region_alloc_none:
  assumes "region_inv a" and req: "request_ok n al" and none: "\<forall>x \<in> set (regs a). \<not> fits (unat n) (unat al) x"
  shows "region_alloc n al a = Inr (Inl OutOfVirtualMemory, a)"
proof -
  have "\<forall>x \<in> set (regs a). region_ok x"
    using assms(1) normal_region_ok by (auto simp: region_inv_def)
  then have "find_fit 0 n al (regs a) = Inr None"
    using req none by (intro find_fit_none) (auto simp: request_ok_def)
  then show ?thesis
    using req by (simp add: region_alloc_def regs_def request_ok_iff)
qed

lemma region_alloc_bad_request:
  assumes "\<not> request_ok n al"
  shows "region_alloc n al a = Inr (Inl RegionUnaligned, a)"
proof -
  consider "n = 0 \<or> n mod PAGE_SIZE \<noteq> 0"
    | "\<not> (n = 0 \<or> n mod PAGE_SIZE \<noteq> 0)" "\<not> is_power_of_two al \<or> al mod PAGE_SIZE \<noteq> 0"
    using assms unfolding request_ok_iff by argo
  then show ?thesis
    by cases (simp_all add: region_alloc_def)
qed

text \<open>A region has room for the request exactly when it contains a suitably aligned run.\<close>

lemma fits_iff:
  assumes "0 < al" and "0 < n"
  shows "fits n al r \<longleftrightarrow> (\<exists>b. al dvd b \<and> {b ..< b + n} \<subseteq> addrs r)"
proof
  assume "fits n al r"
  then show "\<exists>b. al dvd b \<and> {b ..< b + n} \<subseteq> addrs r"
    using round_up_bounds [OF assms(1), of "rlo r"]
    by (intro exI [of _ "round_up (rlo r) al"]) (auto simp: fits_def addrs_def)
next
  assume "\<exists>b. al dvd b \<and> {b ..< b + n} \<subseteq> addrs r"
  then obtain b where b: "al dvd b" "{b ..< b + n} \<subseteq> addrs r"
    by blast
  then have "b \<in> addrs r" "b + n - 1 \<in> addrs r"
    using assms(2) by (auto intro!: subsetD [OF b(2)])
  then show "fits n al r"
    using round_up_least [OF assms(1) b(1), of "rlo r"] assms(2)
    unfolding fits_def addrs_def atLeastLessThan_iff by linarith
qed

lemma free_run_fits:
  assumes "region_inv a" and "0 < al" and "0 < n" and "al dvd b" and "{b ..< b + n} \<subseteq> free_addrs a"
  shows "\<exists>r \<in> set (regs a). fits n al r \<and> {b ..< b + n} \<subseteq> addrs r"
  using assms cover_run [of "regs a" n b] fits_iff [of al n]
  by (auto simp: region_inv_def free_addrs_def)

section \<open>The contract of an address allocator\<close>

text \<open>
  What a client of \<open>alloc\<close> and \<open>free\<close> relies on. \<open>avail\<close> is the set of free addresses.
\<close>

locale address_allocator =
  fixes ok :: "'s \<Rightarrow> bool"
    and avail :: "'s \<Rightarrow> nat set"
    and alloc :: "usize \<Rightarrow> usize \<Rightarrow> 's \<Rightarrow> ((region_error + region) \<times> 's) res"
    and dealloc :: "region \<Rightarrow> 's \<Rightarrow> ((region_error + unit) \<times> 's) res"
  assumes alloc_ok: "ok s \<Longrightarrow> alloc n al s = Inr (Inr r, s') \<Longrightarrow>
      ok s' \<and> region_ok r \<and> reg_size r = n \<and> unat al dvd rlo r \<and> addrs r \<subseteq> avail s \<and>
      avail s' = avail s - addrs r"
    and alloc_err: "ok s \<Longrightarrow> alloc n al s = Inr (Inl e, s') \<Longrightarrow> s' = s"
    and dealloc_ok: "ok s \<Longrightarrow> region_ok r \<Longrightarrow> addrs r \<inter> avail s = {} \<Longrightarrow>
      dealloc r s = Inr (Inr (), s') \<Longrightarrow> ok s' \<and> avail s' = avail s \<union> addrs r"
    and dealloc_err: "ok s \<Longrightarrow> dealloc r s = Inr (Inl e, s') \<Longrightarrow> s' = s"

sublocale address_allocator \<subseteq> ranges: range_allocator ok avail addrs region_ok
  "\<lambda>s r s'. \<exists>n al. alloc n al s = Inr (Inr r, s')" "\<lambda>s r s'. dealloc r s = Inr (Inr (), s')"
  by unfold_locales (use alloc_ok dealloc_ok in blast)+

interpretation ra: address_allocator region_inv free_addrs region_alloc region_free
proof
  fix a a' r e n al
  assume inv: "region_inv a"
  show "region_inv a' \<and> region_ok r \<and> reg_size r = n \<and> unat al dvd rlo r \<and>
      addrs r \<subseteq> free_addrs a \<and> free_addrs a' = free_addrs a - addrs r"
    if run: "region_alloc n al a = Inr (Inr r, a')"
  proof -
    have req: "request_ok n al"
      using region_alloc_bad_request run by fastforce
    then obtain s where "s \<in> set (regs a)" "fits (unat n) (unat al) s"
      using region_alloc_none [OF inv] run by fastforce
    then obtain xs s ys where s: "regs a = xs @ s # ys" "\<forall>x \<in> set xs. \<not> fits (unat n) (unat al) x"
      "fits (unat n) (unat al) s"
      by (rule first_fit_split)
    have "unat al dvd round_up (rlo s) (unat al)"
      using req by (intro round_up_bounds) (auto simp: request_ok_def)
    then show ?thesis
      using region_alloc_success [OF inv req s run] by auto
  qed
  show "a' = a" if run: "region_alloc n al a = Inr (Inl e, a')"
  proof (cases "request_ok n al \<and> (\<exists>s \<in> set (regs a). fits (unat n) (unat al) s)")
    case True
    then obtain s where "s \<in> set (regs a)" "fits (unat n) (unat al) s"
      by blast
    then obtain xs s ys where s: "regs a = xs @ s # ys" "\<forall>x \<in> set xs. \<not> fits (unat n) (unat al) x"
      "fits (unat n) (unat al) s"
      by (rule first_fit_split)
    then show ?thesis
      using region_alloc_success [OF inv _ s run] True by auto
  next
    case False
    then show ?thesis
      using region_alloc_none [OF inv] region_alloc_bad_request run by fastforce
  qed
  show "region_inv a' \<and> free_addrs a' = free_addrs a \<union> addrs r"
    if "region_ok r" "addrs r \<inter> free_addrs a = {}" "region_free r a = Inr (Inr (), a')"
    using region_add_regs [OF inv that(1,2)] region_add_full [OF that(1)] that(3)
    by (cases "ra_len a < CAPACITY") (auto simp: region_free_def not_less)
  show "a' = a" if "region_free r a = Inr (Inl e, a')"
    using that by (auto simp: region_free_def region_add_def insert_at_def Let_def virt_is_aligned_page
        rbind_Inr_iff split: if_splits sum.splits) (metis old.unit.exhaust sum.exhaust)
qed

section \<open>Properties\<close>

lemma preloaded_regs:
  assumes "4096 dvd unat lo" and "4096 dvd unat hi" and "unat lo < unat hi"
  shows "\<exists>ra. preloaded lo hi msg = Inr ra \<and> region_inv ra \<and> free_addrs ra = {unat lo ..< unat hi} \<and>
    ra_len ra < 2"
proof -
  have d: "unat (hi - lo) = unat hi - unat lo" "usub hi lo = Inr (hi - lo)"
    using assms(3) by (simp_all add: unat_sub word_le_nat_alt usub_def checked_sub_def)
  let ?r = "\<lparr>reg_base = VirtAddr lo, reg_size = hi - lo\<rparr>"
  have ok: "slots_ok region_allocator_new" and e: "regs region_allocator_new = [] @ []"
    by (simp_all add: region_allocator_new_def slots_ok_def regs_def)
  have r: "region_new (VirtAddr lo) (hi - lo) = Inr ?r"
    using assms by (intro region_new_ok) (simp_all add: d)
  have "region_ok ?r"
    using assms unat_bound [of hi] by (simp add: region_ok_def d)
  obtain a where a: "insert_at 0 ?r region_allocator_new = Inr (Inr (), a)" "slots_ok a" "regs a = [?r]"
    "ra_len a = 1"
    using insert_at_regs [OF ok e, of ?r] by (auto simp: region_allocator_new_def CAPACITY_def)
  have "try_merge_at 0 a = Inr a"
    by (simp add: try_merge_at_def merge_right_def merge_left_def a(4))
  then have "preloaded lo hi msg = Inr a"
    using assms a(1) by (simp add: preloaded_def d r virt_new_unchecked_def region_add_def
        virt_is_aligned_page mod_page_eq_0 Let_def partition_point_def region_allocator_new_def)
  then show ?thesis
    using a \<open>region_ok ?r\<close> assms(3) by (auto simp: region_inv_def free_addrs_def addrs_def d)
qed

text \<open>
  C10. While the slot array has room, an allocation succeeds exactly when the free
  addresses contain an aligned run of the requested size. It returns the lowest such run,
  removes exactly it from the free addresses and keeps the invariant; otherwise nothing
  changes and the error is \<open>OutOfVirtualMemory\<close>.
\<close>

theorem region_alloc_correct:
  assumes inv: "region_inv a" and room: "ra_len a < CAPACITY" and req: "request_ok n al"
  shows "if \<exists>b. unat al dvd b \<and> {b ..< b + unat n} \<subseteq> free_addrs a
    then \<exists>r a'. region_alloc n al a = Inr (Inr r, a') \<and> region_inv a' \<and> reg_size r = n \<and>
      unat al dvd rlo r \<and> addrs r \<subseteq> free_addrs a \<and> free_addrs a' = free_addrs a - addrs r \<and>
      (\<forall>b. unat al dvd b \<and> {b ..< b + unat n} \<subseteq> free_addrs a \<longrightarrow> rlo r \<le> b)
    else region_alloc n al a = Inr (Inl OutOfVirtualMemory, a)"
proof -
  have pos: "0 < unat al" "0 < unat n"
    using req by (auto simp: request_ok_def)
  show ?thesis
  proof (cases "\<exists>s \<in> set (regs a). fits (unat n) (unat al) s")
    case False
    then have "region_alloc n al a = Inr (Inl OutOfVirtualMemory, a)"
      using region_alloc_none [OF inv req] by blast
    moreover have "\<nexists>b. unat al dvd b \<and> {b ..< b + unat n} \<subseteq> free_addrs a"
      using False free_run_fits [OF inv pos] by blast
    ultimately show ?thesis
      by simp
  next
    case True
    then obtain s where "s \<in> set (regs a)" "fits (unat n) (unat al) s"
      by blast
    then obtain xs s ys where s: "regs a = xs @ s # ys" "\<forall>x \<in> set xs. \<not> fits (unat n) (unat al) x"
      "fits (unat n) (unat al) s"
      by (rule first_fit_split)
    have "\<exists>a'. region_alloc n al a = Inr
        (Inr \<lparr>reg_base = VirtAddr (of_nat (round_up (rlo s) (unat al))), reg_size = n\<rparr>, a')"
      using region_alloc_regs [OF inv req s refl refl] room by auto
    then obtain r a' where r: "region_alloc n al a = Inr (Inr r, a')" "region_inv a'" "reg_size r = n"
      "rlo r = round_up (rlo s) (unat al)" "addrs r \<subseteq> free_addrs a" "free_addrs a' = free_addrs a - addrs r"
      using region_alloc_success [OF inv req s] by blast
    have al: "unat al dvd rlo r"
      unfolding r(4) by (rule round_up_bounds [OF pos(1)])
    have "rlo r \<le> b" if b: "unat al dvd b" "{b ..< b + unat n} \<subseteq> free_addrs a" for b
    proof -
      obtain t where t: "t \<in> set (regs a)" "fits (unat n) (unat al) t" "{b ..< b + unat n} \<subseteq> addrs t"
        using free_run_fits [OF inv pos b] by blast
      then have "t \<in> set (s # ys)" "rlo t \<le> b"
        using s(1,2) pos(2) by (auto simp: addrs_def subset_iff)
      moreover have "round_up (rlo s) (unat al) \<le> rlo t" if "t \<in> set ys"
        using inv s(1,3) that by (fastforce simp: region_inv_def fits_def)
      ultimately show ?thesis
        using round_up_least [OF pos(1) b(1), of "rlo s"] r(4) by fastforce
    qed
    moreover have "{rlo r ..< rlo r + unat n} \<subseteq> free_addrs a"
      using r(3,5) by (simp add: addrs_def)
    ultimately show ?thesis
      using r al by auto
  qed
qed

theorem region_alloc_correct_witness:
  "\<exists>ra r a'. preloaded 8192 65536 [] = Inr ra \<and> region_alloc 4096 16384 ra = Inr (Inr r, a') \<and>
     16384 dvd rlo r \<and> free_addrs a' = {8192 ..< 65536} - addrs r"
proof -
  obtain ra where ra: "preloaded 8192 65536 [] = Inr ra" "region_inv ra" "free_addrs ra = {8192 ..< 65536}"
    "ra_len ra < 2"
    using preloaded_regs [of 8192 65536 "[]"] by auto
  have "ra_len ra < CAPACITY" "request_ok 4096 16384"
    using ra(4) is_power_of_two_power [of 14, where 'a = 64] by (simp_all add: CAPACITY_def request_ok_def)
  note alloc = region_alloc_correct [OF ra(2) this]
  have "16384 dvd (16384 :: nat)" "{16384 ..< 16384 + 4096} \<subseteq> free_addrs ra"
    unfolding ra(3) by auto
  then have "\<exists>b. unat (16384 :: usize) dvd b \<and> {b ..< b + unat (4096 :: usize)} \<subseteq> free_addrs ra"
    by (intro exI [of _ 16384]) simp
  with alloc ra(1,3) show ?thesis
    by auto
qed


lemma alloc_first:
  assumes inv: "region_inv a" and fr: "free_addrs a = {b ..< e}" and be: "4096 dvd b" "4096 dvd e" "e < 2 ^ 64"
    and req: "request_ok n al" and fit: "unat al dvd b" "b + unat n \<le> e"
  shows "\<exists>a'. region_alloc n al a = Inr (Inr \<lparr>reg_base = VirtAddr (of_nat b), reg_size = n\<rparr>, a') \<and> ra_len a' < 2"
proof -
  let ?s = "\<lparr>reg_base = VirtAddr (of_nat b), reg_size = of_nat (e - b)\<rparr>"
  have al: "0 < unat al" "0 < unat n"
    using req by (auto simp: request_ok_def)
  have s: "rlo ?s = b" "unat (reg_size ?s) = e - b"
    using fit(2) be(3) al(2) by (simp_all add: unat_of_nat_64 del: of_nat_diff)
  have "region_ok ?s"
    unfolding region_ok_def s using be fit(2) al(2) by (simp add: dvd_diff_nat)
  then have "normal [?s]" "cover [?s] = {b ..< e}"
    using fit(2) al(2) unfolding cover_simps addrs_def s by simp_all
  then have regs: "regs a = [] @ ?s # []"
    using inv fr by (simp add: region_inv_def free_addrs_def normal_unique)
  have u: "b = round_up (rlo ?s) (unat al)"
    unfolding s using al(1) fit(1) by simp
  then have "fits (unat n) (unat al) ?s"
    unfolding fits_def s using fit(2) by simp
  from region_alloc_regs [OF inv req regs _ this u refl] obtain a' where
    a': "region_alloc n al a = Inr (Inr \<lparr>reg_base = VirtAddr (of_nat b), reg_size = n\<rparr>, a')" "slots_ok a'"
      "regs a' = head_part b ?s @ tail_part (b + unat n) ?s"
    unfolding s by auto
  then have "ra_len a' < 2"
    using length_regs [OF a'(2)] unfolding a'(3) head_part_def tail_part_def s by (simp split: if_splits)
  with a'(1) show ?thesis
    by blast
qed

lemma page_request: "request_ok 4096 4096"
  using is_power_of_two_power [of 12, where 'a = 64] by (simp add: request_ok_def)

lemma small_alloc:
  obtains ra r a' where "preloaded 8192 65536 [] = Inr ra" "region_inv ra"
    "free_addrs ra = {8192 ..< 65536}" "region_alloc 4096 4096 ra = Inr (Inr r, a')" "ra_len a' < CAPACITY"
proof -
  obtain ra where ra: "preloaded 8192 65536 [] = Inr ra" "region_inv ra" "free_addrs ra = {8192 ..< 65536}"
    using preloaded_regs [of 8192 65536 "[]"] by auto
  show thesis
    using alloc_first [OF ra(2,3) _ _ _ page_request] that ra by (auto simp: CAPACITY_def)
qed


text \<open>
  C12. In every state a client can reach, the regions it holds are pairwise disjoint, none
  of them meets the free addresses, and together with the free addresses they are exactly
  the addresses the allocator started with.
\<close>

theorem region_clients_disjoint:
  assumes "range_reach (\<lambda>a r a'. \<exists>n al. region_alloc n al a = Inr (Inr r, a'))
      (\<lambda>a r a'. region_free r a = Inr (Inr (), a')) a0 rs a"
    and "region_inv a0"
  shows "region_inv a \<and> sorted_wrt (\<lambda>r t. addrs r \<inter> addrs t = {}) rs \<and>
    cover rs \<inter> free_addrs a = {} \<and> cover rs \<union> free_addrs a = free_addrs a0"
  using ra.ranges.reach_inv [OF assms] by (simp add: cover_def)

theorem region_clients_disjoint_witness:
  "\<exists>ra r a'. preloaded 8192 65536 [] = Inr ra \<and>
     range_reach (\<lambda>a r a'. \<exists>n al. region_alloc n al a = Inr (Inr r, a'))
       (\<lambda>a r a'. region_free r a = Inr (Inr (), a')) ra [r] a' \<and>
     addrs r \<union> free_addrs a' = {8192 ..< 65536}"
proof -
  obtain ra r a' where *: "preloaded 8192 65536 [] = Inr ra" "region_inv ra"
    "free_addrs ra = {8192 ..< 65536}" "region_alloc 4096 4096 ra = Inr (Inr r, a')"
    by (rule small_alloc)
  have "range_reach (\<lambda>a r a'. \<exists>n al. region_alloc n al a = Inr (Inr r, a'))
      (\<lambda>a r a'. region_free r a = Inr (Inr (), a')) ra [r] a'"
    by (rule reach_take [OF reach_start]) (use *(4) in blast)
  then show ?thesis
    using region_clients_disjoint [OF _ *(2), of "[r]" a'] *(1,3) by auto
qed

text \<open>
  C13. Registering a page-aligned region that is disjoint from the free addresses adds
  exactly its addresses and keeps the invariant if a slot is left. If the array is full
  the call is refused and nothing changes, even where the region touches a tracked one.
\<close>

theorem region_free_correct:
  assumes "region_inv a" and "region_ok r" and "addrs r \<inter> free_addrs a = {}"
  shows "if ra_len a < CAPACITY
    then \<exists>a'. region_free r a = Inr (Inr (), a') \<and> region_inv a' \<and> free_addrs a' = free_addrs a \<union> addrs r
    else region_free r a = Inr (Inl TrackerFull, a)"
  using region_add_regs [OF assms] region_add_full [OF assms(2)] by (simp add: region_free_def)

theorem region_free_correct_witness:
  "\<exists>a'. region_free \<lparr>reg_base = VirtAddr 8192, reg_size = 4096\<rparr> region_allocator_new = Inr (Inr (), a') \<and>
     free_addrs a' = {8192 ..< 12288}"
proof -
  have "region_inv region_allocator_new" "free_addrs region_allocator_new = {}"
    "ra_len region_allocator_new < CAPACITY"
    by (simp_all add: region_inv_def slots_ok_def regs_def free_addrs_def region_allocator_new_def CAPACITY_def)
  then show ?thesis
    using region_free_correct [of region_allocator_new "\<lparr>reg_base = VirtAddr 8192, reg_size = 4096\<rparr>"]
    by (auto simp: region_ok_def addrs_def)
qed

lemma sum_sizes_eq:
  assumes "unat acc + (\<Sum>r \<leftarrow> rs. unat (reg_size r)) < 2 ^ 64"
  shows "\<exists>n. sum_sizes acc rs = Inr n \<and> unat n = unat acc + (\<Sum>r \<leftarrow> rs. unat (reg_size r))"
  using assms
proof (induction rs arbitrary: acc)
  case (Cons r rs)
  have "uadd acc (reg_size r) = Inr (acc + reg_size r)" "unat (acc + reg_size r) = unat acc + unat (reg_size r)"
    using Cons.prems by (simp_all add: uadd_def checked_add_def unat_plus_if')
  with Cons.IH [of "acc + reg_size r"] Cons.prems show ?case
    by (simp add: add.assoc)
qed simp

text \<open>
  C15. The sum of the tracked sizes never overflows and is the number of free addresses.
\<close>

theorem region_free_bytes_correct:
  assumes "region_inv a"
  shows "\<exists>n. region_free_bytes a = Inr n \<and> unat n = card (free_addrs a)"
proof -
  have n: "normal (regs a)"
    using assms by (simp add: region_inv_def)
  have "x < 2 ^ 64 - 1" if "x \<in> free_addrs a" for x
    using that normal_region_ok [OF n] by (fastforce simp: free_addrs_def cover_def addrs_def region_ok_def)
  then have "free_addrs a \<subseteq> {..< 2 ^ 64 - 1}"
    by blast
  then have "card (free_addrs a) \<le> 2 ^ 64 - 1"
    by (metis card_lessThan card_mono finite_lessThan)
  then have "card (cover (regs a)) < 2 ^ 64"
    by (simp add: free_addrs_def)
  then show ?thesis
    using sum_sizes_eq [of 0 "regs a"] sum_addrs [OF n]
    by (simp add: region_free_bytes_def regs_def free_addrs_def)
qed

theorem region_free_bytes_correct_witness:
  "\<exists>ra n. preloaded 8192 65536 [] = Inr ra \<and> region_free_bytes ra = Inr n \<and> unat n = 57344"
proof -
  obtain ra where ra: "preloaded 8192 65536 [] = Inr ra" "region_inv ra" "free_addrs ra = {8192 ..< 65536}"
    using preloaded_regs [of 8192 65536 "[]"] by auto
  then show ?thesis
    using region_free_bytes_correct [OF ra(2)] by simp
qed

lemma is_canonical_high:
  assumes "unat (0xffff800000000000 :: usize) \<le> unat w"
  shows "is_canonical w"
proof -
  have "unat (drop_bit 47 w) = unat w div 2 ^ 47"
    by (simp add: drop_bit_eq_div unat_div)
  moreover have "131071 \<le> unat w div 2 ^ 47" "unat w div 2 ^ 47 < 131072"
    using assms unat_bound [of w] by (simp_all add: less_eq_div_iff_mult_less_eq div_less_iff_less_mult)
  ultimately have "unat (drop_bit 47 w) = unat (131071 :: usize)"
    by simp
  then show ?thesis
    by (simp add: is_canonical_def Let_def word_eq_unat push_bit_eq_mult)
qed

lemma kernel_pools:
  obtains heap vm where "heap_region_allocator = Inr heap" "region_inv heap"
    "free_addrs heap = {unat HEAP_START ..< unat HEAP_END}" "ra_len heap < 2"
    "kernel_vm_region_allocator = Inr vm" "region_inv vm"
    "free_addrs vm = {unat KERNEL_VM_START ..< unat KERNEL_VM_END}" "ra_len vm < 2"
proof -
  obtain heap where "heap_region_allocator = Inr heap" "region_inv heap"
    "free_addrs heap = {unat HEAP_START ..< unat HEAP_END}" "ra_len heap < 2"
    using preloaded_regs [of HEAP_START HEAP_END] unfolding heap_region_allocator_def
    by (auto simp: HEAP_START_def HEAP_END_def)
  moreover obtain vm where "kernel_vm_region_allocator = Inr vm" "region_inv vm"
    "free_addrs vm = {unat KERNEL_VM_START ..< unat KERNEL_VM_END}" "ra_len vm < 2"
    using preloaded_regs [of KERNEL_VM_START KERNEL_VM_END] unfolding kernel_vm_region_allocator_def
    by (auto simp: KERNEL_VM_START_def KERNEL_VM_END_def)
  ultimately show thesis
    by (rule that)
qed

text \<open>
  C16. The two preloaded allocators start with the whole heap range and the whole kernel
  virtual memory range free. The ranges are canonical and do not overlap.
\<close>

theorem kernel_layout:
  "\<exists>heap vm. heap_region_allocator = Inr heap \<and> kernel_vm_region_allocator = Inr vm \<and>
     region_inv heap \<and> region_inv vm \<and>
     free_addrs heap = {unat HEAP_START ..< unat HEAP_END} \<and>
     free_addrs vm = {unat KERNEL_VM_START ..< unat KERNEL_VM_END} \<and>
     free_addrs heap \<inter> free_addrs vm = {} \<and>
     (\<forall>v. (is_heap_addr v \<longleftrightarrow> virt_nat v \<in> free_addrs heap) \<and>
          (is_kernel_vm_addr v \<longleftrightarrow> virt_nat v \<in> free_addrs vm)) \<and>
     {v. virt_nat v \<in> free_addrs heap \<union> free_addrs vm} \<subseteq> {v. virt_is_canonical_addr v}"
proof -
  obtain heap vm where h: "heap_region_allocator = Inr heap" "region_inv heap"
    "free_addrs heap = {unat HEAP_START ..< unat HEAP_END}"
    and v: "kernel_vm_region_allocator = Inr vm" "region_inv vm"
    "free_addrs vm = {unat KERNEL_VM_START ..< unat KERNEL_VM_END}"
    by (rule kernel_pools)
  have "virt_is_canonical_addr x" if "virt_nat x \<in> free_addrs heap \<union> free_addrs vm" for x
    using that is_canonical_high [of "virt_as_usize x"] unfolding h(3) v(3)
    by (auto simp: virt_is_canonical_addr_def HEAP_START_def KERNEL_VM_START_def)
  moreover have "free_addrs heap \<inter> free_addrs vm = {}"
    unfolding h(3) v(3) by (auto simp: HEAP_END_def KERNEL_VM_START_def)
  moreover have "is_heap_addr w \<longleftrightarrow> virt_nat w \<in> free_addrs heap"
    "is_kernel_vm_addr w \<longleftrightarrow> virt_nat w \<in> free_addrs vm" for w
    unfolding h(3) v(3)
    by (simp_all add: is_heap_addr_def is_kernel_vm_addr_def word_le_nat_alt word_less_nat_alt)
  ultimately show ?thesis
    using h v by blast
qed

text \<open>
  C14. When all slots are in use, an allocation whose first fitting region would be cut in
  the middle panics: removing the region frees one slot and its two leftovers need two.
\<close>

theorem region_alloc_full_panics:
  assumes "region_inv a" and "ra_len a = CAPACITY" and "request_ok n al"
    and "regs a = xs @ s # ys" and "\<forall>x \<in> set xs. \<not> fits (unat n) (unat al) x"
    and "rlo s < round_up (rlo s) (unat al)" and "round_up (rlo s) (unat al) + unat n < rhi s"
  shows "region_alloc n al a = Inl (Panic ''slot available after removal'')"
  using region_alloc_regs [OF assms(1,3,4,5) _ refl refl] assms(2,6,7) by (simp add: fits_def)

definition full_slots :: "region list" where
  "full_slots = map (\<lambda>i. \<lparr>reg_base = VirtAddr (of_nat (i * 32768 + 4096)), reg_size = 12288\<rparr>) [0 ..< CAPACITY]"

lemma full_slots_nth:
  assumes "i < CAPACITY"
  shows "rlo (full_slots ! i) = i * 32768 + 4096" and "reg_size (full_slots ! i) = 12288"
proof -
  have "i * 32768 + 4096 < 2 ^ 64"
    using assms by (simp add: CAPACITY_def)
  then have "unat (of_nat (i * 32768 + 4096) :: usize) = i * 32768 + 4096"
    by (rule unat_of_nat_64)
  then show "rlo (full_slots ! i) = i * 32768 + 4096" "reg_size (full_slots ! i) = 12288"
    using assms by (simp_all add: full_slots_def del: of_nat_add of_nat_mult)
qed

lemma length_full_slots: "length full_slots = CAPACITY"
  by (simp add: full_slots_def)

lemma full_slots_inv:
  "region_inv \<lparr>slots = full_slots, ra_len = CAPACITY\<rparr>"
  "regs \<lparr>slots = full_slots, ra_len = CAPACITY\<rparr> = [] @ full_slots ! 0 # tl full_slots"
proof -
  have "region_ok r" if r: "r \<in> set full_slots" for r
  proof -
    obtain i where i: "i < CAPACITY" "r = full_slots ! i"
      using r length_full_slots by (auto simp: in_set_conv_nth)
    then show ?thesis
      using full_slots_nth [OF i(1)] by (simp add: region_ok_def CAPACITY_def)
  qed
  moreover have "sorted_wrt (\<lambda>r s. rhi r < rlo s) full_slots"
    unfolding sorted_wrt_iff_nth_less length_full_slots using full_slots_nth by auto
  ultimately show "region_inv \<lparr>slots = full_slots, ra_len = CAPACITY\<rparr>"
    by (simp add: region_inv_def slots_ok_def regs_def length_full_slots normal_def)
  have "full_slots \<noteq> []"
    using length_full_slots by (auto simp: CAPACITY_def)
  then show "regs \<lparr>slots = full_slots, ra_len = CAPACITY\<rparr> = [] @ full_slots ! 0 # tl full_slots"
    by (simp add: regs_def length_full_slots hd_conv_nth [symmetric])
qed

theorem region_alloc_full_panics_witness:
  "region_alloc 4096 8192 \<lparr>slots = full_slots, ra_len = CAPACITY\<rparr> =
     Inl (Panic ''slot available after removal'')"
proof -
  have "request_ok 4096 8192"
    using is_power_of_two_power [of 13, where 'a = 64] by (simp add: request_ok_def)
  then show ?thesis
    using region_alloc_full_panics [OF full_slots_inv(1) _ _ full_slots_inv(2), of 4096 8192]
      full_slots_nth [of 0] by (simp add: round_up_def CAPACITY_def)
qed

end
