(* ===== verification/Heap.thy ===== *)
theory Heap
  imports Addr Intervals
begin

text \<open>
  The kernel heap (\<open>eira/src/mm/heap.rs\<close>): a first-fit, coalescing allocator whose free list
  is threaded through the free memory itself. A \<open>FreeBlock\<close> at address \<open>a\<close> is the cell \<open>a\<close>
  (its size) and the cell \<open>a + 8\<close> (the address of the next block); \<open>Option<NonNull<_>>\<close> has
  the null pointer for \<open>None\<close>, so pointers are words and \<open>0\<close> is \<open>None\<close>.

  The loops follow pointers through memory and end only on a list that ends, so they are
  partial functions: \<open>None\<close> is a loop that never returns.
\<close>

section \<open>Blocks, statistics and state\<close>

definition BLOCK_ALIGN :: usize where
  "BLOCK_ALIGN = 16"

definition MIN_BLOCK_SIZE :: usize where
  "MIN_BLOCK_SIZE = 16"

record heap_stats =
  total_bytes :: usize
  free_bytes :: usize
  alloc_count :: usize
  dealloc_count :: usize

definition used_bytes :: "heap_stats \<Rightarrow> usize res" where
  "used_bytes st = usub (total_bytes st) (free_bytes st)"

definition is_balanced :: "heap_stats \<Rightarrow> bool" where
  "is_balanced st = (alloc_count st = dealloc_count st \<and> free_bytes st = total_bytes st)"

record heap_allocator =
  heap_head :: usize
  stats :: heap_stats

type_synonym heap_state = "heap_allocator \<times> mem"

definition heap_new :: heap_allocator where
  "heap_new = \<lparr>heap_head = 0,
     stats = \<lparr>total_bytes = 0, free_bytes = 0, alloc_count = 0, dealloc_count = 0\<rparr>\<rparr>"

definition heap_is_empty :: "heap_allocator \<Rightarrow> bool" where
  "heap_is_empty h = (heap_head h = 0)"

definition block_end :: "usize \<Rightarrow> usize \<Rightarrow> usize res" where
  "block_end ptr sz = uadd ptr sz"

text \<open>What \<open>prev_next\<close> points at: the head of the list or the \<open>next\<close> field of a block.\<close>

datatype slot = HeadSlot | NextOf usize

definition read_slot :: "heap_state \<Rightarrow> slot \<Rightarrow> usize" where
  "read_slot s p = (case p of HeadSlot \<Rightarrow> heap_head (fst s) | NextOf b \<Rightarrow> snd s (b + 8))"

definition write_slot :: "slot \<Rightarrow> usize \<Rightarrow> heap_state \<Rightarrow> heap_state" where
  "write_slot p v s =
     (case p of
        HeadSlot \<Rightarrow> ((fst s)\<lparr>heap_head := v\<rparr>, snd s)
      | NextOf b \<Rightarrow> (fst s, (snd s)(b + 8 := v)))"

definition write_block :: "usize \<Rightarrow> usize \<Rightarrow> usize \<Rightarrow> heap_state \<Rightarrow> heap_state" where
  "write_block b sz next s = (fst s, (snd s)(b := sz, b + 8 := next))"

definition align_up :: "usize \<Rightarrow> usize \<Rightarrow> usize res" where
  "align_up addr align =
     rbind (uadd addr align) (\<lambda>t.
     rbind (usub t 1) (\<lambda>t.
     rbind (usub align 1) (\<lambda>mask.
       Inr (t AND NOT mask))))"

text \<open>\<open>usize::next_multiple_of\<close>\<close>

definition next_multiple_of :: "usize \<Rightarrow> usize \<Rightarrow> usize res" where
  "next_multiple_of n k = (if n mod k = 0 then Inr n else uadd n (k - n mod k))"

definition round_size :: "usize \<Rightarrow> usize res" where
  "round_size sz = next_multiple_of (max sz MIN_BLOCK_SIZE) BLOCK_ALIGN"

section \<open>Insertion\<close>

partial_function (option) find_slot :: "heap_state \<Rightarrow> usize \<Rightarrow> slot \<Rightarrow> usize \<Rightarrow> (slot \<times> usize) option" where
  "find_slot s block_addr prev_next prev_ptr =
     (if read_slot s prev_next \<noteq> 0 \<and> read_slot s prev_next < block_addr
      then find_slot s block_addr (NextOf (read_slot s prev_next)) (read_slot s prev_next)
      else Some (prev_next, prev_ptr))"

definition merge_with_right :: "usize \<Rightarrow> usize \<Rightarrow> usize \<Rightarrow> heap_state \<Rightarrow> heap_state res" where
  "merge_with_right block sz next_block s =
     (if next_block \<noteq> 0 then
        rbind (block_end block sz) (\<lambda>e.
          if e = next_block then
            let right_size = snd s next_block; right_next = snd s (next_block + 8) in
            rbind (uadd sz right_size) (\<lambda>n. Inr (write_block block n right_next s))
          else Inr s)
      else Inr s)"

definition merge_with_left :: "usize \<Rightarrow> usize \<Rightarrow> heap_state \<Rightarrow> heap_state res" where
  "merge_with_left block prev_ptr s =
     (if prev_ptr \<noteq> 0 then
        let left_size = snd s prev_ptr in
        rbind (block_end prev_ptr left_size) (\<lambda>left_end.
          if left_end = block then
            let merged_next = snd s (block + 8); merged_size = snd s block in
            rbind (uadd left_size merged_size) (\<lambda>n. Inr (write_block prev_ptr n merged_next s))
          else Inr s)
      else Inr s)"

definition link_block :: "usize \<Rightarrow> usize \<Rightarrow> slot \<Rightarrow> usize \<Rightarrow> heap_state \<Rightarrow> heap_state res" where
  "link_block block sz prev_next prev_ptr s =
     (let next_block = read_slot s prev_next;
          s = write_block block sz next_block s;
          s = write_slot prev_next block s in
      rbind (merge_with_right block sz next_block s) (merge_with_left block prev_ptr))"

definition insert_and_coalesce :: "usize \<Rightarrow> usize \<Rightarrow> heap_state \<Rightarrow> heap_state res option" where
  "insert_and_coalesce block sz s =
     map_option (\<lambda>(prev_next, prev_ptr). link_block block sz prev_next prev_ptr s)
       (find_slot s block HeadSlot 0)"

text \<open>Running the rest of a function after a loop that may not return.\<close>

definition after :: "'a res \<Rightarrow> ('a \<Rightarrow> 'b res option) \<Rightarrow> 'b res option" where
  "after r f = (case r of Inl e \<Rightarrow> Some (Inl e) | Inr x \<Rightarrow> f x)"

lemma after_simps [simp, res_simps]: "after (Inr x) f = f x" "after (Inl e) f = Some (Inl e)"
  by (simp_all add: after_def)

definition add_memory :: "usize \<Rightarrow> usize \<Rightarrow> heap_state \<Rightarrow> heap_state res option" where
  "add_memory ptr sz s =
     after (require (ptr \<noteq> 0) ''add_memory: ptr must not be null'') (\<lambda>_.
     after (require (ptr mod BLOCK_ALIGN = 0) ''add_memory: ptr is not aligned'') (\<lambda>_.
     after (require (MIN_BLOCK_SIZE \<le> sz) ''add_memory: size is less than MIN_BLOCK_SIZE'') (\<lambda>_.
     let sz = sz AND NOT (BLOCK_ALIGN - 1);
         s = write_block ptr sz 0 s;
         st = stats (fst s) in
     after (uadd (total_bytes st) sz) (\<lambda>t.
     after (uadd (free_bytes st) sz) (\<lambda>f.
       insert_and_coalesce ptr sz
         ((fst s)\<lparr>stats := st\<lparr>total_bytes := t, free_bytes := f\<rparr>\<rparr>, snd s))))))"

definition heap_dealloc :: "usize \<Rightarrow> usize \<Rightarrow> usize \<Rightarrow> heap_state \<Rightarrow> heap_state res option" where
  "heap_dealloc ptr sz align s =
     after (round_size sz) (\<lambda>block_size.
     let st = stats (fst s) in
     after (uadd (free_bytes st) block_size) (\<lambda>f.
     after (uadd (dealloc_count st) 1) (\<lambda>d.
       insert_and_coalesce ptr block_size
         ((fst s)\<lparr>stats := st\<lparr>free_bytes := f, dealloc_count := d\<rparr>\<rparr>, snd s))))"

section \<open>Allocation\<close>

text \<open>One turn of the loop: \<open>None\<close> skips the block, \<open>Some (alloc_start, padding)\<close> takes it.\<close>

definition block_fit :: "usize \<Rightarrow> usize \<Rightarrow> usize \<Rightarrow> usize \<Rightarrow> (usize \<times> usize) option res" where
  "block_fit sz align block_addr block_size =
     rbind (align_up block_addr align) (\<lambda>alloc_start.
     rbind (usub alloc_start block_addr) (\<lambda>padding.
       if 0 < padding \<and> padding < MIN_BLOCK_SIZE then Inr None
       else case checked_add padding sz of
              None \<Rightarrow> Inr None
            | Some total_needed \<Rightarrow>
                Inr (if block_size < total_needed then None else Some (alloc_start, padding))))"

partial_function (option) alloc_scan ::
    "usize \<Rightarrow> usize \<Rightarrow> heap_state \<Rightarrow> slot \<Rightarrow> (slot \<times> usize \<times> usize \<times> usize) option res option" where
  "alloc_scan sz align s prev_next =
     (if read_slot s prev_next = 0 then Some (Inr None)
      else case block_fit sz align (read_slot s prev_next) (snd s (read_slot s prev_next)) of
             Inl e \<Rightarrow> Some (Inl e)
           | Inr None \<Rightarrow> alloc_scan sz align s (NextOf (read_slot s prev_next))
           | Inr (Some (alloc_start, padding)) \<Rightarrow>
               Some (Inr (Some (prev_next, read_slot s prev_next, alloc_start, padding))))"

definition take_block ::
    "usize \<Rightarrow> slot \<Rightarrow> usize \<Rightarrow> usize \<Rightarrow> usize \<Rightarrow> heap_state \<Rightarrow> (usize \<times> heap_state) res" where
  "take_block sz prev_next block alloc_start padding s =
     (let block_size = snd s block;
          block_next = snd s (block + 8);
          (prev_next, s) =
            (if 0 < padding then (NextOf block, write_block block padding block_next s)
             else (prev_next, write_slot prev_next block_next s)) in
      rbind (usub block_size padding) (\<lambda>t.
      rbind (usub t sz) (\<lambda>remainder.
      rbind (if MIN_BLOCK_SIZE \<le> remainder then
               rbind (uadd alloc_start sz) (\<lambda>remainder_addr.
                 Inr (write_slot prev_next remainder_addr
                        (write_block remainder_addr remainder block_next s)))
             else Inr s) (\<lambda>s.
      let freed_to_remainder = (if MIN_BLOCK_SIZE \<le> remainder then remainder else 0) in
      rbind (usub t freed_to_remainder) (\<lambda>consumed.
      let st = stats (fst s) in
      rbind (usub (free_bytes st) consumed) (\<lambda>f.
      rbind (uadd (alloc_count st) 1) (\<lambda>c.
        Inr (alloc_start, ((fst s)\<lparr>stats := st\<lparr>free_bytes := f, alloc_count := c\<rparr>\<rparr>, snd s)))))))))"

definition heap_alloc :: "usize \<Rightarrow> usize \<Rightarrow> heap_state \<Rightarrow> (usize option \<times> heap_state) res option" where
  "heap_alloc sz align s =
     after (require (0 < sz) ''alloc: size must be > 0'') (\<lambda>_.
     after (require (is_power_of_two align) ''alloc: align must be a power of two'') (\<lambda>_.
     let align = max align BLOCK_ALIGN in
     after (round_size sz) (\<lambda>sz.
       map_option (\<lambda>r. rbind r (\<lambda>found.
           case found of
             None \<Rightarrow> Inr (None, s)
           | Some (prev_next, block, alloc_start, padding) \<Rightarrow>
               rbind (take_block sz prev_next block alloc_start padding s) (\<lambda>(p, s). Inr (Some p, s))))
         (alloc_scan sz align s HeadSlot))))"

partial_function (option) count_blocks :: "heap_state \<Rightarrow> usize \<Rightarrow> usize \<Rightarrow> usize res option" where
  "count_blocks s count current =
     (if current = 0 then Some (Inr count)
      else case uadd count 1 of
             Inl e \<Rightarrow> Some (Inl e)
           | Inr c \<Rightarrow> count_blocks s c (snd s (current + 8)))"

definition free_list_len :: "heap_state \<Rightarrow> usize res option" where
  "free_list_len s = count_blocks s 0 (heap_head (fst s))"

section \<open>The global allocator\<close>

record locked_heap =
  heap_locked :: bool
  heap :: heap_allocator

definition locked_heap_new :: locked_heap where
  "locked_heap_new = \<lparr>heap_locked = False, heap = heap_new\<rparr>"

definition heap_lock :: "locked_heap \<Rightarrow> locked_heap res" where
  "heap_lock l = (if heap_locked l then Inl Deadlock else Inr (l\<lparr>heap_locked := True\<rparr>))"

definition global_alloc ::
    "usize \<Rightarrow> usize \<Rightarrow> locked_heap \<times> mem \<Rightarrow> (usize \<times> locked_heap \<times> mem) res option" where
  "global_alloc sz align lm =
     after (heap_lock (fst lm)) (\<lambda>l.
       map_option (\<lambda>r. rbind r (\<lambda>(p, h, m).
           Inr (case p of Some a \<Rightarrow> a | None \<Rightarrow> 0, l\<lparr>heap_locked := False, heap := h\<rparr>, m)))
         (heap_alloc sz align (heap l, snd lm)))"

definition global_dealloc ::
    "usize \<Rightarrow> usize \<Rightarrow> usize \<Rightarrow> locked_heap \<times> mem \<Rightarrow> (locked_heap \<times> mem) res option" where
  "global_dealloc ptr sz align lm =
     (if ptr = 0 then Some (Inr lm)
      else after (heap_lock (fst lm)) (\<lambda>l.
        map_option (\<lambda>r. rbind r (\<lambda>(h, m). Inr (l\<lparr>heap_locked := False, heap := h\<rparr>, m)))
          (heap_dealloc ptr sz align (heap l, snd lm))))"

end
