(* ===== verification/Heap_List.thy ===== *)
theory Heap_List
  imports Heap
begin

text \<open>
  The free list of the heap as it lies in memory, and the proof that the coalescing insertion
  of \<open>eira/src/mm/heap.rs\<close> implements the insertion into a normal interval list: the loop that
  looks for the place ends, no sum overflows, and the blocks that result are those of
  \<open>merge_at\<close>. Freeing memory and adding memory to the heap follow.
\<close>

section \<open>The free list in memory\<close>

text \<open>\<open>seg m p xs q\<close>: following \<open>next\<close> from \<open>p\<close> visits the blocks \<open>xs\<close> and arrives at \<open>q\<close>.\<close>

fun seg :: "mem \<Rightarrow> usize \<Rightarrow> ivl list \<Rightarrow> usize \<Rightarrow> bool" where
  "seg m p [] q \<longleftrightarrow> p = q"
| "seg m p (i # xs) q \<longleftrightarrow>
     p = of_nat (fst i) \<and> m p = of_nat (snd i - fst i) \<and> seg m (m (p + 8)) xs q"

abbreviation linked :: "heap_state \<Rightarrow> ivl list \<Rightarrow> usize \<Rightarrow> bool" where
  "linked s xs q \<equiv> seg (snd s) (heap_head (fst s)) xs q"

definition start_ok :: "nat \<Rightarrow> bool" where
  "start_ok a \<longleftrightarrow> 16 dvd a \<and> 0 < a \<and> a < 2 ^ 64"

definition block_ok :: "ivl \<Rightarrow> bool" where
  "block_ok i \<longleftrightarrow> start_ok (fst i) \<and> 16 dvd snd i \<and> fst i < snd i \<and> snd i < 2 ^ 64"

definition slot_after :: "ivl list \<Rightarrow> slot" where
  "slot_after xs = (if xs = [] then HeadSlot else NextOf (of_nat (fst (last xs))))"

definition last_ptr :: "ivl list \<Rightarrow> usize" where
  "last_ptr xs = (if xs = [] then 0 else of_nat (fst (last xs)))"

abbreviation starts :: "ivl list \<Rightarrow> nat set" where
  "starts xs \<equiv> fst ` set xs"

abbreviation starts_ok :: "ivl list \<Rightarrow> bool" where
  "starts_ok xs \<equiv> \<forall>i \<in> set xs. start_ok (fst i)"

lemma start_ok_word:
  assumes "start_ok a"
  shows "unat (of_nat a :: usize) = a" and "unat (of_nat a + 8 :: usize) = a + 8" and "of_nat a \<noteq> (0 :: usize)"
proof -
  show a: "unat (of_nat a :: usize) = a"
    using assms by (simp add: start_ok_def unat_of_nat)
  obtain k where k: "a = 16 * k"
    using assms by (auto simp: start_ok_def elim: dvdE)
  then have "a + 8 < 2 ^ 64"
    using assms by (simp add: start_ok_def)
  then show "unat (of_nat a + 8 :: usize) = a + 8"
    using a by (simp add: unat_plus_if')
  show "of_nat a \<noteq> (0 :: usize)"
    using a assms by (auto simp: start_ok_def)
qed

lemma cells_distinct:
  assumes "start_ok a" and "start_ok b"
  shows "of_nat a = (of_nat b :: usize) \<longleftrightarrow> a = b" and "of_nat a + 8 = (of_nat b + 8 :: usize) \<longleftrightarrow> a = b"
    and "of_nat a + 8 \<noteq> (of_nat b :: usize)" and "of_nat b \<noteq> (of_nat a + 8 :: usize)"
proof -
  show "of_nat a = (of_nat b :: usize) \<longleftrightarrow> a = b" "of_nat a + 8 = (of_nat b + 8 :: usize) \<longleftrightarrow> a = b"
    by (metis assms start_ok_word(1)) (metis add_right_cancel assms start_ok_word(1))
  have "a + 8 \<noteq> b"
  proof
    assume "a + 8 = b"
    then have "16 dvd a + 8" "16 dvd a"
      using assms by (auto simp: start_ok_def)
    then have "16 dvd (8 :: nat)"
      using dvd_add_right_iff by blast
    then show False
      by simp
  qed
  then show "of_nat a + 8 \<noteq> (of_nat b :: usize)" "of_nat b \<noteq> (of_nat a + 8 :: usize)"
    by (metis assms start_ok_word(1,2))+
qed

lemma block_ok_start: "block_ok i \<Longrightarrow> start_ok (fst i)"
  by (simp add: block_ok_def)

lemma unat_size: "block_ok i \<Longrightarrow> unat (of_nat (snd i - fst i) :: usize) = snd i - fst i"
  by (rule unat_of_nat_64) (auto simp: block_ok_def)

lemma seg_append: "seg m p (xs @ ys) q \<longleftrightarrow> (\<exists>r. seg m p xs r \<and> seg m r ys q)"
  by (induction xs arbitrary: p) auto

lemma seg_cong:
  assumes "seg m p xs q"
    and "\<And>i. i \<in> set xs \<Longrightarrow> m' (of_nat (fst i)) = m (of_nat (fst i)) \<and> m' (of_nat (fst i) + 8) = m (of_nat (fst i) + 8)"
  shows "seg m' p xs q"
  using assms by (induction xs arbitrary: p) auto

lemma seg_upd:
  assumes "seg m p xs q" and "starts_ok xs" and "start_ok a" and "a \<notin> starts xs"
  shows "seg (m(of_nat a := n)) p xs q" and "seg (m(of_nat a + 8 := n)) p xs q"
proof -
  have *: "start_ok (fst i)" "fst i \<noteq> a" if "i \<in> set xs" for i
    using that assms(2,4) by auto
  show "seg (m(of_nat a := n)) p xs q" "seg (m(of_nat a + 8 := n)) p xs q"
    by (rule seg_cong [OF assms(1)], use * cells_distinct [OF assms(3)] cells_distinct [OF _ assms(3)] in simp)+
qed

lemma read_slot_after: "linked s xs q \<Longrightarrow> read_slot s (slot_after xs) = q"
  by (cases xs rule: rev_cases) (auto simp: slot_after_def read_slot_def seg_append)

lemma write_slot_linked:
  assumes "linked s xs q" and "starts_ok xs" and "distinct (map fst xs)"
  shows "linked (write_slot (slot_after xs) v s) xs v"
proof (cases xs rule: rev_cases)
  case Nil
  then show ?thesis
    by (simp add: slot_after_def write_slot_def)
next
  case (snoc xs' x)
  let ?m = "(snd s)(of_nat (fst x) + 8 := v)"
  obtain r where r: "seg (snd s) (heap_head (fst s)) xs' r" "r = of_nat (fst x)" "snd s r = of_nat (snd x - fst x)"
    using assms(1) snoc by (auto simp: seg_append)
  have "seg ?m (heap_head (fst s)) xs' r"
    using assms snoc by (intro seg_upd [OF r(1)]) auto
  moreover have "?m r = of_nat (snd x - fst x)"
    using r assms(2) snoc cells_distinct(4) [of "fst x" "fst x"] by simp
  ultimately show ?thesis
    using r(2) snoc by (auto simp: slot_after_def write_slot_def seg_append)
qed

lemma write_slot_seg:
  assumes "seg (snd s) p ys q" and "starts_ok (xs @ ys)" and "starts xs \<inter> starts ys = {}"
  shows "seg (snd (write_slot (slot_after xs) v s)) p ys q"
proof (cases xs rule: rev_cases)
  case Nil
  then show ?thesis
    using assms(1) by (simp add: slot_after_def write_slot_def)
next
  case (snoc xs' x)
  then show ?thesis
    using assms seg_upd(2) [OF assms(1), of "fst x" v] by (auto simp: slot_after_def write_slot_def)
qed

lemma write_slot_head:
  "xs \<noteq> [] \<Longrightarrow> heap_head (fst (write_slot (slot_after xs) v s)) = heap_head (fst s)"
  "stats (fst (write_slot p v s)) = stats (fst s)"
  by (simp_all add: slot_after_def write_slot_def split: slot.splits)

lemma write_block_seg:
  assumes "seg (snd s) p ys q" and "starts_ok ys" and "start_ok a" and "a \<notin> starts ys"
  shows "seg (snd (write_block (of_nat a) n v s)) p ys q"
  using assms by (simp add: write_block_def seg_upd)

lemma write_block_simps [simp]:
  "fst (write_block b n v s) = fst s"
  "start_ok a \<Longrightarrow> snd (write_block (of_nat a) n v s) (of_nat a) = n"
  "snd (write_block b n v s) (b + 8) = v"
  using cells_distinct(4) [of a a] by (simp_all add: write_block_def)

section \<open>Coalescing insertion in memory\<close>

lemma slot_after_snoc: "slot_after (xs @ [x]) = NextOf (of_nat (fst x))" "last_ptr (xs @ [x]) = of_nat (fst x)"
  by (simp_all add: slot_after_def last_ptr_def)

lemma find_slot_eq:
  assumes "linked s (zs @ xs @ ys) 0" and "starts_ok (xs @ ys)"
    and "\<forall>x \<in> set xs. fst x < b" and "\<forall>y \<in> set ys. b \<le> fst y" and "start_ok b"
  shows "find_slot s (of_nat b) (slot_after zs) (last_ptr zs) = Some (slot_after (zs @ xs), last_ptr (zs @ xs))"
  using assms
proof (induction xs arbitrary: zs)
  case Nil
  have "\<not> (read_slot s (slot_after zs) \<noteq> 0 \<and> read_slot s (slot_after zs) < of_nat b)"
  proof (cases ys)
    case Nil
    then have "read_slot s (slot_after zs) = 0"
      using Nil.prems(1) by (intro read_slot_after) simp
    then show ?thesis
      by simp
  next
    case (Cons y ys')
    then have "read_slot s (slot_after zs) = of_nat (fst y)"
      using Nil.prems(1) by (intro read_slot_after) (auto simp: seg_append)
    then show ?thesis
      using Cons Nil.prems start_ok_word(1) by (simp add: word_less_nat_alt)
  qed
  then show ?case
    by (subst find_slot.simps) auto
next
  case (Cons x xs)
  have "read_slot s (slot_after zs) = of_nat (fst x)"
    using Cons.prems(1) by (intro read_slot_after) (auto simp: seg_append)
  moreover have "of_nat (fst x) \<noteq> (0 :: usize)" "of_nat (fst x) < (of_nat b :: usize)"
    using Cons.prems start_ok_word by (simp_all add: word_less_nat_alt)
  moreover have "find_slot s (of_nat b) (slot_after (zs @ [x])) (last_ptr (zs @ [x])) =
      Some (slot_after ((zs @ [x]) @ xs), last_ptr ((zs @ [x]) @ xs))"
    using Cons.prems by (intro Cons.IH) simp_all
  ultimately show ?case
    by (subst find_slot.simps) (simp add: slot_after_snoc)
qed

text \<open>Three blocks in a row become two, or one, as the sizes and links are rewritten.\<close>

lemma linked_write_last:
  assumes "linked s (xs @ i # ys) q" and "starts_ok (xs @ i # ys)" and "distinct (map fst (xs @ i # ys))"
    and "seg (snd s) v zs q" and "starts_ok zs" and "starts zs \<subseteq> starts ys"
  shows "linked (write_block (of_nat (fst i)) (of_nat (e - fst i)) v s) (xs @ (fst i, e) # zs) q"
proof -
  obtain r where r: "linked s xs r" "r = of_nat (fst i)"
    using assms(1) by (auto simp: seg_append)
  have i: "start_ok (fst i)" "fst i \<notin> starts xs" "fst i \<notin> starts zs" "starts_ok xs"
    using assms(2,3,6) by auto
  let ?s = "write_block (of_nat (fst i)) (of_nat (e - fst i)) v s"
  have "linked ?s xs r"
    using write_block_seg [OF r(1) i(4,1,2)] by simp
  moreover have "seg (snd ?s) v zs q"
    using write_block_seg [OF assms(4,5) i(1,3)] .
  ultimately show ?thesis
    using r(2) i(1) by (auto simp: seg_append)
qed

lemma block_end_eq:
  assumes "block_ok i"
  shows "block_end (of_nat (fst i)) (of_nat (snd i - fst i)) = Inr (of_nat (snd i))"
proof -
  have "unat (of_nat (snd i) :: usize) = snd i" "fst i + (snd i - fst i) = snd i"
    using assms by (auto simp: block_ok_def intro: unat_of_nat_64)
  then show ?thesis
    using assms unat_size [OF assms] start_ok_word(1) [OF block_ok_start [OF assms]]
    by (simp add: block_end_def uadd_Inr del: of_nat_diff)
qed

lemma block_ends_at:
  assumes "block_ok i" and "block_ok j"
  shows "of_nat (snd i) = (of_nat (fst j) :: usize) \<longleftrightarrow> snd i = fst j"
  using assms by (intro of_nat_eq_64) (auto simp: block_ok_def start_ok_def)

lemma block_sizes_add:
  assumes "block_ok i" and "block_ok j" and "snd i = fst j"
  shows "uadd (of_nat (snd i - fst i)) (of_nat (snd j - fst j)) = Inr (of_nat (snd j - fst i) :: usize)"
proof -
  have "unat (of_nat (snd j - fst i) :: usize) = snd j - fst i"
    using assms(2) by (intro unat_of_nat_64) (auto simp: block_ok_def)
  moreover have "(snd i - fst i) + (snd j - fst j) = snd j - fst i"
    using assms by (auto simp: block_ok_def)
  ultimately show ?thesis
    unfolding uadd_Inr unat_size [OF assms(1)] unat_size [OF assms(2)] by simp
qed

lemma merge_with_right_eq:
  assumes l: "linked s (xs @ i # ys) 0" and ok: "\<forall>j \<in> set (xs @ i # ys). block_ok j"
    and d: "distinct (map fst (xs @ i # ys))"
    and nxt: "next_block = (if ys = [] then 0 else of_nat (fst (hd ys)))"
  shows "\<exists>s'. merge_with_right (of_nat (fst i)) (of_nat (snd i - fst i)) next_block s = Inr s' \<and>
    linked s' (xs @ coalesce i ys) 0 \<and> stats (fst s') = stats (fst s)"
proof (cases ys)
  case Nil
  then show ?thesis
    using l nxt by (simp add: merge_with_right_def)
next
  case (Cons j zs)
  have i: "block_ok i" "block_ok j" and so: "start_ok (fst i)" "start_ok (fst j)"
    using ok Cons block_ok_start by auto
  note fin = block_end_eq [OF i(1)] and ends = block_ends_at [OF i]
  have nb: "next_block = of_nat (fst j)" "next_block \<noteq> 0"
    using nxt Cons so(2) start_ok_word(3) by auto
  show ?thesis
  proof (cases "snd i = fst j")
    case False
    then show ?thesis
      using l Cons nb fin ends by (simp add: merge_with_right_def)
  next
    case True
    have j: "snd s (of_nat (fst j)) = of_nat (snd j - fst j)" "seg (snd s) (snd s (of_nat (fst j) + 8)) zs 0"
      using l Cons by (auto simp: seg_append)
    have "linked (write_block (of_nat (fst i)) (of_nat (snd j - fst i)) (snd s (of_nat (fst j) + 8)) s)
        (xs @ (fst i, snd j) # zs) 0"
      using ok Cons block_ok_start by (intro linked_write_last [OF l _ d j(2)]) auto
    then show ?thesis
      using Cons nb fin ends True j(1) block_sizes_add [OF i True] by (simp add: merge_with_right_def Let_def del: of_nat_diff)
  qed
qed

lemma merge_with_left_eq:
  assumes l: "linked s (xs @ k # zs) 0" and ok: "\<forall>j \<in> set (xs @ k # zs). block_ok j"
    and d: "distinct (map fst (xs @ k # zs))" and a: "a = fst k"
    and r: "r = (if xs \<noteq> [] \<and> snd (last xs) = fst k
      then butlast xs @ (fst (last xs), snd k) # zs else xs @ k # zs)"
  shows "\<exists>s'. merge_with_left (of_nat a) (last_ptr xs) s = Inr s' \<and> stats (fst s') = stats (fst s) \<and> linked s' r 0"
proof (cases xs rule: rev_cases)
  case Nil
  then show ?thesis
    using l a r by (auto simp: merge_with_left_def last_ptr_def)
next
  case (snoc xs' x)
  have x: "block_ok x" "block_ok k" and so: "start_ok (fst x)" "start_ok (fst k)"
    using ok snoc block_ok_start by auto
  have l': "linked s (xs' @ x # k # zs) 0" and d': "distinct (map fst (xs' @ x # k # zs))"
    using l d snoc by simp_all
  then have cells: "snd s (of_nat (fst x)) = of_nat (snd x - fst x)" "snd s (of_nat (fst k)) = of_nat (snd k - fst k)"
    "seg (snd s) (snd s (of_nat (fst k) + 8)) zs 0"
    by (auto simp: seg_append)
  note fin = block_end_eq [OF x(1)] and ends = block_ends_at [OF x]
  have p: "last_ptr xs = of_nat (fst x)" "last_ptr xs \<noteq> 0"
    using snoc slot_after_snoc(2) start_ok_word(3) [OF so(1)] by simp_all
  show ?thesis
  proof (cases "snd x = fst k")
    case False
    then show ?thesis
      using l a r snoc p fin ends cells(1) by (simp add: merge_with_left_def Let_def)
  next
    case True
    have "linked (write_block (of_nat (fst x)) (of_nat (snd k - fst x)) (snd s (of_nat (fst k) + 8)) s)
        (xs' @ (fst x, snd k) # zs) 0"
      using ok snoc block_ok_start by (intro linked_write_last [OF l' _ d' cells(3)]) auto
    then show ?thesis
      using a r snoc p fin ends True cells block_sizes_add [OF x True] by (simp add: merge_with_left_def Let_def del: of_nat_diff)
  qed
qed

lemma coalesce_blocks:
  assumes "\<forall>j \<in> set (xs @ i # ys). block_ok j" and "distinct (map fst (xs @ i # ys))"
  shows "\<exists>k zs. coalesce i ys = k # zs \<and> fst k = fst i \<and> block_ok k \<and> (\<forall>j \<in> set zs. block_ok j) \<and>
    distinct (map fst (xs @ k # zs))"
proof (cases ys)
  case Nil
  then show ?thesis
    using assms by simp
next
  case (Cons j zs)
  have "block_ok (fst i, snd j)" if "snd i = fst j"
    using that assms(1) Cons by (auto simp: block_ok_def)
  then show ?thesis
    using assms Cons by (cases "snd i = fst j") auto
qed

lemma linked_insert:
  assumes q: "linked s xs q" "seg (snd s) q ys 0" and so: "starts_ok (xs @ i # ys)"
    and d: "distinct (map fst (xs @ i # ys))"
  shows "linked (write_slot (slot_after xs) (of_nat (fst i))
    (write_block (of_nat (fst i)) (of_nat (snd i - fst i)) q s)) (xs @ i # ys) 0"
proof -
  let ?w = "write_block (of_nat (fst i)) (of_nat (snd i - fst i)) q s"
  let ?t = "write_slot (slot_after xs) (of_nat (fst i)) ?w"
  have i: "start_ok (fst i)" "fst i \<notin> starts xs" "fst i \<notin> starts ys"
    using so d by auto
  have w: "linked ?w xs q" "seg (snd ?w) q ys 0" "seg (snd ?w) (of_nat (fst i)) [i] q"
    using write_block_seg [OF q(1) _ i(1,2)] write_block_seg [OF q(2) _ i(1,3)] so i(1) by simp_all
  have "linked ?t xs (of_nat (fst i))"
    using so d by (intro write_slot_linked [OF w(1)]) auto
  moreover have "seg (snd ?t) (of_nat (fst i)) [i] q"
    using so d by (intro write_slot_seg [OF w(3)]) auto
  moreover have "seg (snd ?t) q ys 0"
    using so d by (intro write_slot_seg [OF w(2)]) auto
  ultimately show ?thesis
    by (auto simp: seg_append)
qed

lemma insert_and_coalesce_eq:
  assumes l: "linked s (xs @ ys) 0" and ok: "\<forall>j \<in> set (xs @ i # ys). block_ok j"
    and n: "ivl_normal xs" "ivl_normal ys"
    and below: "\<forall>j \<in> set xs. snd j \<le> fst i" and above: "\<forall>j \<in> set ys. snd i \<le> fst j"
  shows "\<exists>s'. insert_and_coalesce (of_nat (fst i)) (of_nat (snd i - fst i)) s = Some (Inr s') \<and>
    linked s' (merge_at xs i ys) 0 \<and> stats (fst s') = stats (fst s)"
proof -
  have pos: "fst j < snd j" if "j \<in> set (xs @ i # ys)" for j
    using ok that by (auto simp: block_ok_def)
  have so: "starts_ok (xs @ i # ys)"
    using ok block_ok_start by blast
  have lt: "\<forall>x \<in> set xs. fst x < fst i" "\<forall>y \<in> set ys. fst i \<le> fst y" "\<forall>y \<in> set ys. fst i < fst y"
    using below above pos by (fastforce simp: less_le_trans)+
  have dx: "distinct (map fst xs)" if "ivl_normal xs" for xs :: "ivl list"
    using that by (induction xs) fastforce+
  have d: "distinct (map fst (xs @ i # ys))"
    using dx n lt by fastforce
  obtain q where q: "linked s xs q" "seg (snd s) q ys 0"
    using l by (auto simp: seg_append)
  have f: "find_slot s (of_nat (fst i)) HeadSlot 0 = Some (slot_after xs, last_ptr xs)"
    using find_slot_eq [of s "[]" xs ys "fst i"] l so lt by (simp add: slot_after_def last_ptr_def)
  let ?n = "of_nat (snd i - fst i) :: usize"
  define t where "t = write_slot (slot_after xs) (of_nat (fst i)) (write_block (of_nat (fst i)) ?n q s)"
  have lt: "linked t (xs @ i # ys) 0"
    unfolding t_def by (rule linked_insert [OF q so d])
  have q0: "q = (if ys = [] then 0 else of_nat (fst (hd ys)))"
    using q(2) by (cases ys) auto
  obtain u where u: "merge_with_right (of_nat (fst i)) ?n q t = Inr u" "linked u (xs @ coalesce i ys) 0"
    "stats (fst u) = stats (fst t)"
    using merge_with_right_eq [OF lt ok d q0] by blast
  obtain k zs where k: "coalesce i ys = k # zs" "fst k = fst i" "block_ok k" "\<forall>j \<in> set zs. block_ok j"
    "distinct (map fst (xs @ k # zs))"
    using coalesce_blocks [OF ok d] by blast
  have "linked u (xs @ k # zs) 0" "\<forall>j \<in> set (xs @ k # zs). block_ok j"
    using u(2) k(1,3,4) ok by auto
  note left = merge_with_left_eq [OF this k(5) k(2) [symmetric]]
  have "merge_at xs i ys = (if xs \<noteq> [] \<and> snd (last xs) = fst k
      then butlast xs @ (fst (last xs), snd k) # zs else xs @ k # zs)"
    using k(1,2) by (simp add: merge_at_def)
  from left [OF this] obtain v
    where v: "merge_with_left (of_nat (fst i)) (last_ptr xs) u = Inr v" "stats (fst v) = stats (fst u)"
      "linked v (merge_at xs i ys) 0"
    by (elim exE conjE)
  have "link_block (of_nat (fst i)) ?n (slot_after xs) (last_ptr xs) s = Inr v"
    using read_slot_after [OF q(1)] u(1) v(1) by (simp add: link_block_def t_def del: of_nat_diff)
  moreover have "stats (fst t) = stats (fst s)"
    by (simp add: t_def write_slot_head)
  ultimately show ?thesis
    using f u(3) v(2,3) by (simp add: insert_and_coalesce_def)
qed

section \<open>The heap and the intervals it keeps\<close>

text \<open>
  \<open>heap_rep s xs\<close>: the free list in memory is the normal list \<open>xs\<close> of 16-aligned blocks, and
  \<open>free_bytes\<close> counts the bytes they cover.
\<close>

definition heap_rep :: "heap_state \<Rightarrow> ivl list \<Rightarrow> bool" where
  "heap_rep s xs \<longleftrightarrow> linked s xs 0 \<and> (\<forall>i \<in> set xs. block_ok i) \<and> ivl_normal xs \<and>
     unat (free_bytes (stats (fst s))) = card (ivl_cover xs)"

lemma heap_repD:
  assumes "heap_rep s xs"
  shows "linked s xs 0" and "\<forall>i \<in> set xs. block_ok i" and "ivl_normal xs"
    and "unat (free_bytes (stats (fst s))) = card (ivl_cover xs)" and "starts_ok xs"
  using assms block_ok_start by (auto simp: heap_rep_def)

lemma block_ok_cover:
  assumes "\<forall>i \<in> set xs. block_ok i" and "a \<in> ivl_cover xs"
  shows "0 < a" and "a < 2 ^ 64"
  using assms by (auto simp: ivl_cover_def block_ok_def start_ok_def dest!: bspec)

lemma card_cover_less:
  assumes "\<forall>i \<in> set xs. block_ok i"
  shows "card (ivl_cover xs) < 2 ^ 64"
proof -
  have "ivl_cover xs \<subseteq> {0 <..< 2 ^ 64}"
    using block_ok_cover [OF assms] by auto
  then have "card (ivl_cover xs) \<le> card {0 <..< 2 ^ 64 :: nat}"
    by (rule card_mono [rotated]) simp
  then show ?thesis
    by simp
qed

text \<open>The blocks that a coalescing insertion leaves are 16-aligned again.\<close>

lemma merge_at_ok:
  assumes "\<forall>j \<in> set (xs @ i # ys). block_ok j" and "\<forall>j \<in> set xs. snd j \<le> fst i" and "\<forall>j \<in> set ys. snd i \<le> fst j"
  shows "\<forall>j \<in> set (merge_at xs i ys). block_ok j"
proof (cases xs rule: rev_cases)
  case Nil
  then show ?thesis
    using assms by (cases ys) (auto simp: merge_at_def block_ok_def)
next
  case (snoc xs' x)
  then show ?thesis
    using assms by (cases ys) (auto simp: merge_at_def block_ok_def)
qed

lemma insert_rep:
  assumes rep: "linked s xs 0" "\<forall>j \<in> set xs. block_ok j" "ivl_normal xs"
    and i: "block_ok i" "ivl_span i \<inter> ivl_cover xs = {}"
    and fr: "unat (free_bytes (stats (fst s))) = card (ivl_cover xs) + (snd i - fst i)"
  shows "\<exists>s' ys. insert_and_coalesce (of_nat (fst i)) (of_nat (snd i - fst i)) s = Some (Inr s') \<and>
    heap_rep s' ys \<and> ivl_cover ys = ivl_cover xs \<union> ivl_span i \<and> stats (fst s') = stats (fst s)"
proof -
  have pos: "fst i < snd i"
    using i(1) by (simp add: block_ok_def)
  obtain as bs where ab: "xs = as @ bs" "\<forall>j \<in> set as. snd j \<le> fst i" "\<forall>j \<in> set bs. snd i \<le> fst j"
    using ivl_split_at [OF rep(3) pos i(2)] by blast
  have n: "ivl_normal as" "ivl_normal bs" and ok: "\<forall>j \<in> set (as @ i # bs). block_ok j"
    and l: "linked s (as @ bs) 0"
    using rep i(1) ab(1) by auto
  obtain s' where s': "insert_and_coalesce (of_nat (fst i)) (of_nat (snd i - fst i)) s = Some (Inr s')"
    "linked s' (merge_at as i bs) 0" "stats (fst s') = stats (fst s)"
    using insert_and_coalesce_eq [OF l ok n ab(2,3)] by blast
  note m = merge_at_normal [OF pos n ab(2,3)]
  have c: "ivl_cover (merge_at as i bs) = ivl_cover xs \<union> ivl_span i"
    using m(2) ab(1) by auto
  have "card (ivl_cover xs \<union> ivl_span i) = card (ivl_cover xs) + (snd i - fst i)"
    using i(2) by (subst card_Un_disjoint) (auto simp: ivl_span_def)
  then have "heap_rep s' (merge_at as i bs)"
    using s' m(1) merge_at_ok [OF ok ab(2,3)] fr c by (simp add: heap_rep_def)
  then show ?thesis
    using s' c by blast
qed

section \<open>Rounding and alignment\<close>

definition rounded :: "nat \<Rightarrow> nat" where
  "rounded n = round_up (max n 16) 16"

lemma rounded_bounds: "16 dvd rounded n" "n \<le> rounded n" "16 \<le> rounded n" "0 < rounded n"
proof -
  show "16 dvd rounded n" "n \<le> rounded n" "16 \<le> rounded n"
    using round_up_bounds [of 16 "max n 16"] by (simp_all add: rounded_def)
  then show "0 < rounded n"
    by simp
qed

lemma next_multiple_of_eq:
  fixes n k :: usize
  assumes "0 < unat k" and "round_up (unat n) (unat k) < 2 ^ 64"
  shows "next_multiple_of n k = Inr (of_nat (round_up (unat n) (unat k)))"
proof (cases "unat n mod unat k = 0")
  case True
  then show ?thesis
    using assms(1) by (simp add: next_multiple_of_def word_eq_unat unat_mod mod_0_imp_dvd)
next
  case False
  have r: "round_up (unat n) (unat k) = unat n + (unat k - unat n mod unat k)"
    using False assms(1) round_up_step by blast
  moreover have "unat (k - n mod k) = unat k - unat n mod unat k"
    using assms(1) by (subst unat_sub) (auto simp: word_le_nat_alt unat_mod less_imp_le)
  ultimately show ?thesis
    using False assms by (simp add: next_multiple_of_def word_eq_unat unat_mod uadd_Inr unat_of_nat_64)
qed

lemma round_size_eq:
  assumes "rounded (unat sz) < 2 ^ 64"
  shows "round_size sz = Inr (of_nat (rounded (unat sz)))"
proof -
  have "unat (max sz MIN_BLOCK_SIZE) = max (unat sz) 16" "unat BLOCK_ALIGN = 16"
    by (simp_all add: max_def word_le_nat_alt MIN_BLOCK_SIZE_def BLOCK_ALIGN_def)
  then show ?thesis
    using assms next_multiple_of_eq [of BLOCK_ALIGN "max sz MIN_BLOCK_SIZE"]
    by (simp add: round_size_def rounded_def)
qed

lemma align_up_eq:
  assumes "is_power_of_two al" and "unat a + unat al < 2 ^ 64"
  shows "align_up a al = Inr (of_nat (round_up (unat a) (unat al)))"
proof -
  have al: "0 < unat al"
    using assms(1) by blast
  have "uadd a al = Inr (a + al)" "unat (a + al) = unat a + unat al"
    using assms(2) by (simp_all add: uadd_Inr unat_plus_if')
  moreover have "usub (a + al) 1 = Inr (a + al - 1)" "unat (a + al - 1) = unat a + (unat al - 1)"
    using al calculation(2) by (simp_all add: usub_Inr unat_sub word_le_nat_alt)
  moreover have "usub al 1 = Inr (al - 1)"
    using al by (simp add: usub_Inr unat_sub word_le_nat_alt)
  moreover have "(a + al - 1) AND NOT (al - 1) = of_nat (round_up (unat a) (unat al))"
    using calculation(4) unat_and_not_low [OF assms(1), of "a + al - 1"]
    by (metis round_up_def of_nat_unat ucast_id)
  ultimately show ?thesis
    by (simp add: align_up_def)
qed

lemma power_of_two_dvd_16:
  fixes al :: usize
  assumes "is_power_of_two al"
  shows "is_power_of_two (max al BLOCK_ALIGN)" and "16 dvd unat (max al BLOCK_ALIGN)"
    and "unat (max al BLOCK_ALIGN) = max (unat al) 16"
proof -
  obtain k where k: "k < LENGTH(64)" "al = 2 ^ k" "unat al = 2 ^ k"
    using assms by (elim is_power_of_two_E)
  show "unat (max al BLOCK_ALIGN) = max (unat al) 16"
    by (simp add: max_def word_le_nat_alt BLOCK_ALIGN_def)
  show "is_power_of_two (max al BLOCK_ALIGN)"
    using assms is_power_of_two_power [where 'a = 64 and k = 4] by (simp add: max_def BLOCK_ALIGN_def)
  have "16 dvd (2 ^ k :: nat)" if "16 \<le> (2 ^ k :: nat)"
  proof -
    have "4 \<le> k"
      using that power_increasing_iff [of "2 :: nat" 4 k] by simp
    then show ?thesis
      using le_imp_power_dvd [of 4 k "2 :: nat"] by simp
  qed
  then show "16 dvd unat (max al BLOCK_ALIGN)"
    using k(3) by (simp add: max_def word_le_nat_alt BLOCK_ALIGN_def)
qed

section \<open>Freeing and growing\<close>

lemma card_with_block:
  assumes "\<forall>j \<in> set xs. block_ok j" and "block_ok i" and "ivl_span i \<inter> ivl_cover xs = {}"
  shows "card (ivl_cover xs) + (snd i - fst i) < 2 ^ 64"
proof -
  have "card (ivl_cover (i # xs)) = (snd i - fst i) + card (ivl_cover xs)"
    using assms(3) by (simp add: card_Un_disjoint ivl_span_def)
  then show ?thesis
    using card_cover_less [of "i # xs"] assms(1,2) by simp
qed

lemma heap_dealloc_rep:
  assumes rep: "heap_rep s xs" and n: "n = rounded (unat sz)"
    and i: "block_ok (unat ptr, unat ptr + n)" and d: "{unat ptr ..< unat ptr + n} \<inter> ivl_cover xs = {}"
    and c: "unat (dealloc_count (stats (fst s))) + 1 < 2 ^ 64"
  shows "\<exists>s' ys. heap_dealloc ptr sz al s = Some (Inr s') \<and> heap_rep s' ys \<and>
    ivl_cover ys = ivl_cover xs \<union> {unat ptr ..< unat ptr + n} \<and>
    total_bytes (stats (fst s')) = total_bytes (stats (fst s)) \<and>
    alloc_count (stats (fst s')) = alloc_count (stats (fst s)) \<and>
    unat (dealloc_count (stats (fst s'))) = unat (dealloc_count (stats (fst s))) + 1"
proof -
  let ?st = "stats (fst s)" and ?i = "(unat ptr, unat ptr + n)"
  have n64: "n < 2 ^ 64"
    using i by (simp add: block_ok_def)
  then have nw: "unat (of_nat n :: usize) = n"
    by (rule unat_of_nat_64)
  have sp: "ivl_span ?i \<inter> ivl_cover xs = {}" "snd ?i - fst ?i = n"
    using d by (simp_all add: ivl_span_def)
  have fr: "unat (free_bytes ?st) = card (ivl_cover xs)"
    using rep by (simp add: heap_rep_def)
  have room: "card (ivl_cover xs) + n < 2 ^ 64"
    using card_with_block [OF heap_repD(2) [OF rep] i sp(1)] sp(2) by simp
  define f where "f = free_bytes ?st + of_nat n"
  define k where "k = dealloc_count ?st + 1"
  have f: "uadd (free_bytes ?st) (of_nat n) = Inr f" "unat f = card (ivl_cover xs) + n"
    using room fr nw by (simp_all add: f_def uadd_Inr unat_plus_if')
  have k: "uadd (dealloc_count ?st) 1 = Inr k" "unat k = unat (dealloc_count ?st) + 1"
    using c by (simp_all add: k_def uadd_Inr unat_plus_if')
  define t where "t = ((fst s)\<lparr>stats := ?st\<lparr>free_bytes := f, dealloc_count := k\<rparr>\<rparr>, snd s)"
  have t: "linked t xs 0" "stats (fst t) = ?st\<lparr>free_bytes := f, dealloc_count := k\<rparr>"
    using heap_repD(1) [OF rep] by (simp_all add: t_def)
  obtain s' ys where s': "insert_and_coalesce (of_nat (fst ?i)) (of_nat (snd ?i - fst ?i)) t = Some (Inr s')"
      "heap_rep s' ys" "ivl_cover ys = ivl_cover xs \<union> ivl_span ?i" "stats (fst s') = stats (fst t)"
    using insert_rep [OF t(1) heap_repD(2,3) [OF rep] i sp(1)] f(2) t(2) sp(2) by auto
  have "heap_dealloc ptr sz al s = Some (Inr s')"
    using s'(1) round_size_eq [of sz] n n64 f(1) k(1) by (simp add: heap_dealloc_def t_def)
  then show ?thesis
    using s' t(2) k(2) by (intro exI [of _ s'] exI [of _ ys]) (simp add: ivl_span_def)
qed

lemma add_memory_rep:
  assumes rep: "heap_rep s xs" and n: "n = unat sz - unat sz mod 16"
    and i: "block_ok (unat ptr, unat ptr + n)" and d: "{unat ptr ..< unat ptr + n} \<inter> ivl_cover xs = {}"
    and c: "unat (total_bytes (stats (fst s))) + n < 2 ^ 64"
  shows "\<exists>s' ys. add_memory ptr sz s = Some (Inr s') \<and> heap_rep s' ys \<and>
    ivl_cover ys = ivl_cover xs \<union> {unat ptr ..< unat ptr + n} \<and>
    unat (total_bytes (stats (fst s'))) = unat (total_bytes (stats (fst s))) + n \<and>
    alloc_count (stats (fst s')) = alloc_count (stats (fst s)) \<and>
    dealloc_count (stats (fst s')) = dealloc_count (stats (fst s))"
proof -
  let ?st = "stats (fst s)" and ?i = "(unat ptr, unat ptr + n)"
  have al: "is_power_of_two BLOCK_ALIGN" "unat BLOCK_ALIGN = 16"
    using is_power_of_two_power [where 'a = 64 and k = 4] by (simp_all add: BLOCK_ALIGN_def)
  define w where "w = sz AND NOT (BLOCK_ALIGN - 1)"
  have w: "unat w = n"
    using unat_and_not_low [OF al(1), of sz] n al(2) by (simp add: w_def)
  have so: "start_ok (unat ptr)" and "0 < n"
    using i by (simp_all add: block_ok_def)
  then have ptr: "ptr \<noteq> 0" "ptr mod BLOCK_ALIGN = 0"
    using al(2) by (auto simp: start_ok_def word_eq_unat unat_mod)
  have "16 \<le> unat sz"
    using \<open>0 < n\<close> n by (cases "16 \<le> unat sz") simp_all
  then have sz: "MIN_BLOCK_SIZE \<le> sz"
    by (simp add: word_le_nat_alt MIN_BLOCK_SIZE_def)
  have sp: "ivl_span ?i \<inter> ivl_cover xs = {}" "snd ?i - fst ?i = n"
    using d by (simp_all add: ivl_span_def)
  have room: "card (ivl_cover xs) + n < 2 ^ 64"
    using card_with_block [OF heap_repD(2) [OF rep] i sp(1)] sp(2) by simp
  have fr: "unat (free_bytes ?st) = card (ivl_cover xs)"
    using rep by (simp add: heap_rep_def)
  define f where "f = free_bytes ?st + w"
  define k where "k = total_bytes ?st + w"
  have f: "uadd (free_bytes ?st) w = Inr f" "unat f = card (ivl_cover xs) + n"
    using room fr w by (simp_all add: f_def uadd_Inr unat_plus_if')
  have k: "uadd (total_bytes ?st) w = Inr k" "unat k = unat (total_bytes ?st) + n"
    using c w by (simp_all add: k_def uadd_Inr unat_plus_if')
  have new: "unat ptr \<notin> starts xs"
  proof
    assume "unat ptr \<in> starts xs"
    then have "unat ptr \<in> ivl_cover xs"
      using heap_repD(3) [OF rep] by (force simp: ivl_cover_def ivl_normal_def)
    moreover have "unat ptr \<in> {unat ptr ..< unat ptr + n}"
      using \<open>0 < n\<close> by simp
    ultimately show False
      using d by blast
  qed
  define t where "t = ((fst s)\<lparr>stats := ?st\<lparr>total_bytes := k, free_bytes := f\<rparr>\<rparr>, snd (write_block ptr w 0 s))"
  have t: "linked t xs 0" "stats (fst t) = ?st\<lparr>total_bytes := k, free_bytes := f\<rparr>"
    using write_block_seg [OF heap_repD(1,5) [OF rep] so new, of w 0] by (simp_all add: t_def)
  obtain s' ys where s': "insert_and_coalesce (of_nat (fst ?i)) (of_nat (snd ?i - fst ?i)) t = Some (Inr s')"
      "heap_rep s' ys" "ivl_cover ys = ivl_cover xs \<union> ivl_span ?i" "stats (fst s') = stats (fst t)"
    using insert_rep [OF t(1) heap_repD(2,3) [OF rep] i sp(1)] f(2) t(2) sp(2) by auto
  have "of_nat n = w"
    using w by (metis of_nat_unat ucast_id)
  then have "insert_and_coalesce ptr w t = Some (Inr s')"
    using s'(1) sp(2) by simp
  then have "add_memory ptr sz s = Some (Inr s')"
    using ptr sz f(1) k(1) by (simp add: add_memory_def w_def [symmetric] t_def)
  then show ?thesis
    using s' t(2) k(2) by (intro exI [of _ s'] exI [of _ ys]) (simp add: ivl_span_def)
qed

end
