(* ===== verification/Heap_Alloc.thy ===== *)
theory Heap_Alloc
  imports Heap_List
begin

text \<open>
  Allocation from the kernel heap: the scan of the free list ends and finds the lowest aligned
  run of free bytes, cutting it out leaves a list that represents the remaining bytes, and
  clients that allocate and free hold disjoint runs.
\<close>

section \<open>First fit\<close>

text \<open>A block can serve a request when the aligned run that starts at or after its start fits.\<close>

definition fits :: "nat \<Rightarrow> nat \<Rightarrow> ivl \<Rightarrow> bool" where
  "fits n al i \<longleftrightarrow> round_up (fst i) al + n \<le> snd i"

lemma round_up_16:
  assumes "block_ok i" and "16 dvd al" and "0 < al"
  shows "16 dvd round_up (fst i) al" and "16 dvd round_up (fst i) al - fst i" and "fst i \<le> round_up (fst i) al"
proof -
  show "16 dvd round_up (fst i) al" "fst i \<le> round_up (fst i) al"
    using round_up_bounds [OF assms(3)] assms(2) dvd_trans by blast+
  then show "16 dvd round_up (fst i) al - fst i"
    using assms(1) by (simp add: block_ok_def start_ok_def)
qed

lemma block_fit_eq:
  assumes i: "block_ok i" and al: "is_power_of_two al" "16 dvd unat al" "fst i + unat al < 2 ^ 64"
    and n: "n < 2 ^ 64"
  defines "u \<equiv> round_up (fst i) (unat al)"
  shows "block_fit (of_nat n) al (of_nat (fst i)) (of_nat (snd i - fst i)) =
    Inr (if fits n (unat al) i then Some (of_nat u, of_nat (u - fst i)) else None)"
proof -
  have pos: "0 < unat al"
    using al(1) by blast
  note r = round_up_16 [OF i al(2) pos, folded u_def]
  have a: "unat (of_nat (fst i) :: usize) = fst i"
    using i by (simp add: start_ok_word block_ok_start)
  have u64: "u < 2 ^ 64"
    using round_up_bounds(3) [OF pos, of "fst i"] al(3) by (simp add: u_def)
  then have w: "unat (of_nat u :: usize) = u" "unat (of_nat (u - fst i) :: usize) = u - fst i"
    "unat (of_nat n :: usize) = n"
    using n by (intro unat_of_nat_64; simp)+
  have 1: "align_up (of_nat (fst i)) al = Inr (of_nat u)"
    using align_up_eq [OF al(1), of "of_nat (fst i)"] al(3) a by (simp add: u_def)
  have 2: "usub (of_nat u) (of_nat (fst i)) = Inr (of_nat (u - fst i) :: usize)"
    unfolding usub_Inr w a using r(3) by simp
  have "\<not> (0 < u - fst i \<and> u - fst i < 16)"
    using r(2) by (auto dest: dvd_imp_le)
  then have 3: "\<not> (0 < (of_nat (u - fst i) :: usize) \<and> of_nat (u - fst i) < MIN_BLOCK_SIZE)"
    unfolding word_less_nat_alt w MIN_BLOCK_SIZE_def by simp
  have sz: "unat (of_nat (snd i - fst i) :: usize) = snd i - fst i"
    by (rule unat_size [OF i])
  have 4: "(case checked_add (of_nat (u - fst i)) (of_nat n :: usize) of
        None \<Rightarrow> Inr None
      | Some t \<Rightarrow> Inr (if of_nat (snd i - fst i) < t then None else Some (of_nat u, of_nat (u - fst i)))) =
    (Inr (if fits n (unat al) i then Some (of_nat u, of_nat (u - fst i)) else None)
      :: (usize \<times> usize) option res)"
  proof (cases "checked_add (of_nat (u - fst i)) (of_nat n) :: usize option")
    case None
    then have "2 ^ 64 \<le> (u - fst i) + n"
      unfolding checked_add_None w by simp
    moreover have "snd i < 2 ^ 64"
      using i by (simp add: block_ok_def)
    ultimately have "\<not> fits n (unat al) i"
      using r(3) by (simp add: fits_def u_def)
    then show ?thesis
      using None by simp
  next
    case (Some t)
    then have "unat t = (u - fst i) + n"
      unfolding checked_add_Some w .
    then have "of_nat (snd i - fst i) < t \<longleftrightarrow> \<not> fits n (unat al) i"
      unfolding word_less_nat_alt sz fits_def u_def [symmetric] using r(3) i by (auto simp: block_ok_def)
    then show ?thesis
      using Some by simp
  qed
  show ?thesis
    unfolding block_fit_def 1 rbind_simps 2 if_not_P [OF 3] by (rule 4)
qed

lemma alloc_scan_eq:
  assumes "linked s (zs @ xs) 0" and "\<forall>i \<in> set xs. block_ok i"
    and al: "is_power_of_two al" "16 dvd unat al" "\<forall>i \<in> set xs. fst i + unat al < 2 ^ 64" and n: "n < 2 ^ 64"
  shows "alloc_scan (of_nat n) al s (slot_after zs) =
    Some (Inr (case dropWhile (\<lambda>i. \<not> fits n (unat al) i) xs of
       [] \<Rightarrow> None
     | i # _ \<Rightarrow> Some (slot_after (zs @ takeWhile (\<lambda>i. \<not> fits n (unat al) i) xs), of_nat (fst i),
         of_nat (round_up (fst i) (unat al)), of_nat (round_up (fst i) (unat al) - fst i))))"
  using assms(1,2) al(3)
proof (induction xs arbitrary: zs)
  case Nil
  then have "read_slot s (slot_after zs) = 0"
    by (intro read_slot_after) simp
  then show ?case
    by (subst alloc_scan.simps) simp
next
  case (Cons i xs)
  have r: "read_slot s (slot_after zs) = of_nat (fst i)"
    using Cons.prems(1) by (intro read_slot_after) (auto simp: seg_append)
  have nz: "of_nat (fst i) \<noteq> (0 :: usize)"
    using Cons.prems(2) start_ok_word(3) block_ok_start by simp
  have sz: "snd s (of_nat (fst i)) = of_nat (snd i - fst i)"
    using Cons.prems(1) by (auto simp: seg_append)
  note bf = block_fit_eq [OF _ al(1,2) _ n, of i]
  have ih: "alloc_scan (of_nat n) al s (NextOf (of_nat (fst i))) =
    Some (Inr (case dropWhile (\<lambda>i. \<not> fits n (unat al) i) xs of
       [] \<Rightarrow> None
     | j # _ \<Rightarrow> Some (slot_after ((zs @ [i]) @ takeWhile (\<lambda>i. \<not> fits n (unat al) i) xs), of_nat (fst j),
         of_nat (round_up (fst j) (unat al)), of_nat (round_up (fst j) (unat al) - fst j))))"
    using Cons.IH [of "zs @ [i]"] Cons.prems by (simp only: slot_after_snoc) simp
  show ?case
    using Cons.prems(2,3) nz r sz bf ih by (subst alloc_scan.simps) (simp del: of_nat_diff cong: list.case_cong)
qed

text \<open>Cutting the run out of the block: the part in front of it, then the part behind it.\<close>

definition front_part :: "ivl \<Rightarrow> nat \<Rightarrow> ivl list" where
  "front_part i u = (if fst i < u then [(fst i, u)] else [])"

definition back_part :: "ivl \<Rightarrow> nat \<Rightarrow> ivl list" where
  "back_part i e = (if e < snd i then [(e, snd i)] else [])"

lemma cut_front:
  assumes l: "linked s (as @ i # bs) 0" and ok: "\<forall>j \<in> set (as @ i # bs). block_ok j"
    and d: "distinct (map fst (as @ i # bs))" and u: "fst i \<le> u" "u \<le> snd i"
  defines "nx \<equiv> snd s (of_nat (fst i) + 8)" and "pad \<equiv> of_nat (u - fst i) :: usize"
  shows "\<exists>t. (if 0 < pad then (NextOf (of_nat (fst i)), write_block (of_nat (fst i)) pad nx s)
      else (slot_after as, write_slot (slot_after as) nx s)) = (slot_after (as @ front_part i u), t) \<and>
    linked t (as @ front_part i u) nx \<and> seg (snd t) nx bs 0 \<and> stats (fst t) = stats (fst s)"
proof -
  have so: "starts_ok (as @ i # bs)" and i: "block_ok i"
    using ok block_ok_start by auto
  obtain q where q: "linked s as q" "q = of_nat (fst i)" "seg (snd s) nx bs 0"
    using l by (auto simp: seg_append nx_def)
  have "unat pad = u - fst i"
    unfolding pad_def using i u by (intro unat_of_nat_64) (auto simp: block_ok_def)
  then have pad: "0 < pad \<longleftrightarrow> fst i < u"
    by (simp add: word_less_nat_alt)
  show ?thesis
  proof (cases "fst i < u")
    case True
    let ?t = "write_block (of_nat (fst i)) pad nx s"
    have "linked ?t as q" "seg (snd ?t) nx bs 0"
      using write_block_seg [OF q(1)] write_block_seg [OF q(3)] so d by auto
    then show ?thesis
      using True pad q(2) so by (auto simp: front_part_def slot_after_snoc seg_append pad_def simp del: of_nat_diff)
  next
    case False
    have "linked (write_slot (slot_after as) nx s) as nx"
      using so d by (intro write_slot_linked [OF q(1)]) auto
    moreover have "seg (snd (write_slot (slot_after as) nx s)) nx bs 0"
      using so d by (intro write_slot_seg [OF q(3)]) auto
    ultimately show ?thesis
      using False pad by (simp add: front_part_def write_slot_head)
  qed
qed

lemma back_rest:
  assumes i: "block_ok i" and n: "16 dvd n" "16 dvd u" "u + n \<le> snd i"
  shows "MIN_BLOCK_SIZE \<le> of_nat (snd i - (u + n)) \<longleftrightarrow> u + n < snd i"
proof -
  have lim: "snd i < 2 ^ 64" "16 dvd snd i"
    using i by (simp_all add: block_ok_def)
  have rem: "unat (of_nat (snd i - (u + n)) :: usize) = snd i - (u + n)"
    using lim by (intro unat_of_nat_64) simp
  have "16 dvd snd i - (u + n)"
    using n lim(2) by simp
  then have "16 \<le> snd i - (u + n) \<longleftrightarrow> u + n < snd i"
    using dvd_imp_le [of 16 "snd i - (u + n)"] by auto
  then show ?thesis
    unfolding word_le_nat_alt rem MIN_BLOCK_SIZE_def by simp
qed

lemma cut_back:
  assumes l: "linked t cs nx" "seg (snd t) nx bs 0" and so: "starts_ok (cs @ (u + n, snd i) # bs)"
    and d: "distinct (map fst (cs @ (u + n, snd i) # bs))"
    and n: "16 dvd n" "16 dvd u" "u + n \<le> snd i" and i: "block_ok i"
  shows "\<exists>t'. (if MIN_BLOCK_SIZE \<le> of_nat (snd i - (u + n))
       then rbind (uadd (of_nat u) (of_nat n)) (\<lambda>a. Inr (write_slot (slot_after cs) a
              (write_block a (of_nat (snd i - (u + n))) nx t)))
       else Inr t) = Inr t' \<and>
     linked t' (cs @ back_part i (u + n) @ bs) 0 \<and> stats (fst t') = stats (fst t)"
proof -
  have lim: "snd i < 2 ^ 64"
    using i by (simp add: block_ok_def)
  note c = back_rest [OF i n]
  show ?thesis
  proof (cases "u + n < snd i")
    case False
    then show ?thesis
      using c l by (auto simp: back_part_def seg_append)
  next
    case True
    have "unat (of_nat u :: usize) = u" "unat (of_nat n :: usize) = n" "unat (of_nat (u + n) :: usize) = u + n"
      using lim n(3) by (intro unat_of_nat_64; simp)+
    then have "uadd (of_nat u) (of_nat n) = Inr (of_nat (u + n) :: usize)"
      by (simp add: uadd_Inr del: of_nat_add)
    then show ?thesis
      using c True linked_insert [OF l so d] by (simp add: back_part_def write_slot_head del: of_nat_diff of_nat_add)
  qed
qed

lemma ivl_normal_starts: "ivl_normal xs \<Longrightarrow> distinct (map fst xs)"
  by (induction xs) fastforce+

lemma take_block_eq:
  assumes l: "linked s (as @ i # bs) 0" and ok: "\<forall>j \<in> set (as @ i # bs). block_ok j"
    and nm: "ivl_normal (as @ i # bs)"
    and n: "16 dvd n" "0 < n" "16 dvd u" "fst i \<le> u" "u + n \<le> snd i"
    and fr: "n \<le> unat (free_bytes (stats (fst s)))" and c: "unat (alloc_count (stats (fst s))) + 1 < 2 ^ 64"
  shows "\<exists>s' f k. take_block (of_nat n) (slot_after as) (of_nat (fst i)) (of_nat u) (of_nat (u - fst i)) s =
      Inr (of_nat u, s') \<and> linked s' (as @ ivl_parts i u (u + n) @ bs) 0 \<and>
    stats (fst s') = (stats (fst s))\<lparr>free_bytes := f, alloc_count := k\<rparr> \<and>
    unat f = unat (free_bytes (stats (fst s))) - n \<and> unat k = unat (alloc_count (stats (fst s))) + 1"
proof -
  let ?st = "stats (fst s)" and ?cs = "as @ front_part i u"
  have i: "block_ok i" and so: "starts_ok (as @ i # bs)" and d: "distinct (map fst (as @ i # bs))"
    using ok block_ok_start ivl_normal_starts [OF nm] by auto
  have lim: "snd i < 2 ^ 64" "u < 2 ^ 64" "n < 2 ^ 64"
    using i n by (auto simp: block_ok_def)
  define nx where "nx = snd s (of_nat (fst i) + 8)"
  have sz: "snd s (of_nat (fst i)) = of_nat (snd i - fst i)"
    using l by (auto simp: seg_append)
  obtain t where t: "(if 0 < (of_nat (u - fst i) :: usize)
        then (NextOf (of_nat (fst i)), write_block (of_nat (fst i)) (of_nat (u - fst i)) nx s)
        else (slot_after as, write_slot (slot_after as) nx s)) = (slot_after ?cs, t)"
      "linked t ?cs nx" "seg (snd t) nx bs 0" "stats (fst t) = ?st"
    using cut_front [OF l ok d n(4)] n(5) unfolding nx_def by auto
  have so': "starts_ok (?cs @ (u + n, snd i) # bs)"
    using so n lim i by (auto simp: front_part_def start_ok_def)
  have d': "distinct (map fst (?cs @ (u + n, snd i) # bs))"
  proof -
    have "fst x < snd x" "snd x < fst i" if "x \<in> set as" for x
      using nm that by (simp_all add: ivl_normal_def sorted_wrt_append)
    then have "fst x < u + n" if "x \<in> set as" for x
      using n(4) that by fastforce
    moreover have "u + n < fst y" if "y \<in> set bs" for y
      using nm n(5) that by fastforce
    ultimately have "u + n \<notin> starts as" "u + n \<notin> starts bs"
      by fastforce+
    then show ?thesis
      using d n(2) by (auto simp: front_part_def)
  qed
  obtain t' where t': "(if MIN_BLOCK_SIZE \<le> of_nat (snd i - (u + n))
       then rbind (uadd (of_nat u) (of_nat n)) (\<lambda>a. Inr (write_slot (slot_after ?cs) a
              (write_block a (of_nat (snd i - (u + n))) nx t)))
       else Inr t) = Inr t'"
     "linked t' (?cs @ back_part i (u + n) @ bs) 0" "stats (fst t') = stats (fst t)"
    using cut_back [OF t(2,3) so' d' n(1,3,5) i] by blast
  have w: "unat (of_nat (snd i - fst i) :: usize) = snd i - fst i" "unat (of_nat (u - fst i) :: usize) = u - fst i"
    "unat (of_nat (snd i - u) :: usize) = snd i - u" "unat (of_nat n :: usize) = n"
    "unat (of_nat (snd i - (u + n)) :: usize) = snd i - (u + n)"
    using lim by (intro unat_of_nat_64; simp)+
  have 1: "usub (of_nat (snd i - fst i)) (of_nat (u - fst i)) = Inr (of_nat (snd i - u) :: usize)"
    unfolding usub_Inr w using n by simp
  have 2: "usub (of_nat (snd i - u)) (of_nat n) = Inr (of_nat (snd i - (u + n)) :: usize)"
    unfolding usub_Inr w using n by simp
  have "unat (if MIN_BLOCK_SIZE \<le> of_nat (snd i - (u + n)) then of_nat (snd i - (u + n)) else 0 :: usize) =
      snd i - (u + n)"
    using back_rest [OF i n(1,3,5)] w(5) by (auto simp del: of_nat_diff)
  then have 3: "usub (of_nat (snd i - u))
      (if MIN_BLOCK_SIZE \<le> of_nat (snd i - (u + n)) then of_nat (snd i - (u + n)) else 0) = Inr (of_nat n :: usize)"
    unfolding usub_Inr w using n by simp
  define f k where "f = free_bytes ?st - of_nat n" and "k = alloc_count ?st + 1"
  have f: "usub (free_bytes ?st) (of_nat n) = Inr f" "unat f = unat (free_bytes ?st) - n"
    using fr w(4) by (simp_all add: f_def usub_Inr unat_sub word_le_nat_alt)
  have k: "uadd (alloc_count ?st) 1 = Inr k" "unat k = unat (alloc_count ?st) + 1"
    using c by (simp_all add: k_def uadd_Inr unat_plus_if')
  define s' where "s' = ((fst t')\<lparr>stats := ?st\<lparr>free_bytes := f, alloc_count := k\<rparr>\<rparr>, snd t')"
  have "take_block (of_nat n) (slot_after as) (of_nat (fst i)) (of_nat u) (of_nat (u - fst i)) s = Inr (of_nat u, s')"
    unfolding take_block_def Let_def nx_def [symmetric] sz t(1) prod.case 1 2 3 rbind_simps t'(1) t'(3) t(4) f(1) k(1)
      s'_def ..
  moreover have "linked s' (as @ ivl_parts i u (u + n) @ bs) 0"
    using t'(2) by (simp add: s'_def ivl_parts_def front_part_def back_part_def)
  ultimately show ?thesis
    using f(2) k(2) by (intro exI [of _ s'] exI [of _ f] exI [of _ k]) (simp add: s'_def)
qed

text \<open>The aligned runs of free bytes, and the one that the first fit yields: the lowest.\<close>

definition fit_at :: "nat \<Rightarrow> nat \<Rightarrow> ivl list \<Rightarrow> nat \<Rightarrow> bool" where
  "fit_at n al xs a \<longleftrightarrow> al dvd a \<and> {a ..< a + n} \<subseteq> ivl_cover xs"

lemma fit_at_block:
  assumes "ivl_normal xs" and "0 < n" and "0 < al" and "fit_at n al xs a"
  shows "\<exists>i \<in> set xs. fits n al i \<and> fst i \<le> a \<and> a < snd i \<and> round_up (fst i) al \<le> a"
proof -
  obtain i where i: "i \<in> set xs" "{a ..< a + n} \<subseteq> ivl_span i"
    using ivl_cover_run [OF assms(1,2)] assms(4) unfolding fit_at_def by blast
  have "a \<in> ivl_span i" "a + (n - 1) \<in> ivl_span i"
    by (rule subsetD [OF i(2)], use assms(2) in simp)+
  then have "fst i \<le> a" "a < snd i" "a + n \<le> snd i"
    using assms(2) by auto
  moreover have "round_up (fst i) al \<le> a"
    using calculation(1) assms(3,4) by (auto simp: fit_at_def intro: round_up_least)
  ultimately show ?thesis
    using i(1) by (intro bexI [of _ i]) (simp_all add: fits_def)
qed

lemma first_fit_none:
  assumes "ivl_normal xs" and "0 < n" and "0 < al" and "dropWhile (\<lambda>i. \<not> fits n al i) xs = []"
  shows "\<not> fit_at n al xs a"
  using fit_at_block [OF assms(1-3)] assms(4) by auto

lemma first_fit_some:
  assumes nm: "ivl_normal (as @ i # bs)" and pos: "0 < n" "0 < al"
    and as: "\<forall>j \<in> set as. \<not> fits n al j" and i: "fits n al i"
  defines "u \<equiv> round_up (fst i) al"
  shows "fit_at n al (as @ i # bs) u" and "fit_at n al (as @ i # bs) a \<Longrightarrow> u \<le> a"
proof -
  have u: "fst i \<le> u" "al dvd u" "u + n \<le> snd i"
    using round_up_bounds [OF pos(2)] i by (simp_all add: u_def fits_def)
  then show "fit_at n al (as @ i # bs) u"
    by (auto simp: fit_at_def)
  assume "fit_at n al (as @ i # bs) a"
  then obtain j where j: "j \<in> set (as @ i # bs)" "fits n al j" "fst j \<le> a" "round_up (fst j) al \<le> a"
    using fit_at_block [OF nm pos] by blast
  then consider "j = i" | "j \<in> set bs"
    using as by auto
  then show "u \<le> a"
  proof cases
    case 1
    then show ?thesis
      using j(4) by (simp add: u_def)
  next
    case 2
    then have "snd i < fst j"
      using nm by (simp add: ivl_normal_def sorted_wrt_append)
    then show ?thesis
      using u j(3) by simp
  qed
qed

lemma take_block_rep:
  assumes rep: "heap_rep s xs" and xs: "xs = as @ i # bs"
    and n: "16 dvd n" "0 < n" and u: "16 dvd u" "fst i \<le> u" "u + n \<le> snd i"
    and c: "unat (alloc_count (stats (fst s))) + 1 < 2 ^ 64"
  shows "\<exists>s'. take_block (of_nat n) (slot_after as) (of_nat (fst i)) (of_nat u) (of_nat (u - fst i)) s =
      Inr (of_nat u, s') \<and> heap_rep s' (as @ ivl_parts i u (u + n) @ bs) \<and>
    ivl_cover (as @ ivl_parts i u (u + n) @ bs) = ivl_cover xs - {u ..< u + n} \<and>
    total_bytes (stats (fst s')) = total_bytes (stats (fst s)) \<and>
    unat (alloc_count (stats (fst s'))) = unat (alloc_count (stats (fst s))) + 1 \<and>
    dealloc_count (stats (fst s')) = dealloc_count (stats (fst s))"
proof -
  let ?ys = "as @ ivl_parts i u (u + n) @ bs"
  note r = heap_repD [OF rep, unfolded xs]
  have "u < u + n"
    using n(2) by simp
  note cut = ivl_cut [OF r(3) u(2) this u(3)]
  have run: "{u ..< u + n} \<subseteq> ivl_cover (as @ i # bs)"
    using u by auto
  have "n \<le> unat (free_bytes (stats (fst s)))"
    using card_mono [OF finite_ivl_cover run] r(4) by simp
  then obtain s' f k where s': "take_block (of_nat n) (slot_after as) (of_nat (fst i)) (of_nat u) (of_nat (u - fst i)) s =
      Inr (of_nat u, s')" "linked s' ?ys 0"
    "stats (fst s') = (stats (fst s))\<lparr>free_bytes := f, alloc_count := k\<rparr>"
    "unat f = unat (free_bytes (stats (fst s))) - n" "unat k = unat (alloc_count (stats (fst s))) + 1"
    using take_block_eq [OF r(1,2,3) n u _ c] by blast
  have "\<forall>j \<in> set ?ys. block_ok j"
    using r(2) n u by (auto simp: ivl_parts_def block_ok_def start_ok_def)
  moreover have "unat f = card (ivl_cover ?ys)"
    unfolding cut(2) using s'(4) r(4) run by (subst card_Diff_subset) simp_all
  ultimately have "heap_rep s' ?ys"
    using s' cut(1) by (simp add: heap_rep_def)
  then show ?thesis
    using s' cut(2) xs by auto
qed

lemma heap_alloc_rep:
  assumes rep: "heap_rep s xs" and sz: "0 < sz" and al: "is_power_of_two al"
    and n: "n = rounded (unat sz)" "n < 2 ^ 64" and A: "A = max (unat al) 16"
    and lim: "\<forall>i \<in> set xs. fst i + A < 2 ^ 64" and c: "unat (alloc_count (stats (fst s))) + 1 < 2 ^ 64"
  shows "if \<exists>a. fit_at n A xs a
    then \<exists>p s' ys. heap_alloc sz al s = Some (Inr (Some p, s')) \<and> heap_rep s' ys \<and>
      fit_at n A xs (unat p) \<and> (\<forall>a. fit_at n A xs a \<longrightarrow> unat p \<le> a) \<and>
      ivl_cover ys = ivl_cover xs - {unat p ..< unat p + n} \<and>
      total_bytes (stats (fst s')) = total_bytes (stats (fst s)) \<and>
      unat (alloc_count (stats (fst s'))) = unat (alloc_count (stats (fst s))) + 1 \<and>
      dealloc_count (stats (fst s')) = dealloc_count (stats (fst s))
    else heap_alloc sz al s = Some (Inr (None, s))"
proof -
  let ?al = "max al BLOCK_ALIGN" and ?P = "\<lambda>i. \<not> fits n A i"
  have al': "is_power_of_two ?al" "16 dvd unat ?al" "unat ?al = A" and pos: "0 < n" "0 < A"
    using power_of_two_dvd_16 [OF al] A rounded_bounds(4) n(1) by simp_all
  have lim': "\<forall>i \<in> set xs. fst i + unat ?al < 2 ^ 64"
    using lim al'(3) by simp
  note nm = heap_repD(3) [OF rep]
  have sc: "alloc_scan (of_nat n) ?al s HeadSlot = Some (Inr (case dropWhile ?P xs of
       [] \<Rightarrow> None
     | i # _ \<Rightarrow> Some (slot_after (takeWhile ?P xs), of_nat (fst i),
         of_nat (round_up (fst i) A), of_nat (round_up (fst i) A - fst i))))"
    using alloc_scan_eq [of s "[]" xs ?al n, OF _ heap_repD(2) [OF rep] al'(1,2) lim' n(2)] heap_repD(1) [OF rep]
    unfolding al'(3) append_Nil by (simp add: slot_after_def [of "[]"])
  have rs: "round_size sz = Inr (of_nat n)"
    using round_size_eq [of sz] n by simp
  show ?thesis
  proof (cases "dropWhile ?P xs")
    case Nil
    then show ?thesis
      using first_fit_none [OF nm pos Nil] sc [unfolded Nil list.case] rs sz al by (simp add: heap_alloc_def)
  next
    case (Cons i bs)
    define as where "as = takeWhile ?P xs"
    let ?u = "round_up (fst i) A"
    have xs: "xs = as @ i # bs"
      using takeWhile_dropWhile_id [of ?P xs] Cons by (simp add: as_def)
    have i: "fits n A i" and as: "\<forall>j \<in> set as. \<not> fits n A j"
      using Cons by (auto simp: as_def dropWhile_eq_Cons_conv dest: set_takeWhileD)
    have bi: "block_ok i" and u: "16 dvd ?u" "fst i \<le> ?u" "?u + n \<le> snd i"
      using heap_repD(2) [OF rep] xs round_up_16 [of i A] al'(2,3) pos i
      by (auto simp: fits_def)
    note ff = first_fit_some [OF nm [unfolded xs] pos as i, folded xs]
    have least: "\<forall>a. fit_at n A xs a \<longrightarrow> ?u \<le> a"
      using ff(2) by blast
    have uw: "unat (of_nat ?u :: usize) = ?u"
      using u(3) bi by (intro unat_of_nat_64) (auto simp: block_ok_def)
    obtain s' where s': "take_block (of_nat n) (slot_after as) (of_nat (fst i)) (of_nat ?u) (of_nat (?u - fst i)) s =
        Inr (of_nat ?u, s')" "heap_rep s' (as @ ivl_parts i ?u (?u + n) @ bs)"
      "ivl_cover (as @ ivl_parts i ?u (?u + n) @ bs) = ivl_cover xs - {?u ..< ?u + n}"
      "total_bytes (stats (fst s')) = total_bytes (stats (fst s))"
      "unat (alloc_count (stats (fst s'))) = unat (alloc_count (stats (fst s))) + 1"
      "dealloc_count (stats (fst s')) = dealloc_count (stats (fst s))"
      using take_block_rep [OF rep xs _ pos(1) u c] n(1) rounded_bounds(1) by blast
    have "heap_alloc sz al s = Some (Inr (Some (of_nat ?u), s'))"
      using sc [unfolded Cons list.case as_def [symmetric]] rs sz al s'(1) by (simp add: heap_alloc_def del: of_nat_diff)
    then have "\<exists>p s' ys. heap_alloc sz al s = Some (Inr (Some p, s')) \<and> heap_rep s' ys \<and>
      fit_at n A xs (unat p) \<and> (\<forall>a. fit_at n A xs a \<longrightarrow> unat p \<le> a) \<and>
      ivl_cover ys = ivl_cover xs - {unat p ..< unat p + n} \<and>
      total_bytes (stats (fst s')) = total_bytes (stats (fst s)) \<and>
      unat (alloc_count (stats (fst s'))) = unat (alloc_count (stats (fst s))) + 1 \<and>
      dealloc_count (stats (fst s')) = dealloc_count (stats (fst s))"
      using s'(2-) ff(1) least
      by (intro exI [of _ "of_nat ?u"] exI [of _ s'] exI [of _ "as @ ivl_parts i ?u (?u + n) @ bs"])
        (simp only: uw simp_thms not_False_eq_True)
    then show ?thesis
      using ff(1) by (simp only: if_P [OF exI [of "\<lambda>a. fit_at n A xs a", OF ff(1)]])
  qed
qed

section \<open>Clients of the heap\<close>

text \<open>The list that represents a heap is determined by its memory.\<close>

lemma seg_unique:
  assumes "seg m p xs 0" and "seg m p ys 0" and "\<forall>i \<in> set xs. block_ok i" and "\<forall>i \<in> set ys. block_ok i"
  shows "xs = ys"
  using assms
proof (induction xs arbitrary: p ys)
  case Nil
  then show ?case
    using start_ok_word(3) block_ok_start by (cases ys) auto
next
  case (Cons i xs)
  have bi: "block_ok i"
    using Cons.prems(3) by simp
  then have "p \<noteq> 0"
    using Cons.prems(1) start_ok_word(3) [OF block_ok_start] by simp
  then obtain j ys' where ys: "ys = j # ys'"
    using Cons.prems(2) by (cases ys) auto
  then have bj: "block_ok j"
    using Cons.prems(4) by simp
  have "fst i = fst j"
    using Cons.prems(1,2) ys cells_distinct(1) [OF block_ok_start [OF bi] block_ok_start [OF bj]] by simp
  moreover have "snd i - fst i = snd j - fst j"
    using Cons.prems(1,2) ys unat_size [OF bi] unat_size [OF bj] by (metis seg.simps(2))
  ultimately have "i = j"
    using bi bj by (auto simp: block_ok_def prod_eq_iff)
  moreover have "xs = ys'"
  proof (rule Cons.IH [of "m (p + 8)"])
    show "seg m (m (p + 8)) xs 0" "seg m (m (p + 8)) ys' 0"
      using Cons.prems(1,2) ys by auto
  qed (use Cons.prems(3,4) ys in simp_all)
  ultimately show ?case
    using ys by simp
qed

lemma heap_rep_unique: "heap_rep s xs \<Longrightarrow> heap_rep s ys \<Longrightarrow> xs = ys"
  by (auto simp: heap_rep_def intro: seg_unique)

definition heap_ok :: "heap_state \<Rightarrow> bool" where
  "heap_ok s \<longleftrightarrow> (\<exists>xs. heap_rep s xs)"

definition heap_avail :: "heap_state \<Rightarrow> nat set" where
  "heap_avail s = {a. \<exists>xs. heap_rep s xs \<and> a \<in> ivl_cover xs}"

lemma heap_avail_rep: "heap_rep s xs \<Longrightarrow> heap_avail s = ivl_cover xs"
  by (auto simp: heap_avail_def dest: heap_rep_unique)

text \<open>
  A client's view: a range is a pointer with the size and the alignment it was asked for. The
  alignment may not exceed the distance from a free block to the end of the address space,
  where \<open>align_up\<close> overflows.
\<close>

type_synonym heap_range = "usize \<times> usize \<times> usize"

definition heap_run :: "heap_range \<Rightarrow> nat set" where
  "heap_run r = (case r of (p, sz, al) \<Rightarrow> {unat p ..< unat p + rounded (unat sz)})"

definition heap_run_ok :: "heap_range \<Rightarrow> bool" where
  "heap_run_ok r = (case r of (p, sz, al) \<Rightarrow> block_ok (unat p, unat p + rounded (unat sz)))"

definition align_ok :: "usize \<Rightarrow> heap_state \<Rightarrow> bool" where
  "align_ok al s \<longleftrightarrow> (\<forall>a \<in> heap_avail s. a + max (unat al) 16 < 2 ^ 64)"

definition heap_takes :: "heap_state \<Rightarrow> heap_range \<Rightarrow> heap_state \<Rightarrow> bool" where
  "heap_takes s r s' = (case r of (p, sz, al) \<Rightarrow>
     align_ok al s \<and> heap_alloc sz al s = Some (Inr (Some p, s')))"

definition heap_gives :: "heap_state \<Rightarrow> heap_range \<Rightarrow> heap_state \<Rightarrow> bool" where
  "heap_gives s r s' = (case r of (p, sz, al) \<Rightarrow> heap_dealloc p sz al s = Some (Inr s'))"

lemma after_Some_Inr: "after r f = Some (Inr y) \<longleftrightarrow> (\<exists>x. r = Inr x \<and> f x = Some (Inr y))"
  by (cases r) auto

lemma round_size_Inr: "round_size sz = Inr k \<Longrightarrow> rounded (unat sz) < 2 ^ 64"
proof -
  assume *: "round_size sz = Inr k"
  define w where "w = max sz MIN_BLOCK_SIZE"
  have w: "unat w = max (unat sz) 16"
    by (simp add: w_def max_def word_le_nat_alt MIN_BLOCK_SIZE_def)
  show ?thesis
  proof (cases "unat w mod 16 = 0")
    case True
    then have "rounded (unat sz) = unat w"
      using w by (simp add: rounded_def mod_0_imp_dvd)
    then show ?thesis
      using unat_bound [of w] by simp
  next
    case False
    have r: "rounded (unat sz) = unat w + (16 - unat w mod 16)"
      using round_up_step [of 16 "unat w"] False w by (simp add: rounded_def)
    have "unat (BLOCK_ALIGN - w mod BLOCK_ALIGN) = 16 - unat w mod 16"
      by (subst unat_sub) (auto simp: word_le_nat_alt unat_mod BLOCK_ALIGN_def less_imp_le)
    moreover have "uadd w (BLOCK_ALIGN - w mod BLOCK_ALIGN) = Inr k"
      using * False by (simp add: round_size_def next_multiple_of_def w_def [symmetric] word_eq_unat unat_mod
          BLOCK_ALIGN_def split: if_splits)
    ultimately show ?thesis
      using r unat_bound [of k] by (simp add: uadd_Inr)
  qed
qed

lemma unat_succ_bound: "uadd a 1 = Inr b \<Longrightarrow> unat a + 1 < 2 ^ 64"
  for a b :: usize
  using unat_bound [of b] by (simp add: uadd_Inr)

lemma write_slot_stats: "write_slot p v s = (h, m) \<Longrightarrow> stats h = stats (fst s)"
  using write_slot_head(2) [of p v s] by simp

lemma write_block_stats: "write_block b n v s = (h, m) \<Longrightarrow> h = fst s"
  using write_block_simps(1) [of b n v s] by simp

lemma take_block_count:
  assumes "take_block n p b u d s = Inr r"
  shows "unat (alloc_count (stats (fst s))) + 1 < 2 ^ 64"
  using assms
  by (auto simp: take_block_def Let_def rbind_Inr_iff write_slot_head
      dest!: write_slot_stats write_block_stats unat_succ_bound split: if_splits)

lemma heap_alloc_returns:
  assumes "heap_alloc sz al s = Some (Inr (Some p, s'))"
  shows "0 < sz" and "is_power_of_two al" and "rounded (unat sz) < 2 ^ 64"
    and "unat (alloc_count (stats (fst s))) + 1 < 2 ^ 64"
  using assms
  by (auto simp: heap_alloc_def after_Some_Inr Let_def rbind_Inr_iff
      dest!: round_size_Inr take_block_count split: option.splits)

lemma heap_dealloc_returns:
  assumes "heap_dealloc p sz al s = Some (Inr s')"
  shows "unat (dealloc_count (stats (fst s))) + 1 < 2 ^ 64"
  using assms by (auto simp: heap_dealloc_def after_Some_Inr Let_def dest: unat_succ_bound)

lemma align_ok_blocks:
  assumes "heap_rep s xs" and "align_ok al s"
  shows "\<forall>i \<in> set xs. fst i + max (unat al) 16 < 2 ^ 64"
proof
  fix i
  assume i: "i \<in> set xs"
  then have "fst i \<in> ivl_span i"
    using heap_repD(2) [OF assms(1)] by (auto simp: block_ok_def)
  then have "fst i \<in> heap_avail s"
    using i heap_avail_rep [OF assms(1)] by (auto simp: ivl_cover_def)
  then show "fst i + max (unat al) 16 < 2 ^ 64"
    using assms(2) by (auto simp: align_ok_def)
qed

lemma fit_run_ok:
  assumes rep: "heap_rep s xs" and f: "fit_at n al xs a" and n: "0 < n" "16 dvd n" and al: "16 dvd al"
  shows "block_ok (a, a + n)"
proof -
  have a: "a \<in> ivl_cover xs" "a + n - 1 \<in> ivl_cover xs"
    using f n(1) by (auto simp: fit_at_def)
  have "16 dvd a"
    using f al dvd_trans by (auto simp: fit_at_def)
  moreover from this have "16 dvd a + n"
    using n(2) by simp
  moreover have "0 < a" "a < 2 ^ 64" "a + n - 1 < 2 ^ 64"
    using block_ok_cover [OF heap_repD(2) [OF rep]] a by blast+
  moreover have "a + n \<noteq> 2 ^ 64"
  proof -
    obtain i where i: "i \<in> set xs" "a + n - 1 < snd i"
      using a(2) by (auto simp: ivl_cover_def)
    then show ?thesis
      using heap_repD(2) [OF rep] by (auto simp: block_ok_def)
  qed
  ultimately show ?thesis
    using n(1) by (simp add: block_ok_def start_ok_def)
qed

lemma heap_takes_rep:
  assumes rep: "heap_rep s xs" and t: "heap_takes s (p, sz, al) s'"
  shows "\<exists>ys. heap_rep s' ys \<and> fit_at (rounded (unat sz)) (max (unat al) 16) xs (unat p) \<and>
    ivl_cover ys = ivl_cover xs - heap_run (p, sz, al)"
proof -
  have h: "heap_alloc sz al s = Some (Inr (Some p, s'))" and al: "align_ok al s"
    using t by (simp_all add: heap_takes_def)
  note r = heap_alloc_returns [OF h]
  show ?thesis
    using heap_alloc_rep [OF rep r(1,2) refl r(3) refl align_ok_blocks [OF rep al] r(4)] h
    by (auto simp: heap_run_def split: if_splits)
qed

interpretation hp: range_allocator heap_ok heap_avail heap_run heap_run_ok heap_takes heap_gives
proof unfold_locales
  fix s r s'
  assume ok: "heap_ok s" and t: "heap_takes s r s'"
  obtain p sz al where r: "r = (p, sz, al)"
    by (cases r)
  obtain xs where rep: "heap_rep s xs"
    using ok by (auto simp: heap_ok_def)
  have "is_power_of_two al"
    using t r by (intro heap_alloc_returns(2) [of sz al s p s']) (simp add: heap_takes_def)
  then have al: "16 dvd max (unat al) 16"
    using power_of_two_dvd_16(2,3) by fastforce
  obtain ys where ys: "heap_rep s' ys" "fit_at (rounded (unat sz)) (max (unat al) 16) xs (unat p)"
    "ivl_cover ys = ivl_cover xs - heap_run r"
    using heap_takes_rep [OF rep] t r by blast
  then show "heap_ok s' \<and> heap_run_ok r \<and> heap_run r \<subseteq> heap_avail s \<and> heap_avail s' = heap_avail s - heap_run r"
    using fit_run_ok [OF rep ys(2) rounded_bounds(4,1) al] heap_avail_rep [OF rep] heap_avail_rep [OF ys(1)]
    by (auto simp: heap_ok_def heap_run_def heap_run_ok_def fit_at_def r)
next
  fix s r s'
  assume ok: "heap_ok s" "heap_run_ok r" "heap_run r \<inter> heap_avail s = {}" and g: "heap_gives s r s'"
  obtain p sz al where r: "r = (p, sz, al)"
    by (cases r)
  obtain xs where rep: "heap_rep s xs"
    using ok by (auto simp: heap_ok_def)
  have h: "heap_dealloc p sz al s = Some (Inr s')"
    using g by (simp add: heap_gives_def r)
  have "block_ok (unat p, unat p + rounded (unat sz))" "{unat p ..< unat p + rounded (unat sz)} \<inter> ivl_cover xs = {}"
    using ok(2,3) heap_avail_rep [OF rep] by (simp_all add: heap_run_ok_def heap_run_def r)
  from heap_dealloc_rep [OF rep refl this heap_dealloc_returns [OF h], of al] h
  obtain ys where "heap_rep s' ys" "ivl_cover ys = ivl_cover xs \<union> heap_run r"
    by (auto simp: heap_run_def r)
  then show "heap_ok s' \<and> heap_avail s' = heap_avail s \<union> heap_run r"
    using heap_avail_rep [OF rep] heap_avail_rep by (auto simp: heap_ok_def)
qed

text \<open>A heap of one page for concrete runs.\<close>

definition small_heap :: heap_state where
  "small_heap = (\<lparr>heap_head = 4096,
     stats = \<lparr>total_bytes = 4096, free_bytes = 4096, alloc_count = 0, dealloc_count = 0\<rparr>\<rparr>, (\<lambda>_. 0)(4096 := 4096))"

lemma small_heap_rep: "heap_rep small_heap [(4096, 8192)]"
  by (simp add: heap_rep_def small_heap_def block_ok_def start_ok_def ivl_span_def)

lemma small_heap_facts:
  "ivl_cover [(4096, 8192)] = {4096 ..< 8192}" "rounded 24 = 32" "is_power_of_two (64 :: usize)"
  "unat (alloc_count (stats (fst small_heap))) = 0" "unat (dealloc_count (stats (fst small_heap))) = 0"
  using is_power_of_two_power [where 'a = 64 and k = 6]
  by (simp_all add: ivl_span_def rounded_def round_up_def small_heap_def)

lemma small_heap_fit: "fit_at 32 64 [(4096, 8192)] 4096"
  by (auto simp: fit_at_def ivl_span_def)

section \<open>Counting the free list and the global lock\<close>

lemma count_blocks_eq:
  assumes "seg (snd s) p xs 0" and "\<forall>i \<in> set xs. block_ok i" and "unat c + length xs < 2 ^ 64"
  shows "count_blocks s c p = Some (Inr (of_nat (unat c + length xs)))"
  using assms
proof (induction xs arbitrary: p c)
  case Nil
  then show ?case
    by (subst count_blocks.simps) simp
next
  case (Cons i xs)
  have p: "p \<noteq> 0" and sg: "seg (snd s) (snd s (p + 8)) xs 0"
    using Cons.prems(1,2) start_ok_word(3) [OF block_ok_start, of i] by auto
  have c: "uadd c 1 = Inr (c + 1)" "unat (c + 1) = unat c + 1"
    using Cons.prems(3) by (simp_all add: uadd_Inr unat_plus_if')
  have "count_blocks s (c + 1) (snd s (p + 8)) = Some (Inr (of_nat (unat (c + 1) + length xs)))"
    using Cons.prems(2,3) c(2) by (intro Cons.IH [OF sg]) simp_all
  then show ?case
    using p c by (subst count_blocks.simps) (simp del: of_nat_add)
qed

lemma length_le_cover: "ivl_normal xs \<Longrightarrow> length xs \<le> card (ivl_cover xs)"
proof -
  assume n: "ivl_normal xs"
  have "length xs \<le> (\<Sum>i \<leftarrow> xs. snd i - fst i)"
    using n by (induction xs) auto
  then show ?thesis
    by (simp add: card_ivl_cover [OF n])
qed

lemma free_list_len_rep:
  assumes "heap_rep s xs"
  shows "free_list_len s = Some (Inr (of_nat (length xs)))" and "length xs < 2 ^ 64"
proof -
  show l: "length xs < 2 ^ 64"
    using length_le_cover heap_repD [OF assms] card_cover_less le_less_trans by blast
  then show "free_list_len s = Some (Inr (of_nat (length xs)))"
    using count_blocks_eq [of s "heap_head (fst s)" xs 0] heap_repD [OF assms] by (simp add: free_list_len_def)
qed

section \<open>Properties\<close>



text \<open>
  C18. Freeing an allocation with the layout it was made with restores the free list: the very
  same blocks, with the same number of free bytes, as before the allocation.
\<close>

theorem heap_alloc_dealloc_roundtrip:
  assumes "heap_rep s xs" and "align_ok al s" and "heap_alloc sz al s = Some (Inr (Some p, s'))"
    and "unat (dealloc_count (stats (fst s))) + 1 < 2 ^ 64"
  shows "\<exists>s''. heap_dealloc p sz al s' = Some (Inr s'') \<and> heap_rep s'' xs \<and>
    free_bytes (stats (fst s'')) = free_bytes (stats (fst s)) \<and>
    total_bytes (stats (fst s'')) = total_bytes (stats (fst s)) \<and>
    unat (alloc_count (stats (fst s''))) = unat (alloc_count (stats (fst s))) + 1 \<and>
    unat (dealloc_count (stats (fst s''))) = unat (dealloc_count (stats (fst s))) + 1"
proof -
  let ?n = "rounded (unat sz)" and ?A = "max (unat al) 16"
  note r = heap_alloc_returns [OF assms(3)]
  obtain ys where ys: "heap_rep s' ys" "fit_at ?n ?A xs (unat p)" "ivl_cover ys = ivl_cover xs - {unat p ..< unat p + ?n}"
    "total_bytes (stats (fst s')) = total_bytes (stats (fst s))"
    "unat (alloc_count (stats (fst s'))) = unat (alloc_count (stats (fst s))) + 1"
    "dealloc_count (stats (fst s')) = dealloc_count (stats (fst s))"
    using heap_alloc_rep [OF assms(1) r(1,2) refl r(3) refl align_ok_blocks [OF assms(1,2)] r(4)] assms(3)
    by (auto split: if_splits)
  have "16 dvd ?A"
    using power_of_two_dvd_16(2,3) [OF r(2)] by simp
  note b = fit_run_ok [OF assms(1) ys(2) rounded_bounds(4,1) this]
  have "{unat p ..< unat p + ?n} \<inter> ivl_cover ys = {}" "unat (dealloc_count (stats (fst s'))) + 1 < 2 ^ 64"
    using ys(3,6) assms(4) by auto
  from heap_dealloc_rep [OF ys(1) refl b this, of al]
  obtain s'' zs where z: "heap_dealloc p sz al s' = Some (Inr s'')" "heap_rep s'' zs"
    "ivl_cover zs = ivl_cover ys \<union> {unat p ..< unat p + ?n}"
    "total_bytes (stats (fst s'')) = total_bytes (stats (fst s'))"
    "alloc_count (stats (fst s'')) = alloc_count (stats (fst s'))"
    "unat (dealloc_count (stats (fst s''))) = unat (dealloc_count (stats (fst s'))) + 1"
    by blast
  have "ivl_cover zs = ivl_cover xs"
    using z(3) ys(2,3) by (auto simp: fit_at_def)
  then have "zs = xs"
    using ivl_normal_unique heap_repD(3) assms(1) z(2) by blast
  then show ?thesis
    using z ys(4-6) heap_repD(4) [OF assms(1)] heap_repD(4) [OF z(2)] by (auto simp: word_eq_unat)
qed

lemma small_align_ok: "align_ok 64 small_heap"
  using heap_avail_rep [OF small_heap_rep] small_heap_facts(1) by (simp add: align_ok_def)

lemma small_heap_alloc:
  "\<exists>p s'. heap_alloc 24 64 small_heap = Some (Inr (Some p, s')) \<and> heap_takes small_heap (p, 24, 64) s'"
proof -
  have f: "\<exists>a. fit_at 32 64 [(4096, 8192)] a"
    using small_heap_fit by blast
  have "(0 :: usize) < 24" "32 = rounded (unat (24 :: usize))" "(32 :: nat) < 2 ^ 64" "64 = max (unat (64 :: usize)) 16"
    "\<forall>i \<in> set [(4096 :: nat, 8192 :: nat)]. fst i + 64 < 2 ^ 64" "unat (alloc_count (stats (fst small_heap))) + 1 < 2 ^ 64"
    using small_heap_facts by simp_all
  then have "\<exists>p s'. heap_alloc 24 64 small_heap = Some (Inr (Some p, s'))"
    using heap_alloc_rep [OF small_heap_rep _ small_heap_facts(3), of 24 32 64] f by (simp only: if_True) blast
  then show ?thesis
    using small_align_ok by (simp only: heap_takes_def prod.case simp_thms)
qed

theorem heap_alloc_dealloc_roundtrip_witness:
  "\<exists>p s' s''. heap_alloc 24 64 small_heap = Some (Inr (Some p, s')) \<and>
     heap_dealloc p 24 64 s' = Some (Inr s'') \<and> heap_rep s'' [(4096, 8192)]"
proof -
  obtain p s' where *: "heap_alloc 24 64 small_heap = Some (Inr (Some p, s'))"
    using small_heap_alloc by blast
  then show ?thesis
    using heap_alloc_dealloc_roundtrip [OF small_heap_rep small_align_ok *] small_heap_facts by auto
qed

text \<open>
  C19. In every state that clients reach by allocating and by freeing what they hold, the runs
  they hold are pairwise disjoint, none meets the free bytes, and together with the free
  bytes they are the bytes the heap started with. When everything has been freed, the free
  list is the initial one again.
\<close>

theorem heap_clients_disjoint:
  assumes "range_reach heap_takes heap_gives s0 rs s" and "heap_rep s0 xs"
  shows "\<exists>ys. heap_rep s ys \<and> sorted_wrt (\<lambda>r t. heap_run r \<inter> heap_run t = {}) rs \<and>
    (\<Union>r \<in> set rs. heap_run r) \<inter> ivl_cover ys = {} \<and>
    (\<Union>r \<in> set rs. heap_run r) \<union> ivl_cover ys = ivl_cover xs \<and> (rs = [] \<longrightarrow> ys = xs)"
proof -
  have "heap_ok s0"
    using assms(2) by (auto simp: heap_ok_def)
  note inv = hp.reach_inv [OF assms(1) this]
  obtain ys where ys: "heap_rep s ys"
    using inv by (auto simp: heap_ok_def)
  note av = heap_avail_rep [OF ys] heap_avail_rep [OF assms(2)]
  have "ys = xs" if "rs = []"
    using that inv av ivl_normal_unique heap_repD(3) [OF ys] heap_repD(3) [OF assms(2)] by simp
  then show ?thesis
    using inv av ys by (intro exI [of _ ys]) simp
qed

theorem heap_clients_disjoint_witness:
  "\<exists>p s' ys. range_reach heap_takes heap_gives small_heap [(p, 24, 64)] s' \<and> heap_rep s' ys \<and>
     heap_run (p, 24, 64) \<inter> ivl_cover ys = {} \<and> heap_run (p, 24, 64) \<union> ivl_cover ys = {4096 ..< 8192}"
proof -
  obtain p s' where "heap_takes small_heap (p, 24, 64) s'"
    using small_heap_alloc by blast
  then have r: "range_reach heap_takes heap_gives small_heap [(p, 24, 64)] s'"
    using reach_take [OF reach_start] by metis
  obtain ys where "heap_rep s' ys" "heap_run (p, 24, 64) \<inter> ivl_cover ys = {}"
    "heap_run (p, 24, 64) \<union> ivl_cover ys = {4096 ..< 8192}"
    using heap_clients_disjoint [OF r small_heap_rep] unfolding small_heap_facts(1) by auto
  then show ?thesis
    using r by blast
qed

text \<open>
  C20. Freeing a run that is not free, and adding fresh memory to the heap, insert it into the
  sorted free list and merge it with the blocks it touches: the result is again a sorted list
  of blocks with gaps between them, which covers the old free bytes and the new ones, and the
  byte counters follow. The search for the place in the list ends.
\<close>

theorem heap_insertions_correct:
  assumes "heap_rep s xs" and "block_ok (unat ptr, unat ptr + n)"
    and "{unat ptr ..< unat ptr + n} \<inter> ivl_cover xs = {}"
  shows "(n = rounded (unat sz) \<and> unat (dealloc_count (stats (fst s))) + 1 < 2 ^ 64 \<longrightarrow>
      (\<exists>s' ys. heap_dealloc ptr sz al s = Some (Inr s') \<and> heap_rep s' ys \<and>
        ivl_cover ys = ivl_cover xs \<union> {unat ptr ..< unat ptr + n} \<and>
        unat (free_bytes (stats (fst s'))) = unat (free_bytes (stats (fst s))) + n)) \<and>
    (n = unat sz - unat sz mod 16 \<and> unat (total_bytes (stats (fst s))) + n < 2 ^ 64 \<longrightarrow>
      (\<exists>s' ys. add_memory ptr sz s = Some (Inr s') \<and> heap_rep s' ys \<and>
        ivl_cover ys = ivl_cover xs \<union> {unat ptr ..< unat ptr + n} \<and>
        unat (free_bytes (stats (fst s'))) = unat (free_bytes (stats (fst s))) + n \<and>
        unat (total_bytes (stats (fst s'))) = unat (total_bytes (stats (fst s))) + n))"
proof -
  have "card (ivl_cover xs \<union> {unat ptr ..< unat ptr + n}) = card (ivl_cover xs) + n"
    using assms(3) by (subst card_Un_disjoint) auto
  then have fr: "unat (free_bytes (stats (fst s'))) = unat (free_bytes (stats (fst s))) + n"
    if "heap_rep s' ys" "ivl_cover ys = ivl_cover xs \<union> {unat ptr ..< unat ptr + n}" for s' ys
    using heap_repD(4) [OF that(1)] heap_repD(4) [OF assms(1)] that(2) by simp
  show ?thesis
    using heap_dealloc_rep [OF assms(1) _ assms(2,3), of sz al] add_memory_rep [OF assms(1) _ assms(2,3), of sz] fr
    by meson
qed

lemma heap_new_rep: "heap_rep (heap_new, m) []"
  by (simp add: heap_rep_def heap_new_def)

theorem heap_insertions_correct_witness:
  "\<exists>s' ys. add_memory 4096 4096 (heap_new, \<lambda>_. 0) = Some (Inr s') \<and> heap_rep s' ys \<and> ivl_cover ys = {4096 ..< 8192}"
proof -
  have "block_ok (unat (4096 :: usize), unat (4096 :: usize) + 4096)"
    "{unat (4096 :: usize) ..< unat (4096 :: usize) + 4096} \<inter> ivl_cover [] = {}"
    by (simp_all add: block_ok_def start_ok_def)
  note * = heap_insertions_correct [OF heap_new_rep this, of 4096, THEN conjunct2, THEN mp, of "\<lambda>_. 0"]
  have "4096 = unat (4096 :: usize) - unat (4096 :: usize) mod 16 \<and>
      unat (total_bytes (stats (fst (heap_new, (\<lambda>_. 0) :: mem)))) + 4096 < 2 ^ 64"
    by (simp add: heap_new_def)
  from * [OF this] obtain s' ys where "add_memory 4096 4096 (heap_new, \<lambda>_. 0) = Some (Inr s')" "heap_rep s' ys"
    "ivl_cover ys = ivl_cover [] \<union> {unat (4096 :: usize) ..< unat (4096 :: usize) + 4096}"
    by blast
  moreover from this(3) have "ivl_cover ys = {4096 ..< 8192}"
    by simp
  ultimately show ?thesis
    by blast
qed

text \<open>
  C21. \<open>free_list_len\<close> returns the number of blocks of the free list: the walk over the list
  ends and the counter does not overflow.
\<close>

theorem free_list_len_correct:
  assumes "heap_rep s xs"
  shows "\<exists>n. free_list_len s = Some (Inr n) \<and> unat n = length xs \<and> (n = 0 \<longleftrightarrow> heap_is_empty (fst s))"
proof -
  have n: "unat (of_nat (length xs) :: usize) = length xs"
    by (rule unat_of_nat_64 [OF free_list_len_rep(2) [OF assms]])
  have "heap_head (fst s) = 0 \<longleftrightarrow> xs = []"
    using heap_repD(1,2) [OF assms] start_ok_word(3) [OF block_ok_start] by (cases xs) auto
  then show ?thesis
    using free_list_len_rep(1) [OF assms] n
    by (intro exI [of _ "of_nat (length xs)"]) (auto simp: heap_is_empty_def word_eq_unat)
qed

theorem free_list_len_correct_witness: "\<exists>n. free_list_len small_heap = Some (Inr n) \<and> unat n = 1"
  using free_list_len_correct [OF small_heap_rep] by auto



end
