(* ===== verification/Paging.thy ===== *)
theory Paging
  imports Frame
begin

text \<open>
  Page protection flags, errors and the pending TLB flush of the architecture-independent
  paging interface (\<open>eira/src/mm/paging/mod.rs\<close>), and the entries and levels of the x86-64
  page tables (\<open>eira/src/arch/x86_64/paging/entry.rs\<close> and \<open>table.rs\<close>).
\<close>

section \<open>Page flags\<close>

datatype page_flags = PageFlags (pf_bits: u8)

definition PF_READ :: page_flags where "PF_READ = PageFlags (push_bit 0 1)"
definition PF_WRITE :: page_flags where "PF_WRITE = PageFlags (push_bit 1 1)"
definition PF_EXECUTE :: page_flags where "PF_EXECUTE = PageFlags (push_bit 2 1)"
definition PF_USER :: page_flags where "PF_USER = PageFlags (push_bit 3 1)"
definition PF_UNCACHED :: page_flags where "PF_UNCACHED = PageFlags (push_bit 4 1)"
definition PF_GLOBAL :: page_flags where "PF_GLOBAL = PageFlags (push_bit 5 1)"

definition pf_empty :: page_flags where
  "pf_empty = PageFlags 0"

definition pf_contains :: "page_flags \<Rightarrow> page_flags \<Rightarrow> bool" where
  "pf_contains a b \<longleftrightarrow> pf_bits a AND pf_bits b = pf_bits b"

definition pf_is_empty :: "page_flags \<Rightarrow> bool" where
  "pf_is_empty a \<longleftrightarrow> pf_bits a = 0"

definition pf_or :: "page_flags \<Rightarrow> page_flags \<Rightarrow> page_flags" where
  "pf_or a b = PageFlags (pf_bits a OR pf_bits b)"

definition pf_without :: "page_flags \<Rightarrow> page_flags \<Rightarrow> page_flags" where
  "pf_without a b = PageFlags (pf_bits a AND NOT (pf_bits b))"

definition kernel_data :: page_flags where
  "kernel_data = PageFlags (pf_bits PF_READ OR pf_bits PF_WRITE OR pf_bits PF_GLOBAL)"

definition kernel_code :: page_flags where
  "kernel_code = PageFlags (pf_bits PF_READ OR pf_bits PF_EXECUTE OR pf_bits PF_GLOBAL)"

definition user_data :: page_flags where
  "user_data = PageFlags (pf_bits PF_READ OR pf_bits PF_WRITE OR pf_bits PF_USER)"

definition user_code :: page_flags where
  "user_code = PageFlags (pf_bits PF_READ OR pf_bits PF_EXECUTE OR pf_bits PF_USER)"

section \<open>Errors and the pending flush\<close>

datatype map_error = AlreadyMapped | FrameAllocationFailed | MapUnaligned

datatype unmap_error = NotMapped | UnmapUnaligned | HugePage

text \<open>
  A \<open>TlbFlush\<close> is a move-only token. \<open>flush\<close> issues the instruction for its address, which
  the model records in a log; \<open>ignore\<close> forgets the token; dropping it panics.
\<close>

datatype tlb_flush = TlbFlush (tlb_addr: virt_addr)

definition tlb_new :: "virt_addr \<Rightarrow> tlb_flush" where
  "tlb_new addr = TlbFlush addr"

definition flush_tlb_page :: "virt_addr \<Rightarrow> virt_addr list \<Rightarrow> virt_addr list" where
  "flush_tlb_page addr log = log @ [addr]"

definition tlb_flush_now :: "tlb_flush \<Rightarrow> virt_addr list \<Rightarrow> virt_addr list" where
  "tlb_flush_now t log = flush_tlb_page (tlb_addr t) log"

definition tlb_ignore :: "tlb_flush \<Rightarrow> unit" where
  "tlb_ignore t = ()"

definition tlb_drop :: "tlb_flush \<Rightarrow> unit res" where
  "tlb_drop t = Inl (Panic ''TlbFlush dropped without being flushed or ignored'')"

section \<open>Page table entries\<close>

definition PHYS_MASK :: u64 where
  "PHYS_MASK = 0x000ffffffffff000"

datatype entry_flags = EntryFlags (ef_bits: u64)

definition EF_PRESENT :: entry_flags where "EF_PRESENT = EntryFlags (push_bit 0 1)"
definition EF_WRITABLE :: entry_flags where "EF_WRITABLE = EntryFlags (push_bit 1 1)"
definition EF_USER :: entry_flags where "EF_USER = EntryFlags (push_bit 2 1)"
definition EF_WRITE_THROUGH :: entry_flags where "EF_WRITE_THROUGH = EntryFlags (push_bit 3 1)"
definition EF_CACHE_DISABLE :: entry_flags where "EF_CACHE_DISABLE = EntryFlags (push_bit 4 1)"
definition EF_ACCESSED :: entry_flags where "EF_ACCESSED = EntryFlags (push_bit 5 1)"
definition EF_DIRTY :: entry_flags where "EF_DIRTY = EntryFlags (push_bit 6 1)"
definition EF_HUGE_PAGE :: entry_flags where "EF_HUGE_PAGE = EntryFlags (push_bit 7 1)"
definition EF_GLOBAL :: entry_flags where "EF_GLOBAL = EntryFlags (push_bit 8 1)"
definition EF_NO_EXECUTE :: entry_flags where "EF_NO_EXECUTE = EntryFlags (push_bit 63 1)"

definition ef_empty :: entry_flags where
  "ef_empty = EntryFlags 0"

definition ef_contains :: "entry_flags \<Rightarrow> entry_flags \<Rightarrow> bool" where
  "ef_contains a b \<longleftrightarrow> ef_bits a AND ef_bits b = ef_bits b"

definition ef_is_empty :: "entry_flags \<Rightarrow> bool" where
  "ef_is_empty a \<longleftrightarrow> ef_bits a = 0"

definition ef_or :: "entry_flags \<Rightarrow> entry_flags \<Rightarrow> entry_flags" where
  "ef_or a b = EntryFlags (ef_bits a OR ef_bits b)"

definition ef_without :: "entry_flags \<Rightarrow> entry_flags \<Rightarrow> entry_flags" where
  "ef_without a b = EntryFlags (ef_bits a AND NOT (ef_bits b))"

definition entry_flags_from_page_flags :: "page_flags \<Rightarrow> entry_flags" where
  "entry_flags_from_page_flags pf =
     (let ef = EF_PRESENT;
          ef = (if pf_contains pf PF_WRITE then ef_or ef EF_WRITABLE else ef);
          ef = (if pf_contains pf PF_USER then ef_or ef EF_USER else ef);
          ef = (if pf_contains pf PF_UNCACHED then ef_or ef EF_CACHE_DISABLE else ef);
          ef = (if pf_contains pf PF_GLOBAL then ef_or ef EF_GLOBAL else ef);
          ef = (if \<not> pf_contains pf PF_EXECUTE then ef_or ef EF_NO_EXECUTE else ef)
      in ef)"

definition page_flags_from_entry_flags :: "entry_flags \<Rightarrow> page_flags" where
  "page_flags_from_entry_flags ef =
     (let pf = PF_READ;
          pf = (if ef_contains ef EF_WRITABLE then pf_or pf PF_WRITE else pf);
          pf = (if ef_contains ef EF_USER then pf_or pf PF_USER else pf);
          pf = (if ef_contains ef EF_CACHE_DISABLE then pf_or pf PF_UNCACHED else pf);
          pf = (if ef_contains ef EF_GLOBAL then pf_or pf PF_GLOBAL else pf);
          pf = (if \<not> ef_contains ef EF_NO_EXECUTE then pf_or pf PF_EXECUTE else pf)
      in pf)"

datatype page_table_entry = PageTableEntry (pte_raw: u64)

definition PTE_EMPTY :: page_table_entry where
  "PTE_EMPTY = PageTableEntry 0"

definition pte_flags :: "page_table_entry \<Rightarrow> entry_flags" where
  "pte_flags e = EntryFlags (pte_raw e AND NOT PHYS_MASK)"

definition is_present :: "page_table_entry \<Rightarrow> bool" where
  "is_present e = ef_contains (pte_flags e) EF_PRESENT"

definition is_huge :: "page_table_entry \<Rightarrow> bool" where
  "is_huge e = ef_contains (pte_flags e) EF_HUGE_PAGE"

definition pte_frame :: "page_table_entry \<Rightarrow> phys_frame option res" where
  "pte_frame e =
     (if \<not> is_present e then Inr None
      else frame_from_base PAGE_SIZE (phys_new_unchecked (pte_raw e AND PHYS_MASK)))"

definition pte_new :: "phys_frame \<Rightarrow> entry_flags \<Rightarrow> page_table_entry" where
  "pte_new frame flags = PageTableEntry ((phys_as_usize (frame_base frame) AND PHYS_MASK) OR ef_bits flags)"

definition pte_clear :: "page_table_entry \<Rightarrow> page_table_entry" where
  "pte_clear e = PageTableEntry 0"

section \<open>Levels\<close>

definition ENTRY_COUNT :: usize where
  "ENTRY_COUNT = 512"

datatype page_table_level = One | Two | Three | Four

definition level_next :: "page_table_level \<Rightarrow> page_table_level option" where
  "level_next l = (case l of Four \<Rightarrow> Some Three | Three \<Rightarrow> Some Two | Two \<Rightarrow> Some One | One \<Rightarrow> None)"

definition level_is_leaf :: "page_table_level \<Rightarrow> bool" where
  "level_is_leaf l \<longleftrightarrow> l = One"

definition level_number :: "page_table_level \<Rightarrow> u32" where
  "level_number l = (case l of One \<Rightarrow> 1 | Two \<Rightarrow> 2 | Three \<Rightarrow> 3 | Four \<Rightarrow> 4)"

definition index_shift :: "page_table_level \<Rightarrow> u32" where
  "index_shift l = 12 + (level_number l - 1) * 9"

definition index_of :: "page_table_level \<Rightarrow> virt_addr \<Rightarrow> usize" where
  "index_of l virt = drop_bit (unat (index_shift l)) (virt_as_usize virt) AND 0x1FF"

section \<open>Tables in memory\<close>

text \<open>
  A table is a pointer to 512 consecutive entries; \<open>entry\<close> and \<open>entry_mut\<close> yield the address
  of one entry and panic outside the array.
\<close>

definition table_entry :: "usize \<Rightarrow> usize \<Rightarrow> usize res" where
  "table_entry table idx =
     rbind (require (idx < ENTRY_COUNT) ''index out of bounds'') (\<lambda>_. Inr (table + 8 * idx))"

definition read_entry :: "mem \<Rightarrow> usize \<Rightarrow> page_table_entry" where
  "read_entry m ptr = PageTableEntry (m ptr)"

definition write_entry :: "usize \<Rightarrow> page_table_entry \<Rightarrow> mem \<Rightarrow> mem" where
  "write_entry ptr e m = m(ptr := pte_raw e)"

definition table_zero :: "usize \<Rightarrow> mem \<Rightarrow> mem" where
  "table_zero table m =
     fold (\<lambda>i m. write_entry (table + 8 * i) (pte_clear (read_entry m (table + 8 * i))) m)
       (map of_nat [0..<unat ENTRY_COUNT]) m"

section \<open>Flags, frames and indices\<close>

lemma and_single_bit:
  fixes a :: "'a::len word"
  assumes "n < LENGTH('a)"
  shows "a AND push_bit n 1 = push_bit n 1 \<longleftrightarrow> bit a n"
proof
  assume "a AND push_bit n 1 = push_bit n 1"
  then have "bit (a AND push_bit n 1) n \<longleftrightarrow> bit (push_bit n 1 :: 'a word) n"
    by (simp only:)
  then show "bit a n"
    using assms by (simp add: bit_simps)
next
  assume *: "bit a n"
  have "bit (a AND push_bit n 1) k \<longleftrightarrow> bit (push_bit n 1 :: 'a word) k" for k
    using * by (cases "k = n") (auto simp: bit_simps)
  then show "a AND push_bit n 1 = push_bit n 1"
    by (intro bit_eqI)
qed

lemma PHYS_MASK_mask: "PHYS_MASK = push_bit 12 (mask 40)"
  by (simp add: PHYS_MASK_def push_bit_eq_mult mask_eq_exp_minus_1)

lemma bit_PHYS_MASK [simp]: "bit PHYS_MASK n \<longleftrightarrow> 12 \<le> n \<and> n < 52"
  by (auto simp: PHYS_MASK_mask bit_simps)

lemma bit_pte_flags: "bit (ef_bits (pte_flags e)) n \<longleftrightarrow> bit (pte_raw e) n \<and> (n < 12 \<or> 52 \<le> n)"
  by (auto simp: pte_flags_def bit_simps dest: bit_imp_le_length)

lemma is_present_bit: "is_present e \<longleftrightarrow> bit (pte_raw e) 0"
  unfolding is_present_def ef_contains_def EF_PRESENT_def entry_flags.sel
  by (subst and_single_bit) (simp_all add: bit_pte_flags)

lemma is_huge_bit: "is_huge e \<longleftrightarrow> bit (pte_raw e) 7"
  unfolding is_huge_def ef_contains_def EF_HUGE_PAGE_def entry_flags.sel
  by (subst and_single_bit) (simp_all add: bit_pte_flags)

lemma ef_contains_bit:
  "ef_contains ef EF_WRITABLE \<longleftrightarrow> bit (ef_bits ef) 1" "ef_contains ef EF_USER \<longleftrightarrow> bit (ef_bits ef) 2"
  "ef_contains ef EF_CACHE_DISABLE \<longleftrightarrow> bit (ef_bits ef) 4" "ef_contains ef EF_GLOBAL \<longleftrightarrow> bit (ef_bits ef) 8"
  "ef_contains ef EF_NO_EXECUTE \<longleftrightarrow> bit (ef_bits ef) 63"
  unfolding ef_contains_def EF_WRITABLE_def EF_USER_def EF_CACHE_DISABLE_def EF_GLOBAL_def EF_NO_EXECUTE_def
    entry_flags.sel by (rule and_single_bit; simp)+

lemma pf_contains_bit:
  "pf_contains pf PF_WRITE \<longleftrightarrow> bit (pf_bits pf) 1" "pf_contains pf PF_EXECUTE \<longleftrightarrow> bit (pf_bits pf) 2"
  "pf_contains pf PF_USER \<longleftrightarrow> bit (pf_bits pf) 3" "pf_contains pf PF_UNCACHED \<longleftrightarrow> bit (pf_bits pf) 4"
  "pf_contains pf PF_GLOBAL \<longleftrightarrow> bit (pf_bits pf) 5"
  unfolding pf_contains_def PF_WRITE_def PF_EXECUTE_def PF_USER_def PF_UNCACHED_def PF_GLOBAL_def
    page_flags.sel by (rule and_single_bit; simp)+

lemma bit_push_one: "bit (push_bit k 1 :: 'a::len word) n \<longleftrightarrow> n = k \<and> k < LENGTH('a)"
  by (auto simp: bit_simps)

lemma bit_ef_consts:
  "bit (ef_bits EF_PRESENT) n \<longleftrightarrow> n = 0" "bit (ef_bits EF_WRITABLE) n \<longleftrightarrow> n = 1" "bit (ef_bits EF_USER) n \<longleftrightarrow> n = 2"
  "bit (ef_bits EF_CACHE_DISABLE) n \<longleftrightarrow> n = 4" "bit (ef_bits EF_GLOBAL) n \<longleftrightarrow> n = 8"
  "bit (ef_bits EF_NO_EXECUTE) n \<longleftrightarrow> n = 63"
  unfolding EF_PRESENT_def EF_WRITABLE_def EF_USER_def EF_CACHE_DISABLE_def EF_GLOBAL_def EF_NO_EXECUTE_def
    entry_flags.sel bit_push_one by simp_all

lemma bit_pf_consts:
  "bit (pf_bits PF_READ) n \<longleftrightarrow> n = 0" "bit (pf_bits PF_WRITE) n \<longleftrightarrow> n = 1" "bit (pf_bits PF_EXECUTE) n \<longleftrightarrow> n = 2"
  "bit (pf_bits PF_USER) n \<longleftrightarrow> n = 3" "bit (pf_bits PF_UNCACHED) n \<longleftrightarrow> n = 4" "bit (pf_bits PF_GLOBAL) n \<longleftrightarrow> n = 5"
  unfolding PF_READ_def PF_WRITE_def PF_EXECUTE_def PF_USER_def PF_UNCACHED_def PF_GLOBAL_def
    page_flags.sel bit_push_one by simp_all

lemma bit_or_if:
  "bit (ef_bits (if c then ef_or a b else a)) n \<longleftrightarrow> bit (ef_bits a) n \<or> c \<and> bit (ef_bits b) n"
  "bit (pf_bits (if c then pf_or p q else p)) n \<longleftrightarrow> bit (pf_bits p) n \<or> c \<and> bit (pf_bits q) n"
  by (auto simp: ef_or_def pf_or_def bit_or_iff)

lemma bit_entry_flags:
  "bit (ef_bits (entry_flags_from_page_flags pf)) n \<longleftrightarrow>
     n = 0 \<or> bit (pf_bits pf) 1 \<and> n = 1 \<or> bit (pf_bits pf) 3 \<and> n = 2 \<or> bit (pf_bits pf) 4 \<and> n = 4 \<or>
     bit (pf_bits pf) 5 \<and> n = 8 \<or> \<not> bit (pf_bits pf) 2 \<and> n = 63"
  unfolding entry_flags_from_page_flags_def Let_def bit_or_if bit_ef_consts pf_contains_bit by simp

lemma bit_page_flags:
  "bit (pf_bits (page_flags_from_entry_flags ef)) n \<longleftrightarrow>
     n = 0 \<or> bit (ef_bits ef) 1 \<and> n = 1 \<or> bit (ef_bits ef) 2 \<and> n = 3 \<or> bit (ef_bits ef) 4 \<and> n = 4 \<or>
     bit (ef_bits ef) 8 \<and> n = 5 \<or> \<not> bit (ef_bits ef) 63 \<and> n = 2"
  unfolding page_flags_from_entry_flags_def Let_def bit_or_if bit_pf_consts ef_contains_bit by simp

lemma page_flags_entry_flags:
  "page_flags_from_entry_flags (entry_flags_from_page_flags pf) = PageFlags ((pf_bits pf AND mask 6) OR 1)"
proof (rule page_flags.expand, rule bit_word_eqI)
  fix n
  assume "n < LENGTH(8)"
  then have "n \<in> {0, 1, 2, 3, 4, 5, 6, 7}"
    by auto
  then show "bit (pf_bits (page_flags_from_entry_flags (entry_flags_from_page_flags pf))) n \<longleftrightarrow>
      bit (pf_bits (PageFlags ((pf_bits pf AND mask 6) OR 1))) n"
    unfolding bit_page_flags bit_entry_flags by (auto simp: bit_simps)
qed

lemma frame_ok_bits:
  assumes "frame_ok PAGE_SIZE f" and "bit (phys_as_usize (frame_base f)) n"
  shows "12 \<le> n" and "n < 52"
proof -
  let ?a = "phys_as_usize (frame_base f)"
  have a: "4096 dvd unat ?a" "unat ?a < 2 ^ 52"
    using assms(1) by (simp_all add: frame_ok_def phys_ok_iff phys_limit_def)
  have b: "bit (unat ?a) n"
    using assms(2) by (simp add: bit_unsigned_iff)
  show "12 \<le> n"
  proof (rule ccontr)
    assume "\<not> 12 \<le> n"
    then have "bit (take_bit 12 (unat ?a)) n"
      using b by (simp add: bit_take_bit_iff)
    moreover have "take_bit 12 (unat ?a) = 0"
      using a(1) by (simp add: take_bit_eq_mod)
    ultimately show False
      by simp
  qed
  have "take_bit 52 (unat ?a) = unat ?a"
    using a(2) by (simp add: take_bit_eq_mod)
  then show "n < 52"
    using b by (metis bit_take_bit_iff)
qed

definition flags_ok :: "entry_flags \<Rightarrow> bool" where
  "flags_ok fl \<longleftrightarrow> ef_bits fl AND PHYS_MASK = 0"

lemma flags_ok_bit: "flags_ok fl \<Longrightarrow> bit (ef_bits fl) n \<Longrightarrow> n < 12 \<or> 52 \<le> n"
proof (rule ccontr)
  assume *: "flags_ok fl" "bit (ef_bits fl) n" "\<not> (n < 12 \<or> 52 \<le> n)"
  then have "bit (ef_bits fl AND PHYS_MASK) n"
    by (simp add: bit_and_iff)
  then show False
    using *(1) by (simp add: flags_ok_def)
qed

lemma entry_flags_ok [simp]: "flags_ok (entry_flags_from_page_flags pf)"
  unfolding flags_ok_def by (rule bit_eqI) (auto simp: bit_and_iff bit_entry_flags)

lemma pte_new_bits:
  assumes "frame_ok PAGE_SIZE f" and "flags_ok fl"
  shows "pte_raw (pte_new f fl) AND PHYS_MASK = phys_as_usize (frame_base f)"
    and "pte_flags (pte_new f fl) = fl"
    and "bit (pte_raw (pte_new f fl)) n \<longleftrightarrow> bit (phys_as_usize (frame_base f)) n \<or> bit (ef_bits fl) n"
proof -
  note f = frame_ok_bits [OF assms(1)] and fl = flags_ok_bit [OF assms(2)]
  show "pte_raw (pte_new f fl) AND PHYS_MASK = phys_as_usize (frame_base f)"
    by (rule bit_eqI) (use f fl in \<open>fastforce simp: pte_new_def bit_and_iff bit_or_iff\<close>)
  show "pte_flags (pte_new f fl) = fl"
    by (rule entry_flags.expand, rule bit_eqI)
      (use f fl in \<open>fastforce simp: bit_pte_flags pte_new_def bit_and_iff bit_or_iff\<close>)
  show "bit (pte_raw (pte_new f fl)) n \<longleftrightarrow> bit (phys_as_usize (frame_base f)) n \<or> bit (ef_bits fl) n"
    using f by (auto simp: pte_new_def bit_and_iff bit_or_iff)
qed

lemma pte_new_frame:
  assumes "frame_ok PAGE_SIZE f" and "flags_ok fl"
  shows "pte_frame (pte_new f fl) = Inr (if bit (ef_bits fl) 0 then Some f else None)"
    and "is_present (pte_new f fl) \<longleftrightarrow> bit (ef_bits fl) 0"
    and "is_huge (pte_new f fl) \<longleftrightarrow> bit (ef_bits fl) 7"
proof -
  note b = pte_new_bits [OF assms] and f = frame_ok_bits [OF assms(1)]
  show p: "is_present (pte_new f fl) \<longleftrightarrow> bit (ef_bits fl) 0" and "is_huge (pte_new f fl) \<longleftrightarrow> bit (ef_bits fl) 7"
    using f(1) [of 0] f(1) [of 7] by (auto simp: is_present_bit is_huge_bit b(3))
  show "pte_frame (pte_new f fl) = Inr (if bit (ef_bits fl) 0 then Some f else None)"
    using assms(1) by (simp add: pte_frame_def p b(1) frame_from_base_def phys_new_unchecked_def frame_ok_def)
qed

lemma index_shift_eq [simp]:
  "index_shift One = 12" "index_shift Two = 21" "index_shift Three = 30" "index_shift Four = 39"
  by (simp_all add: index_shift_def level_number_def)

lemma index_of_take: "index_of l v = take_bit 9 (drop_bit (unat (index_shift l)) (virt_as_usize v))"
proof -
  have *: "(0x1FF :: usize) = mask 9"
    by (simp add: mask_eq_exp_minus_1)
  show ?thesis
    unfolding index_of_def * take_bit_eq_mask ..
qed

lemma bit_index_of:
  "bit (index_of l v) n \<longleftrightarrow> n < 9 \<and> bit (virt_as_usize v) (unat (index_shift l) + n)"
  by (simp add: index_of_take bit_take_bit_iff bit_drop_bit_eq)

lemma index_of_less: "index_of l v < ENTRY_COUNT"
  using take_bit_nat_less_exp [of 9 "unat (drop_bit (unat (index_shift l)) (virt_as_usize v))"]
  by (simp add: index_of_take word_less_nat_alt ENTRY_COUNT_def unsigned_take_bit_eq)

text \<open>Two addresses lie in the same 4 KiB page of the 48-bit address space.\<close>

definition same_page :: "virt_addr \<Rightarrow> virt_addr \<Rightarrow> bool" where
  "same_page v w \<longleftrightarrow> take_bit 36 (drop_bit 12 (virt_as_usize v)) = take_bit 36 (drop_bit 12 (virt_as_usize w))"

lemma same_page_index: "same_page v w \<longleftrightarrow> (\<forall>l. index_of l v = index_of l w)"
proof
  assume "same_page v w"
  then have *: "bit (virt_as_usize v) (12 + n) \<longleftrightarrow> bit (virt_as_usize w) (12 + n)" if "n < 36" for n
  proof -
    have "bit (take_bit 36 (drop_bit 12 (virt_as_usize v))) n \<longleftrightarrow> bit (take_bit 36 (drop_bit 12 (virt_as_usize w))) n"
      using \<open>same_page v w\<close> by (simp add: same_page_def)
    then show ?thesis
      using that by (simp add: bit_take_bit_iff bit_drop_bit_eq)
  qed
  have "bit (index_of l v) n \<longleftrightarrow> bit (index_of l w) n" for l n
    using * [of n] * [of "9 + n"] * [of "18 + n"] * [of "27 + n"] by (cases l) (auto simp: bit_index_of)
  then show "\<forall>l. index_of l v = index_of l w"
    by (auto intro: bit_eqI)
next
  assume *: "\<forall>l. index_of l v = index_of l w"
  have "bit (virt_as_usize v) (12 + n) \<longleftrightarrow> bit (virt_as_usize w) (12 + n)" if n: "n < 36" for n
  proof -
    have "bit (index_of l v) k \<longleftrightarrow> bit (index_of l w) k" for l k
      using * by simp
    then have b: "k < 9 \<Longrightarrow> bit (virt_as_usize v) (unat (index_shift l) + k) \<longleftrightarrow>
        bit (virt_as_usize w) (unat (index_shift l) + k)" for l k
      by (auto simp: bit_index_of)
    consider "n < 9" | "9 \<le> n" "n < 18" | "18 \<le> n" "n < 27" | "27 \<le> n" "n < 36"
      using n by linarith
    then show ?thesis
      using b [of n One] b [of "n - 9" Two] b [of "n - 18" Three] b [of "n - 27" Four] by cases auto
  qed
  then show "same_page v w"
    unfolding same_page_def by (intro bit_eqI) (auto simp: bit_take_bit_iff bit_drop_bit_eq)
qed

lemma table_entry_index [simp]: "table_entry t (index_of l v) = Inr (t + 8 * index_of l v)"
  by (simp add: table_entry_def index_of_less)

lemma fold_clear:
  "fold (\<lambda>i m. write_entry (t + 8 * i) (pte_clear (read_entry m (t + 8 * i))) m) xs m a =
     (if a \<in> (\<lambda>i. t + 8 * i) ` set xs then 0 else m a)"
  by (induction xs arbitrary: m) (auto simp: write_entry_def pte_clear_def)

lemma table_zero_eq: "table_zero t m a = (if \<exists>i < ENTRY_COUNT. a = t + 8 * i then 0 else m a)"
proof -
  have "(of_nat ` {0 ..< 512} :: usize set) = {i. i < ENTRY_COUNT}"
  proof
    show "(of_nat ` {0 ..< 512} :: usize set) \<subseteq> {i. i < ENTRY_COUNT}"
      by (auto simp: ENTRY_COUNT_def word_less_nat_alt unat_of_nat)
    show "{i. i < ENTRY_COUNT} \<subseteq> (of_nat ` {0 ..< 512} :: usize set)"
    proof
      fix i :: usize
      assume "i \<in> {i. i < ENTRY_COUNT}"
      then have "unat i \<in> {0 ..< 512}" "i = of_nat (unat i)"
        by (simp_all add: ENTRY_COUNT_def word_less_nat_alt)
      then show "i \<in> of_nat ` {0 ..< 512}"
        by blast
    qed
  qed
  then show ?thesis
    unfolding table_zero_def fold_clear by (auto simp: ENTRY_COUNT_def)
qed

section \<open>Properties\<close>

text \<open>
  C23. An entry built from a frame and page flags is present, is no huge page, yields the
  same frame back, and decodes to the same page flags with \<open>READ\<close> added and undefined flag
  bits dropped.
\<close>

theorem pte_roundtrip:
  assumes "frame_ok PAGE_SIZE f"
  shows "pte_frame (pte_new f (entry_flags_from_page_flags pf)) = Inr (Some f) \<and>
    is_present (pte_new f (entry_flags_from_page_flags pf)) \<and>
    \<not> is_huge (pte_new f (entry_flags_from_page_flags pf)) \<and>
    page_flags_from_entry_flags (pte_flags (pte_new f (entry_flags_from_page_flags pf))) =
      PageFlags ((pf_bits pf AND mask 6) OR 1)"
  using pte_new_frame [OF assms entry_flags_ok, of pf] pte_new_bits(2) [OF assms entry_flags_ok, of pf]
  by (simp add: bit_entry_flags page_flags_entry_flags)

theorem pte_roundtrip_witness:
  "pte_frame (pte_new (frame_at PAGE_SIZE 5) (entry_flags_from_page_flags user_data)) =
     Inr (Some (frame_at PAGE_SIZE 5)) \<and>
   page_flags_from_entry_flags (pte_flags (pte_new (frame_at PAGE_SIZE 5) (entry_flags_from_page_flags user_data))) =
     user_data"
proof -
  have "frame_ok PAGE_SIZE (frame_at PAGE_SIZE 5)"
    by (simp add: phys_limit_def)
  from pte_roundtrip [OF this, of user_data] show ?thesis
    by (simp add: user_data_def PF_READ_def PF_WRITE_def PF_USER_def mask_eq_exp_minus_1)
qed

end
