(* ===== verification/Mapper.thy ===== *)
theory Mapper
  imports Init Paging
begin

text \<open>
  The x86-64 page-table mapper (\<open>eira/src/arch/x86_64/paging/mapper.rs\<close>) and the construction
  of mappers (\<open>create_mapper\<close>, \<open>mapper_from_active\<close> of \<open>eira/src/arch/x86_64/imp.rs\<close>).

  Tables live in kernel memory and are reached through the direct map at \<open>hhdm_offset\<close>; a
  reference to an entry is the address of its cell. The intermediate tables come from the
  global frame allocator, so the operations run on the state \<open>mm_state\<close> of the memory
  manager. A method that returns a \<open>Result\<close> is a computation on the state that yields
  \<open>Inl e\<close> or \<open>Inr x\<close>; panics and deadlocks stay in the outer outcome.
\<close>

section \<open>The mapper\<close>

record page_table_mapper =
  pml4 :: phys_frame
  map_hhdm :: usize

definition mapper_new :: "phys_frame \<Rightarrow> usize \<Rightarrow> page_table_mapper" where
  "mapper_new root hhdm = \<lparr>pml4 = root, map_hhdm = hhdm\<rparr>"

definition mapper_phys_to_virt :: "phys_addr \<Rightarrow> usize \<Rightarrow> usize res" where
  "mapper_phys_to_virt phys hhdm = uadd (phys_as_usize phys) hhdm"

definition table_at_frame :: "phys_frame \<Rightarrow> usize \<Rightarrow> usize res" where
  "table_at_frame frame hhdm = mapper_phys_to_virt (frame_base frame) hhdm"

text \<open>The \<open>?\<close> operator on a result that also carries the state.\<close>

definition rtry :: "(('e + 'a) \<times> 's) res \<Rightarrow> ('a \<Rightarrow> 's \<Rightarrow> (('e + 'b) \<times> 's) res) \<Rightarrow> (('e + 'b) \<times> 's) res" where
  "rtry m f = rbind m (\<lambda>(r, s). case r of Inl e \<Rightarrow> Inr (Inl e, s) | Inr x \<Rightarrow> f x s)"

lemma rtry_simps [simp, res_simps]:
  "rtry (Inr (Inr x, s)) f = f x s" "rtry (Inr (Inl e, s)) f = Inr (Inl e, s)" "rtry (Inl a) f = Inl a"
  by (simp_all add: rtry_def)

text \<open>
  \<open>walk\<close>, level by level: from the address of an entry to the address of the table below it.
  The huge-page bit is not examined at the top level.
\<close>

definition walk_down :: "bool \<Rightarrow> usize \<Rightarrow> mem \<Rightarrow> usize \<Rightarrow> usize option res" where
  "walk_down huge_ends hhdm m ptr =
     (let e = read_entry m ptr in
      if \<not> is_present e \<or> huge_ends \<and> is_huge e then Inr None
      else rbind (pte_frame e) (\<lambda>f.
        case f of
          None \<Rightarrow> Inr None
        | Some child \<Rightarrow> rbind (table_at_frame child hhdm) (\<lambda>t. Inr (Some t))))"

definition obind :: "'a option res \<Rightarrow> ('a \<Rightarrow> 'b option res) \<Rightarrow> 'b option res" where
  "obind m f = rbind m (\<lambda>x. case x of None \<Rightarrow> Inr None | Some y \<Rightarrow> f y)"

lemma obind_simps [simp, res_simps]:
  "obind (Inr (Some x)) f = f x" "obind (Inr None) f = Inr None" "obind (Inl e) f = Inl e"
  by (simp_all add: obind_def)

definition walk :: "page_table_mapper \<Rightarrow> virt_addr \<Rightarrow> mem \<Rightarrow> usize option res" where
  "walk mp virt m =
     (let hhdm = map_hhdm mp in
      rbind (table_at_frame (pml4 mp) hhdm) (\<lambda>l4.
      rbind (table_entry l4 (index_of Four virt)) (\<lambda>l4e.
      obind (walk_down False hhdm m l4e) (\<lambda>l3.
      rbind (table_entry l3 (index_of Three virt)) (\<lambda>l3e.
      obind (walk_down True hhdm m l3e) (\<lambda>l2.
      rbind (table_entry l2 (index_of Two virt)) (\<lambda>l2e.
      obind (walk_down True hhdm m l2e) (\<lambda>l1.
      rbind (table_entry l1 (index_of One virt)) (\<lambda>l1e. Inr (Some l1e))))))))))"

text \<open>The macro \<open>next_table!\<close> of \<open>walk_or_create\<close>: its part after the entry is known to be present.\<close>

definition next_child :: "usize \<Rightarrow> usize \<Rightarrow> mm_state \<Rightarrow> ((map_error + usize) \<times> mm_state) res" where
  "next_child hhdm ptr s =
     (if is_huge (read_entry (ram s) ptr) then Inr (Inl AlreadyMapped, s)
      else rbind (pte_frame (read_entry (ram s) ptr)) (\<lambda>f.
        case f of
          None \<Rightarrow> Inr (Inl FrameAllocationFailed, s)
        | Some child_frame \<Rightarrow> rbind (table_at_frame child_frame hhdm) (\<lambda>t. Inr (Inr t, s))))"

definition next_table :: "bool \<Rightarrow> usize \<Rightarrow> usize \<Rightarrow> mm_state \<Rightarrow> ((map_error + usize) \<times> mm_state) res" where
  "next_table alloc hhdm ptr s =
     (if \<not> is_present (read_entry (ram s) ptr) then
        if \<not> alloc then Inr (Inl FrameAllocationFailed, s)
        else
          rbind (mm_allocate s) (\<lambda>(frame, s).
          rbind (mapper_phys_to_virt (owned_base frame) hhdm) (\<lambda>tab.
          let s = s\<lparr>ram := table_zero tab (ram s)\<rparr>;
              raw_frame = owned_into_inner frame;
              s = s\<lparr>ram := write_entry ptr
                     (pte_new raw_frame (ef_or (ef_or EF_PRESENT EF_WRITABLE) EF_USER)) (ram s)\<rparr> in
          next_child hhdm ptr s))
      else next_child hhdm ptr s)"

definition walk_or_create ::
    "page_table_mapper \<Rightarrow> virt_addr \<Rightarrow> bool \<Rightarrow> mm_state \<Rightarrow> ((map_error + usize) \<times> mm_state) res" where
  "walk_or_create mp virt alloc s =
     (let hhdm = map_hhdm mp in
      rbind (table_at_frame (pml4 mp) hhdm) (\<lambda>l4.
      rbind (table_entry l4 (index_of Four virt)) (\<lambda>l4e.
      rtry (next_table alloc hhdm l4e s) (\<lambda>l3 s.
      rbind (table_entry l3 (index_of Three virt)) (\<lambda>l3e.
      rtry (next_table alloc hhdm l3e s) (\<lambda>l2 s.
      rbind (table_entry l2 (index_of Two virt)) (\<lambda>l2e.
      rtry (next_table alloc hhdm l2e s) (\<lambda>l1 s.
      rbind (table_entry l1 (index_of One virt)) (\<lambda>l1e. Inr (Inr l1e, s))))))))))"

section \<open>The \<open>Mapper\<close> interface\<close>

definition mapper_map ::
    "page_table_mapper \<Rightarrow> virt_addr \<Rightarrow> owned_frame \<Rightarrow> page_flags \<Rightarrow> mm_state \<Rightarrow>
     (((owned_frame \<times> map_error) + tlb_flush) \<times> mm_state) res" where
  "mapper_map mp virt frame flags s =
     rbind (virt_is_aligned virt PAGE_SIZE) (\<lambda>aligned.
       if \<not> aligned then Inr (Inl (frame, MapUnaligned), s)
       else if \<not> virt_is_canonical_addr virt then Inr (Inl (frame, MapUnaligned), s)
       else rbind (walk_or_create mp virt True s) (\<lambda>(r, s).
         case r of
           Inl e \<Rightarrow> Inr (Inl (frame, e), s)
         | Inr leaf \<Rightarrow>
             if is_present (read_entry (ram s) leaf) then Inr (Inl (frame, AlreadyMapped), s)
             else
               let raw = owned_into_inner frame;
                   s = s\<lparr>ram := write_entry leaf (pte_new raw (entry_flags_from_page_flags flags)) (ram s)\<rparr> in
               Inr (Inr (tlb_new virt), s)))"

text \<open>
  One of the upper blocks of \<open>unmap\<close>: the frame that the entry at \<open>ptr\<close> names, and the table
  in it. The block for the top level has no huge-page test.
\<close>

definition unmap_down :: "bool \<Rightarrow> usize \<Rightarrow> mem \<Rightarrow> usize \<Rightarrow> (unmap_error + usize) res" where
  "unmap_down huge_ends hhdm m ptr =
     (let e = read_entry m ptr in
      if \<not> is_present e then Inr (Inl NotMapped)
      else if huge_ends \<and> is_huge e then Inr (Inl HugePage)
      else rbind (pte_frame e) (\<lambda>f.
        case f of
          None \<Rightarrow> Inr (Inl NotMapped)
        | Some frame \<Rightarrow> rbind (table_at_frame frame hhdm) (\<lambda>t. Inr (Inr t))))"

definition unmap_try ::
    "mm_state \<Rightarrow> (unmap_error + 'a) res \<Rightarrow> ('a \<Rightarrow> ((unmap_error + 'b) \<times> mm_state) res) \<Rightarrow>
     ((unmap_error + 'b) \<times> mm_state) res" where
  "unmap_try s m f = rbind m (\<lambda>r. case r of Inl e \<Rightarrow> Inr (Inl e, s) | Inr x \<Rightarrow> f x)"

lemma unmap_try_simps [simp, res_simps]:
  "unmap_try s (Inr (Inr x)) f = f x" "unmap_try s (Inr (Inl e)) f = Inr (Inl e, s)" "unmap_try s (Inl a) f = Inl a"
  by (simp_all add: unmap_try_def)

definition mapper_unmap ::
    "page_table_mapper \<Rightarrow> virt_addr \<Rightarrow> mm_state \<Rightarrow> ((unmap_error + (owned_frame \<times> tlb_flush)) \<times> mm_state) res" where
  "mapper_unmap mp virt s =
     rbind (virt_is_aligned virt PAGE_SIZE) (\<lambda>aligned.
       if \<not> aligned then Inr (Inl UnmapUnaligned, s)
       else
         let hhdm = map_hhdm mp in
         rbind (table_at_frame (pml4 mp) hhdm) (\<lambda>l4.
         rbind (table_entry l4 (index_of Four virt)) (\<lambda>l4e.
         unmap_try s (unmap_down False hhdm (ram s) l4e) (\<lambda>l3.
         rbind (table_entry l3 (index_of Three virt)) (\<lambda>l3e.
         unmap_try s (unmap_down True hhdm (ram s) l3e) (\<lambda>l2.
         rbind (table_entry l2 (index_of Two virt)) (\<lambda>l2e.
         unmap_try s (unmap_down True hhdm (ram s) l2e) (\<lambda>l1.
         rbind (table_entry l1 (index_of One virt)) (\<lambda>e.
           if \<not> is_present (read_entry (ram s) e) then Inr (Inl NotMapped, s)
           else rbind (pte_frame (read_entry (ram s) e)) (\<lambda>f.
             case f of
               None \<Rightarrow> Inr (Inl NotMapped, s)
             | Some frame \<Rightarrow>
                 Inr (Inr (owned_new frame, tlb_new virt),
                      s\<lparr>ram := write_entry e (pte_clear (read_entry (ram s) e)) (ram s)\<rparr>)))))))))))"

definition mapper_translate :: "page_table_mapper \<Rightarrow> virt_addr \<Rightarrow> mem \<Rightarrow> (phys_addr \<times> page_flags) option res" where
  "mapper_translate mp virt m =
     obind (walk mp virt m) (\<lambda>leaf.
       if \<not> is_present (read_entry m leaf) then Inr None
       else obind (pte_frame (read_entry m leaf)) (\<lambda>frame.
         let page_offset = virt_as_usize virt AND (PAGE_SIZE - 1) in
         case phys_checked_add (frame_base frame) page_offset of
           None \<Rightarrow> Inr None
         | Some phys \<Rightarrow>
             Inr (Some (phys, page_flags_from_entry_flags (pte_flags (read_entry m leaf))))))"

definition mapper_remap ::
    "page_table_mapper \<Rightarrow> virt_addr \<Rightarrow> page_flags \<Rightarrow> mm_state \<Rightarrow> ((unmap_error + tlb_flush) \<times> mm_state) res" where
  "mapper_remap mp virt new_flags s =
     rbind (virt_is_aligned virt PAGE_SIZE) (\<lambda>aligned.
       if \<not> aligned then Inr (Inl UnmapUnaligned, s)
       else rbind (walk_or_create mp virt False s) (\<lambda>(r, s).
         case r of
           Inl _ \<Rightarrow> Inr (Inl NotMapped, s)
         | Inr leaf \<Rightarrow>
             if \<not> is_present (read_entry (ram s) leaf) then Inr (Inl NotMapped, s)
             else if is_huge (read_entry (ram s) leaf) then Inr (Inl HugePage, s)
             else rbind (pte_frame (read_entry (ram s) leaf)) (\<lambda>f.
               case f of
                 None \<Rightarrow> Inr (Inl NotMapped, s)
               | Some frame \<Rightarrow>
                   Inr (Inr (tlb_new virt),
                        s\<lparr>ram := write_entry leaf (pte_new frame (entry_flags_from_page_flags new_flags)) (ram s)\<rparr>))))"

section \<open>Construction\<close>

text \<open>\<open>write_bytes(ptr, 0, PAGE_SIZE)\<close> on an 8-aligned pointer, cell by cell.\<close>

definition zero_page :: "usize \<Rightarrow> mem \<Rightarrow> mem" where
  "zero_page ptr m = fold (\<lambda>i m. m(ptr + 8 * i := 0)) (map of_nat [0..<unat (PAGE_SIZE div 8)]) m"

definition create_mapper :: "owned_frame \<Rightarrow> mm_state \<Rightarrow> (page_table_mapper \<times> mm_state) res" where
  "create_mapper root s =
     (let hhdm = HHDM_OFFSET s in
      rbind (uadd (phys_as_usize (owned_base root)) hhdm) (\<lambda>ptr.
      let s = s\<lparr>ram := zero_page ptr (ram s)\<rparr>; raw_frame = owned_into_inner root in
      Inr (mapper_new raw_frame hhdm, s)))"

definition mapper_from_active :: "phys_addr \<Rightarrow> mm_state \<Rightarrow> page_table_mapper res" where
  "mapper_from_active root_phys s =
     (let hhdm = HHDM_OFFSET s in
      rbind (frame_from_base PAGE_SIZE root_phys) (\<lambda>f.
      rbind (expect f ''active PML4 base address must be page-aligned'') (\<lambda>raw_frame.
      Inr (mapper_new raw_frame hhdm))))"

end
