(* ===== verification/Page_Tables.thy ===== *)
theory Page_Tables
  imports Mapper
begin

text \<open>
  The page tables of a mapper as they lie in memory, and what the mapper's operations do to
  the translation of addresses. The tables of a hierarchy are named by their paths: the
  sequence of indices that leads to them from the root. A map from paths to frame numbers
  describes the tables; the invariant says that they lie in distinct owned frames and that
  each entry above the last level names the table below it, is absent, or is a huge page.
\<close>

section \<open>Tables and paths\<close>

type_synonym table_map = "usize list \<Rightarrow> nat option"

definition tab :: "usize \<Rightarrow> nat \<Rightarrow> usize" where
  "tab h f = of_nat (f * 4096) + h"

abbreviation hhdm_of :: "mm_state \<Rightarrow> usize" where
  "hhdm_of s \<equiv> hhdm_offset (fst (mm_frames s))"

abbreviation owned_page :: "mm_state \<Rightarrow> nat \<Rightarrow> bool" where
  "owned_page s f \<equiv> bitmap_bit (bitmap (fst (mm_frames s))) f"

definition entry_at :: "mm_state \<Rightarrow> nat \<Rightarrow> usize \<Rightarrow> page_table_entry" where
  "entry_at s f i = read_entry (ram s) (tab (hhdm_of s) f + 8 * i)"

definition names_child :: "table_map \<Rightarrow> usize list \<Rightarrow> page_table_entry \<Rightarrow> usize \<Rightarrow> bool" where
  "names_child T p e i =
     (case T (p @ [i]) of
        Some g \<Rightarrow> is_present e \<and> \<not> is_huge e \<and> pte_frame e = Inr (Some (page g))
      | None \<Rightarrow> is_present e \<longrightarrow> is_huge e \<and> p \<noteq> [])"

definition paths_ok :: "table_map \<Rightarrow> bool" where
  "paths_ok T \<longleftrightarrow> (\<forall>p \<in> dom T. length p \<le> 3 \<and> (\<forall>i \<in> set p. i < ENTRY_COUNT)) \<and>
     (\<forall>p i. p @ [i] \<in> dom T \<longrightarrow> p \<in> dom T) \<and> inj_on T (dom T)"

definition tables_ok :: "page_table_mapper \<Rightarrow> table_map \<Rightarrow> mm_state \<Rightarrow> bool" where
  "tables_ok mp T s \<longleftrightarrow> mm_ok s \<and> map_hhdm mp = hhdm_of s \<and> paths_ok T \<and>
     (\<exists>r. T [] = Some r \<and> pml4 mp = page r) \<and>
     (\<forall>p f. T p = Some f \<longrightarrow> owned_page s f) \<and>
     (\<forall>p f i. T p = Some f \<longrightarrow> length p < 3 \<longrightarrow> i < ENTRY_COUNT \<longrightarrow> names_child T p (entry_at s f i) i)"

lemma tables_okD:
  assumes "tables_ok mp T s"
  shows "mm_ok s" and "map_hhdm mp = hhdm_of s" and "paths_ok T"
    and "bitmap_inv (mm_frames s)" and "layout_ok (fst (mm_frames s))"
  using assms mm_ok_frames(4) [of s] by (auto simp: tables_ok_def bitmap_inv_def)

lemma tables_ok_owned: "tables_ok mp T s \<Longrightarrow> T p = Some f \<Longrightarrow> owned_page s f"
  by (auto simp: tables_ok_def)

lemma tables_ok_child:
  "tables_ok mp T s \<Longrightarrow> T p = Some f \<Longrightarrow> length p < 3 \<Longrightarrow> i < ENTRY_COUNT \<Longrightarrow>
     names_child T p (entry_at s f i) i"
  by (auto simp: tables_ok_def)

lemma paths_ok_inj:
  assumes "paths_ok T" and "T p = Some f" and "T q = Some f"
  shows "p = q"
proof -
  have "inj_on T (dom T)"
    using assms(1) by (simp add: paths_ok_def)
  then show ?thesis
    by (rule inj_onD) (use assms(2,3) in auto)
qed

lemma unat_cell:
  assumes "layout_ok b" and "f < unat (total b)" and "i < ENTRY_COUNT"
  shows "unat (tab (hhdm_offset b) f + 8 * i) = f * 4096 + unat (hhdm_offset b) + 8 * unat i"
proof -
  let ?a = "of_nat (f * 4096) :: usize"
  have a: "unat ?a = f * 4096"
    by (rule layout_page(2) [OF assms(1,2)])
  have i: "unat i < 512"
    using assms(3) by (simp add: word_less_nat_alt ENTRY_COUNT_def)
  then have i8: "unat (8 * i) = 8 * unat i"
    by (subst unat_mult_lem [THEN iffD1]) simp_all
  have "Suc f * 4096 \<le> unat (total b) * 4096"
    using assms(2) by (intro mult_le_mono1) simp
  then have lim: "f * 4096 + unat (hhdm_offset b) + 4096 \<le> 2 ^ 64"
    using assms(1) by (simp add: layout_ok_def)
  have "unat (?a + hhdm_offset b) = f * 4096 + unat (hhdm_offset b)"
    using a lim by (subst unat_add_lem [THEN iffD1]) (simp_all del: of_nat_mult)
  then show ?thesis
    unfolding tab_def using i i8 lim by (subst unat_add_lem [THEN iffD1]) (simp_all del: of_nat_mult)
qed

lemma cell_inject:
  assumes "layout_ok b" and "f < unat (total b)" and "i < ENTRY_COUNT" and "g < unat (total b)" and "j < ENTRY_COUNT"
  shows "tab (hhdm_offset b) f + 8 * i = tab (hhdm_offset b) g + 8 * j \<longleftrightarrow> f = g \<and> i = j"
proof
  assume "tab (hhdm_offset b) f + 8 * i = tab (hhdm_offset b) g + 8 * j"
  then have *: "f * 4096 + 8 * unat i = g * 4096 + 8 * unat j"
    using unat_cell [OF assms(1,2,3)] unat_cell [OF assms(1,4,5)] by simp
  have ij: "8 * unat i < 4096" "8 * unat j < 4096"
    using assms(3,5) by (simp_all add: word_less_nat_alt ENTRY_COUNT_def)
  have "f = (f * 4096 + 8 * unat i) div 4096" "g = (g * 4096 + 8 * unat j) div 4096"
    using ij by simp_all
  then have "f = g"
    using * by simp
  then show "f = g \<and> i = j"
    using * by (simp add: word_eq_unat)
qed simp

text \<open>Writing into an owned page does not touch the free list.\<close>

lemma owned_total: "tables_ok mp T s \<Longrightarrow> T p = Some f \<Longrightarrow> f < unat (total (fst (mm_frames s)))"
  using bitmap_bit_total tables_ok_owned tables_okD(4) by blast

lemma chain_cong:
  assumes "chain m h p is" and "\<forall>i \<in> set is. m' (of_nat (i * 4096) + h) = m (of_nat (i * 4096) + h)"
  shows "chain m' h p is"
  using assms by (induction "is" arbitrary: p) auto

lemma bitmap_inv_cong:
  assumes "bitmap_inv (b, m)"
    and "\<And>i. i < unat (total b) \<Longrightarrow> \<not> bitmap_bit (bitmap b) i \<Longrightarrow>
      m' (tab (hhdm_offset b) i) = m (tab (hhdm_offset b) i)"
  shows "bitmap_inv (b, m')" and "free_list (b, m') = free_list (b, m)"
proof -
  have inv: "layout_ok b" "bits_ok b" "list_ok (b, m) (free_list (b, m))"
    using assms(1) by (simp_all add: bitmap_inv_def)
  have c: "chain m (hhdm_offset b) (free_list_head b) (free_list (b, m))"
    and l: "\<forall>i \<in> set (free_list (b, m)). i < unat (total b) \<and> \<not> bitmap_bit (bitmap b) i"
    using inv(3) by (simp_all add: list_ok_def)
  have "chain m' (hhdm_offset b) (free_list_head b) (free_list (b, m))"
  proof (rule chain_cong [OF c], rule ballI)
    fix i
    assume "i \<in> set (free_list (b, m))"
    then show "m' (of_nat (i * 4096) + hhdm_offset b) = m (of_nat (i * 4096) + hhdm_offset b)"
      using assms(2) [of i] l unfolding tab_def by blast
  qed
  then have "list_ok (b, m') (free_list (b, m))"
    using inv(3) by (simp add: list_ok_def)
  then show "bitmap_inv (b, m')" "free_list (b, m') = free_list (b, m)"
    using bitmap_invI [of "(b, m')" "free_list (b, m)"] inv by simp_all
qed

section \<open>Reading the tables\<close>

lemma table_at_page:
  assumes "layout_ok b" and "f < unat (total b)"
  shows "table_at_frame (page f) (hhdm_offset b) = Inr (tab (hhdm_offset b) f)"
proof -
  have "frame_base (page f) = PhysAddr (of_nat (f * 4096))"
    by (simp add: frame_at_def)
  then show ?thesis
    using phys_to_virt_page(1) [OF assms]
    by (simp add: table_at_frame_def mapper_phys_to_virt_def phys_to_virt_def tab_def del: of_nat_mult)
qed

lemma names_child_present:
  assumes "names_child T p e i"
  shows "T (p @ [i]) = Some g \<Longrightarrow> is_present e \<and> \<not> is_huge e \<and> pte_frame e = Inr (Some (page g))"
    and "T (p @ [i]) = None \<Longrightarrow> is_present e \<Longrightarrow> is_huge e \<and> p \<noteq> []"
  using assms by (simp_all add: names_child_def)

lemma walk_down_eq:
  assumes ok: "tables_ok mp T s" and f: "T p = Some f" "length p < 3" and i: "i < ENTRY_COUNT"
    and b: "b \<or> p = []"
  shows "walk_down b (map_hhdm mp) (ram s) (tab (hhdm_of s) f + 8 * i) = Inr (map_option (tab (hhdm_of s)) (T (p @ [i])))"
proof -
  note c = names_child_present [OF tables_ok_child [OF ok f i]]
  show ?thesis
  proof (cases "T (p @ [i])")
    case None
    then show ?thesis
      using c(2) b by (auto simp: walk_down_def Let_def simp flip: entry_at_def)
  next
    case (Some g)
    then show ?thesis
      using c(1) [OF Some] table_at_page [OF tables_okD(5) [OF ok] owned_total [OF ok Some]] tables_okD(2) [OF ok]
      by (simp add: walk_down_def flip: entry_at_def)
  qed
qed

definition path_of :: "virt_addr \<Rightarrow> usize list" where
  "path_of v = [index_of Four v, index_of Three v, index_of Two v]"

definition leaf_ptr :: "table_map \<Rightarrow> usize \<Rightarrow> virt_addr \<Rightarrow> usize option" where
  "leaf_ptr T h v = map_option (\<lambda>f. tab h f + 8 * index_of One v) (T (path_of v))"

lemma paths_ok_prefix:
  assumes "paths_ok T"
  shows "T [a] = None \<Longrightarrow> T [a, b] = None" and "T [a, b] = None \<Longrightarrow> T [a, b, c] = None"
proof -
  have "T p = None \<Longrightarrow> T (p @ [i]) = None" for p i
    using assms unfolding paths_ok_def domIff by blast
  from this [of "[a]" b] this [of "[a, b]" c]
  show "T [a] = None \<Longrightarrow> T [a, b] = None" and "T [a, b] = None \<Longrightarrow> T [a, b, c] = None"
    by simp_all
qed

lemma root_table:
  assumes ok: "tables_ok mp T s"
  shows "\<exists>r. T [] = Some r \<and> table_at_frame (pml4 mp) (map_hhdm mp) = Inr (tab (hhdm_of s) r)"
proof -
  obtain r where r: "T [] = Some r" "pml4 mp = page r"
    using ok by (auto simp: tables_ok_def)
  then show ?thesis
    using table_at_page [OF tables_okD(5) [OF ok] owned_total [OF ok r(1)]] tables_okD(2) [OF ok] by simp
qed

lemma walk_eq:
  assumes ok: "tables_ok mp T s"
  shows "walk mp v (ram s) = Inr (leaf_ptr T (hhdm_of s) v)"
proof -
  let ?a = "index_of Four v" and ?b = "index_of Three v" and ?c = "index_of Two v"
  obtain r where r: "T [] = Some r" "table_at_frame (pml4 mp) (map_hhdm mp) = Inr (tab (hhdm_of s) r)"
    using root_table [OF ok] by blast
  note wd = walk_down_eq [OF ok] and pf = paths_ok_prefix [OF tables_okD(3) [OF ok]]
  show ?thesis
  proof (cases "T [?a]")
    case None
    then show ?thesis
      using r wd [OF r(1), of ?a False] pf(1) [OF None] pf(2)
      by (simp add: walk_def Let_def leaf_ptr_def path_of_def index_of_less)
  next
    case f: (Some f)
    show ?thesis
    proof (cases "T [?a, ?b]")
      case None
      then show ?thesis
        using r f wd [OF r(1), of ?a False] wd [OF f, of ?b True] pf(2) [OF None]
        by (simp add: walk_def Let_def leaf_ptr_def path_of_def index_of_less)
    next
      case g: (Some g)
      then show ?thesis
        using r f wd [OF r(1), of ?a False] wd [OF f, of ?b True] wd [OF g, of ?c True]
        by (cases "T [?a, ?b, ?c]") (simp_all add: walk_def Let_def leaf_ptr_def path_of_def index_of_less)
    qed
  qed
qed

lemma pte_frame_present:
  assumes "is_present e"
  shows "pte_frame e = Inr (Some (PhysFrame (PhysAddr (pte_raw e AND PHYS_MASK))))"
    and "frame_ok PAGE_SIZE (PhysFrame (PhysAddr (pte_raw e AND PHYS_MASK)))"
proof -
  let ?x = "pte_raw e AND PHYS_MASK"
  have low: "take_bit 12 ?x = 0"
    by (rule bit_eqI) (auto simp: bit_take_bit_iff bit_and_iff)
  have high: "take_bit 52 ?x = ?x"
    by (rule bit_eqI) (auto simp: bit_take_bit_iff bit_and_iff)
  have "unat ?x mod 2 ^ 12 = 0"
    using arg_cong [OF low, of unat] by (simp add: take_bit_eq_mod unat_mod)
  then have d: "4096 dvd unat ?x"
    by (simp add: dvd_eq_mod_eq_0)
  have "unat ?x mod 2 ^ 52 = unat ?x"
    using arg_cong [OF high, of unat] by (simp add: take_bit_eq_mod unat_mod)
  then have l: "unat ?x < 2 ^ 52"
    by (metis mod_less_divisor zero_less_numeral zero_less_power)
  show "frame_ok PAGE_SIZE (PhysFrame (PhysAddr ?x))"
    using d l by (simp add: frame_ok_def phys_ok_iff phys_limit_def)
  show "pte_frame e = Inr (Some (PhysFrame (PhysAddr ?x)))"
    using assms d by (simp add: pte_frame_def frame_from_base_def phys_new_unchecked_def)
qed

lemma page_offset_add:
  assumes "frame_ok PAGE_SIZE (PhysFrame (PhysAddr x))"
  shows "phys_checked_add (PhysAddr x) (a AND (PAGE_SIZE - 1)) = Some (PhysAddr (x + (a AND (PAGE_SIZE - 1))))"
proof -
  let ?o = "a AND (PAGE_SIZE - 1)"
  have off: "unat ?o < 4096"
    using unat_mask_low [OF page_size_power_of_two, of a] by (simp add: mask_low_def)
  have x: "4096 dvd unat x" "unat x < 2 ^ 52"
    using assms by (simp_all add: frame_ok_def phys_ok_iff phys_limit_def)
  obtain k where k: "unat x = 4096 * k"
    using x(1) by (elim dvdE)
  then have "k < 2 ^ 40"
    using x(2) by simp
  then have "unat x + unat ?o < 2 ^ 52"
    using k off by simp
  then show ?thesis
    by (simp add: phys_checked_add_eq phys_limit_def)
qed

text \<open>What a last-level entry makes of an address, and the translation that the tables describe.\<close>

definition leaf_value :: "page_table_entry \<Rightarrow> virt_addr \<Rightarrow> (phys_addr \<times> page_flags) option" where
  "leaf_value e v =
     (if is_present e
      then Some (PhysAddr ((pte_raw e AND PHYS_MASK) + (virt_as_usize v AND (PAGE_SIZE - 1))),
                 page_flags_from_entry_flags (pte_flags e))
      else None)"

definition translation :: "table_map \<Rightarrow> mm_state \<Rightarrow> virt_addr \<Rightarrow> (phys_addr \<times> page_flags) option" where
  "translation T s v =
     (case leaf_ptr T (hhdm_of s) v of None \<Rightarrow> None | Some a \<Rightarrow> leaf_value (read_entry (ram s) a) v)"

lemma translate_eq:
  assumes "tables_ok mp T s"
  shows "mapper_translate mp v (ram s) = Inr (translation T s v)"
proof (cases "leaf_ptr T (hhdm_of s) v")
  case None
  then show ?thesis
    by (simp add: mapper_translate_def walk_eq [OF assms] translation_def)
next
  case (Some a)
  let ?e = "read_entry (ram s) a"
  show ?thesis
  proof (cases "is_present ?e")
    case True
    then show ?thesis
      using pte_frame_present [OF True] page_offset_add [OF pte_frame_present(2) [OF True]] Some
      by (simp add: mapper_translate_def walk_eq [OF assms] translation_def leaf_value_def Let_def)
  next
    case False
    then show ?thesis
      using Some by (simp add: mapper_translate_def walk_eq [OF assms] translation_def leaf_value_def)
  qed
qed

section \<open>Writing entries\<close>

lemma mm_frames_ram [simp]:
  "mm_frames (s\<lparr>ram := m\<rparr>) = (fst (mm_frames s), m)" "FRAME_ALLOCATOR (s\<lparr>ram := m\<rparr>) = FRAME_ALLOCATOR s"
  by (simp_all add: mm_frames_def)

lemma tables_ok_ram:
  assumes ok: "tables_ok mp T s"
    and free: "\<And>g. g < unat (total (fst (mm_frames s))) \<Longrightarrow> \<not> owned_page s g \<Longrightarrow>
      m' (tab (hhdm_of s) g) = ram s (tab (hhdm_of s) g)"
    and upper: "\<And>p f i. T p = Some f \<Longrightarrow> length p < 3 \<Longrightarrow> i < ENTRY_COUNT \<Longrightarrow>
      m' (tab (hhdm_of s) f + 8 * i) = ram s (tab (hhdm_of s) f + 8 * i)"
  shows "tables_ok mp T (s\<lparr>ram := m'\<rparr>)" and "free_list (mm_frames (s\<lparr>ram := m'\<rparr>)) = free_list (mm_frames s)"
proof -
  note mm = mm_ok_frames [OF tables_okD(1) [OF ok]]
  have fr: "mm_frames s = (fst (mm_frames s), ram s)"
    by (simp add: mm_frames_def)
  have inv: "bitmap_inv (fst (mm_frames s), ram s)"
    using mm(4) fr by simp
  note bc = bitmap_inv_cong [OF inv, of m', OF free]
  show "free_list (mm_frames (s\<lparr>ram := m'\<rparr>)) = free_list (mm_frames s)"
    using bc(2) fr by simp
  have "mm_ok (s\<lparr>ram := m'\<rparr>)"
    using mm bc(1) by (simp add: mm_ok_def)
  moreover have "entry_at (s\<lparr>ram := m'\<rparr>) f i = entry_at s f i" if "T p = Some f" "length p < 3" "i < ENTRY_COUNT" for p f i
    using upper [OF that] by (simp add: entry_at_def read_entry_def)
  ultimately show "tables_ok mp T (s\<lparr>ram := m'\<rparr>)"
    using ok by (simp add: tables_ok_def)
qed

lemma cell_owned_free:
  assumes ok: "tables_ok mp T s" and f: "T p = Some f" "i < ENTRY_COUNT"
    and g: "g < unat (total (fst (mm_frames s)))" "\<not> owned_page s g"
  shows "tab (hhdm_of s) g \<noteq> tab (hhdm_of s) f + 8 * i"
proof
  assume "tab (hhdm_of s) g = tab (hhdm_of s) f + 8 * i"
  then have "tab (hhdm_of s) g + 8 * 0 = tab (hhdm_of s) f + 8 * i"
    by simp
  then have "g = f"
    using cell_inject [OF tables_okD(5) [OF ok] g(1) _ owned_total [OF ok f(1)] f(2), of 0]
    by (simp add: ENTRY_COUNT_def)
  then show False
    using g(2) tables_ok_owned [OF ok f(1)] by simp
qed

lemma cell_tables:
  assumes ok: "tables_ok mp T s" and f: "T p = Some f" "i < ENTRY_COUNT" and g: "T q = Some g" "j < ENTRY_COUNT"
  shows "tab (hhdm_of s) f + 8 * i = tab (hhdm_of s) g + 8 * j \<longleftrightarrow> p = q \<and> i = j"
  using cell_inject [OF tables_okD(5) [OF ok] owned_total [OF ok f(1)] f(2) owned_total [OF ok g(1)] g(2)]
    paths_ok_inj [OF tables_okD(3) [OF ok], of p f q] f(1) g(1) by auto

lemma same_page_path: "same_page v w \<longleftrightarrow> path_of v = path_of w \<and> index_of One v = index_of One w"
proof -
  have "(\<forall>l. index_of l v = index_of l w) \<longleftrightarrow>
      index_of One v = index_of One w \<and> index_of Two v = index_of Two w \<and>
      index_of Three v = index_of Three w \<and> index_of Four v = index_of Four w"
    by (metis page_table_level.exhaust)
  then show ?thesis
    by (auto simp: same_page_index path_of_def)
qed

lemma write_leaf:
  fixes e :: page_table_entry
  assumes ok: "tables_ok mp T s" and a: "leaf_ptr T (hhdm_of s) v = Some a"
  defines "s' \<equiv> s\<lparr>ram := write_entry a e (ram s)\<rparr>"
  shows "tables_ok mp T s'" and "free_list (mm_frames s') = free_list (mm_frames s)"
    and "translation T s' w = (if same_page v w then leaf_value e w else translation T s w)"
    and "fst (mm_frames s') = fst (mm_frames s)"
proof -
  obtain f where f: "T (path_of v) = Some f" "a = tab (hhdm_of s) f + 8 * index_of One v"
    using a by (auto simp: leaf_ptr_def)
  have fr: "write_entry a e (ram s) (tab (hhdm_of s) g) = ram s (tab (hhdm_of s) g)"
    if "g < unat (total (fst (mm_frames s)))" "\<not> owned_page s g" for g
    using cell_owned_free [OF ok f(1) index_of_less that, of One v] by (simp add: write_entry_def f(2))
  have up: "write_entry a e (ram s) (tab (hhdm_of s) g + 8 * i) = ram s (tab (hhdm_of s) g + 8 * i)"
    if "T p = Some g" "length p < 3" "i < ENTRY_COUNT" for p g i
    using cell_tables [OF ok that(1,3) f(1) index_of_less, of One v] that(2)
    by (auto simp: write_entry_def f(2) path_of_def)
  show "tables_ok mp T s'" "free_list (mm_frames s') = free_list (mm_frames s)"
    unfolding s'_def by (rule tables_ok_ram [OF ok fr up]; assumption)+
  show "translation T s' w = (if same_page v w then leaf_value e w else translation T s w)"
  proof (cases "T (path_of w)")
    case None
    then show ?thesis
      using f(1) by (auto simp: translation_def leaf_ptr_def same_page_path)
  next
    case (Some g)
    then show ?thesis
      using cell_tables [OF ok Some index_of_less f(1) index_of_less, of One w One v] f(2)
      by (auto simp: s'_def translation_def leaf_ptr_def same_page_path write_entry_def read_entry_def)
  qed
  show "fst (mm_frames s') = fst (mm_frames s)"
    by (simp add: s'_def)
qed

section \<open>The next table\<close>

lemma next_child_eq:
  assumes ok: "tables_ok mp T s" and f: "T p = Some f" "length p < 3" "i < ENTRY_COUNT" and g: "T (p @ [i]) = Some g"
  shows "next_child (map_hhdm mp) (tab (hhdm_of s) f + 8 * i) s = Inr (Inr (tab (hhdm_of s) g), s)"
  using names_child_present(1) [OF tables_ok_child [OF ok f] g] tables_okD(2) [OF ok]
    table_at_page [OF tables_okD(5) [OF ok] owned_total [OF ok g]]
  by (simp add: next_child_def flip: entry_at_def)

lemma next_table_cases:
  assumes ok: "tables_ok mp T s" and f: "T p = Some f" "length p < 3" "i < ENTRY_COUNT"
  shows "T (p @ [i]) = Some g \<Longrightarrow>
      next_table b (map_hhdm mp) (tab (hhdm_of s) f + 8 * i) s = Inr (Inr (tab (hhdm_of s) g), s)"
    and "T (p @ [i]) = None \<Longrightarrow> is_present (entry_at s f i) \<Longrightarrow>
      next_table b (map_hhdm mp) (tab (hhdm_of s) f + 8 * i) s = Inr (Inl AlreadyMapped, s)"
    and "\<not> is_present (entry_at s f i) \<Longrightarrow>
      next_table False (map_hhdm mp) (tab (hhdm_of s) f + 8 * i) s = Inr (Inl FrameAllocationFailed, s)"
    and "\<not> is_present (entry_at s f i) \<Longrightarrow> free_list (mm_frames s) = [] \<Longrightarrow>
      next_table True (map_hhdm mp) (tab (hhdm_of s) f + 8 * i) s = Inl (Panic ''out of physical memory'')"
proof -
  note c = names_child_present [OF tables_ok_child [OF ok f]]
  show "T (p @ [i]) = Some g \<Longrightarrow>
      next_table b (map_hhdm mp) (tab (hhdm_of s) f + 8 * i) s = Inr (Inr (tab (hhdm_of s) g), s)"
    using c(1) next_child_eq [OF ok f] by (simp add: next_table_def entry_at_def)
  show "T (p @ [i]) = None \<Longrightarrow> is_present (entry_at s f i) \<Longrightarrow>
      next_table b (map_hhdm mp) (tab (hhdm_of s) f + 8 * i) s = Inr (Inl AlreadyMapped, s)"
    using c(2) by (simp add: next_table_def next_child_def entry_at_def)
  show "\<not> is_present (entry_at s f i) \<Longrightarrow>
      next_table False (map_hhdm mp) (tab (hhdm_of s) f + 8 * i) s = Inr (Inl FrameAllocationFailed, s)"
    by (simp add: next_table_def entry_at_def)
  show "\<not> is_present (entry_at s f i) \<Longrightarrow> free_list (mm_frames s) = [] \<Longrightarrow>
      next_table True (map_hhdm mp) (tab (hhdm_of s) f + 8 * i) s = Inl (Panic ''out of physical memory'')"
    using pop_free_empty [OF tables_okD(4) [OF ok]] mm_allocate_eq [OF tables_okD(1) [OF ok]]
    by (simp add: next_table_def entry_at_def bitmap_allocate_def)
qed

lemma mm_allocate_page:
  assumes "mm_ok s" and "free_list (mm_frames s) = k # ks"
  shows "\<exists>t. mm_allocate s = Inr (OwnedFrame (page k), mm_put t s) \<and> bitmap_inv t \<and> free_list t = ks \<and>
    same_config (mm_frames s) t \<and> snd t = ram s \<and>
    (\<forall>j. bitmap_bit (bitmap (fst t)) j \<longleftrightarrow> j = k \<or> owned_page s j)"
  using pop_free_page [OF mm_ok_frames(4) [OF assms(1)] assms(2)] mm_allocate_eq [OF assms(1)] mm_ok_frames(3) [OF assms(1)]
  by (auto simp: bitmap_allocate_def)

definition table_flags :: entry_flags where
  "table_flags = ef_or (ef_or EF_PRESENT EF_WRITABLE) EF_USER"

lemma table_flags_ok: "flags_ok table_flags" "bit (ef_bits table_flags) 0" "\<not> bit (ef_bits table_flags) 7"
proof -
  have b: "bit (ef_bits table_flags) n \<longleftrightarrow> n = 0 \<or> n = 1 \<or> n = 2" for n
    by (auto simp: table_flags_def ef_or_def bit_or_iff bit_ef_consts)
  show "bit (ef_bits table_flags) 0" "\<not> bit (ef_bits table_flags) 7"
    by (simp_all add: b)
  show "flags_ok table_flags"
    unfolding flags_ok_def by (rule bit_eqI) (auto simp: bit_and_iff b)
qed

text \<open>The memory after a fresh table has been cleared and linked.\<close>

definition linked_table :: "usize \<Rightarrow> nat \<Rightarrow> usize \<Rightarrow> mem \<Rightarrow> mem" where
  "linked_table h k ptr m = write_entry ptr (pte_new (page k) table_flags) (table_zero (tab h k) m)"

lemma linked_table_cells:
  assumes lay: "layout_ok b" and k: "k < unat (total b)" and f: "f < unat (total b)" "i < ENTRY_COUNT" and ne: "f \<noteq> k"
  defines "h \<equiv> hhdm_offset b"
  shows "linked_table h k (tab h f + 8 * i) m (tab h f + 8 * i) = pte_raw (pte_new (page k) table_flags)"
    and "j < ENTRY_COUNT \<Longrightarrow> linked_table h k (tab h f + 8 * i) m (tab h k + 8 * j) = 0"
    and "g < unat (total b) \<Longrightarrow> j < ENTRY_COUNT \<Longrightarrow> g \<noteq> k \<Longrightarrow> g \<noteq> f \<or> j \<noteq> i \<Longrightarrow>
      linked_table h k (tab h f + 8 * i) m (tab h g + 8 * j) = m (tab h g + 8 * j)"
  unfolding linked_table_def write_entry_def table_zero_eq h_def
  using cell_inject [OF lay] k f ne by auto

lemma paths_ok_extend:
  assumes T: "paths_ok T" and p: "p \<in> dom T" "length p < 3" "i < ENTRY_COUNT" and k: "k \<notin> ran T"
  shows "paths_ok (T(p @ [i] \<mapsto> k))"
proof -
  have "length q \<le> 3 \<and> (\<forall>j \<in> set q. j < ENTRY_COUNT)" if "q \<in> dom (T(p @ [i] \<mapsto> k))" for q
    using that T p by (cases "q = p @ [i]") (auto simp: paths_ok_def)
  moreover have "q \<in> dom (T(p @ [i] \<mapsto> k))" if "q @ [j] \<in> dom (T(p @ [i] \<mapsto> k))" for q j
  proof -
    have "q @ [j] \<in> dom T \<Longrightarrow> q \<in> dom T"
      using T unfolding paths_ok_def by blast
    then show ?thesis
      using that p(1) unfolding dom_fun_upd by auto
  qed
  moreover have "inj_on (T(p @ [i] \<mapsto> k)) (dom (T(p @ [i] \<mapsto> k)))"
    using T k by (auto simp: paths_ok_def inj_on_def ran_def dom_def)
  ultimately show ?thesis
    by (simp add: paths_ok_def)
qed

text \<open>Linking a fresh, cleared table below an entry that was absent.\<close>

definition fresh_link ::
    "page_table_mapper \<Rightarrow> table_map \<Rightarrow> mm_state \<Rightarrow> usize list \<Rightarrow> nat \<Rightarrow> usize \<Rightarrow> nat \<Rightarrow> bitmap_state \<Rightarrow> bool" where
  "fresh_link mp T s p f i k t \<longleftrightarrow> tables_ok mp T s \<and> T p = Some f \<and> length p < 3 \<and> i < ENTRY_COUNT \<and>
     \<not> is_present (entry_at s f i) \<and> k < unat (total (fst (mm_frames s))) \<and> \<not> owned_page s k \<and>
     bitmap_inv t \<and> same_config (mm_frames s) t \<and> snd t = ram s \<and>
     (\<forall>j. bitmap_bit (bitmap (fst t)) j \<longleftrightarrow> j = k \<or> owned_page s j)"

definition linked_state :: "mm_state \<Rightarrow> nat \<Rightarrow> usize \<Rightarrow> nat \<Rightarrow> bitmap_state \<Rightarrow> mm_state" where
  "linked_state s f i k t =
     (mm_put t s)\<lparr>ram := linked_table (hhdm_of s) k (tab (hhdm_of s) f + 8 * i) (ram s)\<rparr>"

lemma fresh_linkD:
  assumes "fresh_link mp T s p f i k t"
  shows "tables_ok mp T s" and "T p = Some f" and "length p < 3" and "i < ENTRY_COUNT"
    and "k < unat (total (fst (mm_frames s)))" and "\<not> owned_page s k" and "bitmap_inv t"
    and "hhdm_offset (fst t) = hhdm_of s" and "total (fst t) = total (fst (mm_frames s))" and "snd t = ram s"
    and "bitmap_bit (bitmap (fst t)) j \<longleftrightarrow> j = k \<or> owned_page s j" and "T (p @ [i]) = None"
    and "T q = Some g \<Longrightarrow> g \<noteq> k" and "\<not> is_present (entry_at s f i)"
proof -
  show l: "tables_ok mp T s" "T p = Some f" "length p < 3" "i < ENTRY_COUNT"
    "k < unat (total (fst (mm_frames s)))" "\<not> owned_page s k" "bitmap_inv t"
    "hhdm_offset (fst t) = hhdm_of s" "total (fst t) = total (fst (mm_frames s))" "snd t = ram s"
    "bitmap_bit (bitmap (fst t)) j \<longleftrightarrow> j = k \<or> owned_page s j" "\<not> is_present (entry_at s f i)"
    using assms by (simp_all add: fresh_link_def same_config_def)
  show "T (p @ [i]) = None"
    using names_child_present(1) [OF tables_ok_child [OF l(1-4)]] l(12) by (cases "T (p @ [i])") auto
  show "T q = Some g \<Longrightarrow> g \<noteq> k"
    using tables_ok_owned [OF l(1)] l(6) by blast
qed

lemma fresh_link_below: "fresh_link mp T s p f i k t \<Longrightarrow> T (p @ [i] @ q) = None"
proof (induction q rule: rev_induct)
  case Nil
  then show ?case
    using fresh_linkD(12) by simp
next
  case (snoc j q)
  then show ?case
    using tables_okD(3) [OF fresh_linkD(1) [OF snoc.prems]] unfolding paths_ok_def domIff by (metis append_assoc)
qed

lemma linked_entry:
  assumes fl: "fresh_link mp T s p f i k t" and j: "j < ENTRY_COUNT"
  shows "entry_at (linked_state s f i k t) k j = PageTableEntry 0"
    and "entry_at (linked_state s f i k t) f i = pte_new (page k) table_flags"
    and "T q = Some g \<Longrightarrow> q \<noteq> p \<or> j \<noteq> i \<Longrightarrow> entry_at (linked_state s f i k t) g j = entry_at s g j"
proof -
  note d = fresh_linkD [OF fl]
  note cells = linked_table_cells [OF tables_okD(5) [OF d(1)] d(5) owned_total [OF d(1,2)] d(4) d(13) [OF d(2)]]
  have e: "entry_at (linked_state s f i k t) g j =
      PageTableEntry (linked_table (hhdm_of s) k (tab (hhdm_of s) f + 8 * i) (ram s) (tab (hhdm_of s) g + 8 * j))" for g j
    by (simp add: entry_at_def read_entry_def linked_state_def d(8))
  show "entry_at (linked_state s f i k t) k j = PageTableEntry 0"
    unfolding e cells(2) [OF j] ..
  show "entry_at (linked_state s f i k t) f i = pte_new (page k) table_flags"
    unfolding e cells(1) by simp
  assume q: "T q = Some g" "q \<noteq> p \<or> j \<noteq> i"
  have "g \<noteq> f \<or> j \<noteq> i"
    using paths_ok_inj [OF tables_okD(3) [OF d(1)], of q f p] q d(2) by (cases "g = f") simp_all
  note c = cells(3) [OF owned_total [OF d(1) q(1)] j d(13) [OF q(1)] this]
  show "entry_at (linked_state s f i k t) g j = entry_at s g j"
    unfolding e c by (simp add: entry_at_def read_entry_def)
qed

lemma linked_child:
  assumes fl: "fresh_link mp T s p f i k t" and q: "(T(p @ [i] \<mapsto> k)) q = Some g" "length q < 3" and j: "j < ENTRY_COUNT"
  shows "names_child (T(p @ [i] \<mapsto> k)) q (entry_at (linked_state s f i k t) g j) j"
proof -
  note d = fresh_linkD [OF fl] and e = linked_entry [OF fl j]
  consider "q = p @ [i]" | "q = p" "j = i" | "q \<noteq> p @ [i]" "q \<noteq> p \<or> j \<noteq> i"
    by blast
  then show ?thesis
  proof cases
    case 1
    then show ?thesis
      using q(1) e(1) fresh_link_below [OF fl, of "[j]"] by (simp add: names_child_def is_present_bit)
  next
    case 2
    moreover have "frame_ok PAGE_SIZE (page k)"
      using layout_page(1) [OF tables_okD(5) [OF d(1)] d(5)] by simp
    ultimately show ?thesis
      using q(1) d(2) e(2) pte_new_frame [OF _ table_flags_ok(1)] table_flags_ok(2,3) by (simp add: names_child_def)
  next
    case 3
    then have "T q = Some g" "(T(p @ [i] \<mapsto> k)) (q @ [j]) = T (q @ [j])"
      using q(1) by auto
    then show ?thesis
      using tables_ok_child [OF d(1) _ q(2) j] e(3) 3(2) by (simp add: names_child_def)
  qed
qed

lemma linked_tables_ok:
  assumes fl: "fresh_link mp T s p f i k t"
  shows "tables_ok mp (T(p @ [i] \<mapsto> k)) (linked_state s f i k t)"
    and "free_list (mm_frames (linked_state s f i k t)) = free_list t"
proof -
  let ?h = "hhdm_of s" and ?s = "linked_state s f i k t" and ?T = "T(p @ [i] \<mapsto> k)"
  let ?m = "linked_table ?h k (tab ?h f + 8 * i) (ram s)"
  note d = fresh_linkD [OF fl]
  note cells = linked_table_cells [OF tables_okD(5) [OF d(1)] d(5) owned_total [OF d(1,2)] d(4) d(13) [OF d(2)]]
  have "?m (tab ?h g) = ram s (tab ?h g)" if "g < unat (total (fst t))" "\<not> bitmap_bit (bitmap (fst t)) g" for g
    using cells(3) [of g 0] that d(9) d(11) [of g] tables_ok_owned [OF d(1,2)] by (auto simp: ENTRY_COUNT_def)
  then have bi: "bitmap_inv (fst t, ?m)" "free_list (fst t, ?m) = free_list t"
    using bitmap_inv_cong [of "fst t" "snd t" ?m] d(7,8,10) by (cases t; simp)+
  then show "free_list (mm_frames ?s) = free_list t"
    by (simp add: linked_state_def)
  have "k \<notin> ran T"
    using d(13) by (auto simp: ran_def)
  then have "paths_ok ?T"
    using paths_ok_extend [OF tables_okD(3) [OF d(1)] _ d(3,4)] d(2) by blast
  moreover have "mm_ok ?s"
    using bi(1) by (simp add: linked_state_def mm_ok_def mm_put_def)
  moreover have "owned_page ?s g" if "?T q = Some g" for q g
    using that d(11) tables_ok_owned [OF d(1)] by (auto simp: linked_state_def split: if_splits)
  moreover have "\<exists>r. ?T [] = Some r \<and> pml4 mp = page r" "map_hhdm mp = hhdm_of ?s"
    using d(1,8) by (simp_all add: tables_ok_def linked_state_def)
  ultimately show "tables_ok mp ?T ?s"
    using linked_child [OF fl] by (simp add: tables_ok_def)
qed

lemma linked_translation:
  assumes fl: "fresh_link mp T s p f i k t"
  shows "translation (T(p @ [i] \<mapsto> k)) (linked_state s f i k t) w = translation T s w"
proof -
  note d = fresh_linkD [OF fl] and e = linked_entry [OF fl index_of_less]
  have h: "read_entry (ram (linked_state s f i k t)) (tab (hhdm_of (linked_state s f i k t)) g + 8 * j) =
      entry_at (linked_state s f i k t) g j" for g j
    by (simp add: entry_at_def)
  have len: "path_of w \<noteq> p"
    using d(3) by (auto simp: path_of_def)
  show ?thesis
  proof (cases "path_of w = p @ [i]")
    case True
    then show ?thesis
      using d(12) e(1) by (simp add: translation_def leaf_ptr_def h leaf_value_def is_present_bit)
  next
    case False
    then show ?thesis
      using e(3) [of "path_of w" _ One w] len
      by (cases "T (path_of w)") (simp_all add: translation_def leaf_ptr_def h, simp add: entry_at_def)
  qed
qed

text \<open>An entry above the last level that maps a huge page.\<close>

definition huge_at :: "table_map \<Rightarrow> mm_state \<Rightarrow> usize list \<Rightarrow> usize \<Rightarrow> bool" where
  "huge_at T s q j \<longleftrightarrow> (\<exists>g. T q = Some g \<and> is_present (entry_at s g j) \<and> T (q @ [j]) = None)"

lemma linked_huge:
  assumes fl: "fresh_link mp T s p f i k t" and q: "length q < 3" "j < ENTRY_COUNT"
  shows "huge_at (T(p @ [i] \<mapsto> k)) (linked_state s f i k t) q j \<longleftrightarrow> huge_at T s q j"
proof -
  note d = fresh_linkD [OF fl] and e = linked_entry [OF fl q(2)]
  consider "q = p @ [i]" | "q = p" "j = i" | "q \<noteq> p @ [i]" "q \<noteq> p \<or> j \<noteq> i"
    by blast
  then show ?thesis
  proof cases
    case 1
    then show ?thesis
      using e(1) d(12) by (simp add: huge_at_def is_present_bit)
  next
    case 2
    then show ?thesis
      using d(2,14) by (simp add: huge_at_def)
  next
    case 3
    then have "(T(p @ [i] \<mapsto> k)) q = T q" "(T(p @ [i] \<mapsto> k)) (q @ [j]) = T (q @ [j])"
      by auto
    then show ?thesis
      using e(3) 3(2) by (cases "T q") (auto simp: huge_at_def)
  qed
qed

section \<open>Walking with allocation\<close>

text \<open>
  \<open>grows mp T s T' s' n\<close>: the step from \<open>s\<close> to \<open>s'\<close> added tables in at most \<open>n\<close> frames from
  the front of the free list and changed no translation.
\<close>

definition grows :: "page_table_mapper \<Rightarrow> table_map \<Rightarrow> mm_state \<Rightarrow> table_map \<Rightarrow> mm_state \<Rightarrow> nat \<Rightarrow> bool" where
  "grows mp T s T' s' n \<longleftrightarrow> tables_ok mp T' s' \<and> hhdm_of s' = hhdm_of s \<and> HHDM_OFFSET s' = HHDM_OFFSET s \<and> T \<subseteq>\<^sub>m T' \<and>
     (\<forall>w. translation T' s' w = translation T s w) \<and>
     (\<forall>q j. length q < 3 \<longrightarrow> j < ENTRY_COUNT \<longrightarrow> huge_at T' s' q j = huge_at T s q j) \<and>
     (\<exists>us. free_list (mm_frames s) = us @ free_list (mm_frames s') \<and> length us \<le> n \<and>
       (\<forall>g. owned_page s' g \<longleftrightarrow> owned_page s g \<or> g \<in> set us) \<and> ran T' = ran T \<union> set us)"

lemma grows_refl: "tables_ok mp T s \<Longrightarrow> grows mp T s T s n"
  by (auto simp: grows_def)

lemma grows_trans:
  assumes "grows mp T s T' s' a" and "grows mp T' s' T'' s'' b"
  shows "grows mp T s T'' s'' (a + b)"
proof -
  obtain us where us: "free_list (mm_frames s) = us @ free_list (mm_frames s')" "length us \<le> a"
    "\<And>g. owned_page s' g \<longleftrightarrow> owned_page s g \<or> g \<in> set us" "ran T' = ran T \<union> set us"
    using assms(1) by (auto simp: grows_def)
  obtain vs where vs: "free_list (mm_frames s') = vs @ free_list (mm_frames s'')" "length vs \<le> b"
    "\<And>g. owned_page s'' g \<longleftrightarrow> owned_page s' g \<or> g \<in> set vs" "ran T'' = ran T' \<union> set vs"
    using assms(2) by (auto simp: grows_def)
  show ?thesis
    unfolding grows_def
  proof (intro conjI exI [of _ "us @ vs"])
    show "T \<subseteq>\<^sub>m T''"
      using assms map_le_trans unfolding grows_def by blast
    show "free_list (mm_frames s) = (us @ vs) @ free_list (mm_frames s'')" "length (us @ vs) \<le> a + b"
      "\<forall>g. owned_page s'' g \<longleftrightarrow> owned_page s g \<or> g \<in> set (us @ vs)"
      "ran T'' = ran T \<union> set (us @ vs)"
      using us vs by auto
  qed (use assms in \<open>simp_all add: grows_def\<close>)
qed

lemma growsD:
  assumes "grows mp T s T' s' n"
  shows "tables_ok mp T' s'" and "hhdm_of s' = hhdm_of s" and "T p = Some f \<Longrightarrow> T' p = Some f"
    and "translation T' s' w = translation T s w"
    and "length q < 3 \<Longrightarrow> j < ENTRY_COUNT \<Longrightarrow> huge_at T' s' q j = huge_at T s q j"
    and "length (free_list (mm_frames s)) \<le> length (free_list (mm_frames s')) + n"
  using assms by (auto simp: grows_def map_le_def domIff) (metis domI)

lemma next_table_grows:
  assumes ok: "tables_ok mp T s" and f: "T p = Some f" "length p < 3" "i < ENTRY_COUNT"
    and nh: "\<not> huge_at T s p i" and fr: "free_list (mm_frames s) \<noteq> []"
  shows "\<exists>T' s' g. next_table True (map_hhdm mp) (tab (hhdm_of s) f + 8 * i) s = Inr (Inr (tab (hhdm_of s) g), s') \<and>
    T' (p @ [i]) = Some g \<and> grows mp T s T' s' 1"
proof (cases "T (p @ [i])")
  case (Some g)
  then show ?thesis
    using next_table_cases(1) [OF ok f] grows_refl [OF ok] by blast
next
  case None
  then have np: "\<not> is_present (entry_at s f i)"
    using nh f(1) by (simp add: huge_at_def)
  obtain k ks where k: "free_list (mm_frames s) = k # ks"
    using fr by (cases "free_list (mm_frames s)") auto
  obtain t where t: "mm_allocate s = Inr (OwnedFrame (page k), mm_put t s)" "bitmap_inv t" "free_list t = ks"
    "same_config (mm_frames s) t" "snd t = ram s" "\<forall>j. bitmap_bit (bitmap (fst t)) j \<longleftrightarrow> j = k \<or> owned_page s j"
    using mm_allocate_page [OF tables_okD(1) [OF ok] k] by blast
  have kt: "k < unat (total (fst (mm_frames s)))" "\<not> owned_page s k"
    using free_list_total [OF tables_okD(4) [OF ok], of k] free_list_bit [OF tables_okD(4) [OF ok], of k] k by auto
  have fl: "fresh_link mp T s p f i k t"
    using ok f np kt t by (simp add: fresh_link_def)
  let ?s = "linked_state s f i k t" and ?T = "T(p @ [i] \<mapsto> k)"
  note lt = linked_tables_ok [OF fl]
  have hh: "hhdm_of ?s = hhdm_of s"
    using fresh_linkD(8) [OF fl] by (simp add: linked_state_def)
  have "next_table True (map_hhdm mp) (tab (hhdm_of s) f + 8 * i) s = next_child (map_hhdm mp) (tab (hhdm_of s) f + 8 * i) ?s"
    using np t(1,5) table_at_page [OF tables_okD(5) [OF ok] kt(1)] tables_okD(2) [OF ok]
    by (simp add: next_table_def entry_at_def table_at_frame_def owned_base_def owned_into_inner_def Let_def
        linked_state_def linked_table_def table_flags_def)
  also have "\<dots> = Inr (Inr (tab (hhdm_of s) k), ?s)"
    using next_child_eq [OF lt(1), of p f i k] f hh by simp
  finally have "next_table True (map_hhdm mp) (tab (hhdm_of s) f + 8 * i) s = Inr (Inr (tab (hhdm_of s) k), ?s)" .
  moreover have "grows mp T s ?T ?s 1"
    unfolding grows_def
  proof (intro conjI allI impI exI [of _ "[k]"])
    show "T \<subseteq>\<^sub>m ?T"
      using None by (auto simp: map_le_def)
    show "owned_page ?s g \<longleftrightarrow> owned_page s g \<or> g \<in> set [k]" for g
      using t(6) by (auto simp: linked_state_def)
    show "ran ?T = ran T \<union> set [k]"
      using None by simp
  qed (use lt hh linked_translation [OF fl] linked_huge [OF fl] t(3) k in \<open>simp_all add: linked_state_def\<close>)
  ultimately show ?thesis
    by (intro exI [of _ ?T] exI [of _ ?s] exI [of _ k]) simp
qed

definition huge_on :: "table_map \<Rightarrow> mm_state \<Rightarrow> virt_addr \<Rightarrow> bool" where
  "huge_on T s v \<longleftrightarrow> huge_at T s [index_of Four v] (index_of Three v) \<or>
     huge_at T s [index_of Four v, index_of Three v] (index_of Two v)"

lemma root_not_huge:
  assumes "tables_ok mp T s" and "i < ENTRY_COUNT"
  shows "\<not> huge_at T s [] i"
proof
  assume "huge_at T s [] i"
  then obtain g where g: "T [] = Some g" "is_present (entry_at s g i)" "T ([] @ [i]) = None"
    by (auto simp: huge_at_def)
  then show False
    using names_child_present(2) [OF tables_ok_child [OF assms(1) g(1) _ assms(2)]] by simp
qed

lemma free_after_grows:
  assumes "grows mp T s T' s' n" and "n < length (free_list (mm_frames s))"
  shows "free_list (mm_frames s') \<noteq> []"
  using growsD(6) [OF assms(1)] assms(2) by auto

lemma walk_or_create_grows:
  assumes ok: "tables_ok mp T s" and nh: "\<not> huge_on T s v" and fr: "3 \<le> length (free_list (mm_frames s))"
  shows "\<exists>T' s' a. walk_or_create mp v True s = Inr (Inr a, s') \<and>
    leaf_ptr T' (hhdm_of s') v = Some a \<and> grows mp T s T' s' 3"
proof -
  let ?a = "index_of Four v" and ?b = "index_of Three v" and ?c = "index_of Two v"
  obtain r where r: "T [] = Some r" "table_at_frame (pml4 mp) (map_hhdm mp) = Inr (tab (hhdm_of s) r)"
    using root_table [OF ok] by blast
  have "free_list (mm_frames s) \<noteq> []"
    using fr by auto
  then obtain T1 s1 g1 where 1: "next_table True (map_hhdm mp) (tab (hhdm_of s) r + 8 * ?a) s =
      Inr (Inr (tab (hhdm_of s) g1), s1)" "T1 [?a] = Some g1" "grows mp T s T1 s1 1"
    using next_table_grows [OF ok r(1) _ index_of_less root_not_huge [OF ok index_of_less]] by fastforce
  note ok1 = growsD(1) [OF 1(3)] and h1 = growsD(2) [OF 1(3)]
  have "\<not> huge_at T1 s1 [?a] ?b"
    using nh growsD(5) [OF 1(3), of "[?a]" ?b] index_of_less by (simp add: huge_on_def)
  moreover have "free_list (mm_frames s1) \<noteq> []"
    using free_after_grows [OF 1(3)] fr by simp
  ultimately obtain T2 s2 g2 where 2: "next_table True (map_hhdm mp) (tab (hhdm_of s1) g1 + 8 * ?b) s1 =
      Inr (Inr (tab (hhdm_of s1) g2), s2)" "T2 [?a, ?b] = Some g2" "grows mp T1 s1 T2 s2 1"
    using next_table_grows [OF ok1 1(2) _ index_of_less] by fastforce
  note g12 = grows_trans [OF 1(3) 2(3)]
  note ok2 = growsD(1) [OF g12] and h2 = growsD(2) [OF g12]
  have "\<not> huge_at T2 s2 [?a, ?b] ?c"
    using nh growsD(5) [OF g12, of "[?a, ?b]" ?c] index_of_less by (simp add: huge_on_def)
  moreover have "free_list (mm_frames s2) \<noteq> []"
    using free_after_grows [OF g12] fr by simp
  ultimately obtain T3 s3 g3 where 3: "next_table True (map_hhdm mp) (tab (hhdm_of s2) g2 + 8 * ?c) s2 =
      Inr (Inr (tab (hhdm_of s2) g3), s3)" "T3 [?a, ?b, ?c] = Some g3" "grows mp T2 s2 T3 s3 1"
    using next_table_grows [OF ok2 2(2) _ index_of_less] by fastforce
  have g13: "grows mp T s T3 s3 3"
    using grows_trans [OF g12 3(3)] by (simp add: numeral_3_eq_3)
  have "walk_or_create mp v True s = Inr (Inr (tab (hhdm_of s) g3 + 8 * index_of One v), s3)"
    using r(2) 1(1) 2(1) 3(1) h1 h2 by (simp add: walk_or_create_def)
  moreover have "leaf_ptr T3 (hhdm_of s3) v = Some (tab (hhdm_of s) g3 + 8 * index_of One v)"
    using 3(2) growsD(2) [OF g13] by (simp add: leaf_ptr_def path_of_def)
  ultimately show ?thesis
    using g13 by blast
qed

lemma walk_or_create_found:
  assumes ok: "tables_ok mp T s" and a: "leaf_ptr T (hhdm_of s) v = Some a"
  shows "walk_or_create mp v b s = Inr (Inr a, s)"
proof -
  let ?a = "index_of Four v" and ?b = "index_of Three v" and ?c = "index_of Two v"
  obtain r where r: "T [] = Some r" "table_at_frame (pml4 mp) (map_hhdm mp) = Inr (tab (hhdm_of s) r)"
    using root_table [OF ok] by blast
  note pf = paths_ok_prefix [OF tables_okD(3) [OF ok]]
  obtain g3 where 3: "T [?a, ?b, ?c] = Some g3" "a = tab (hhdm_of s) g3 + 8 * index_of One v"
    using a by (auto simp: leaf_ptr_def path_of_def)
  then obtain g2 where 2: "T [?a, ?b] = Some g2"
    using pf(2) [of ?a ?b ?c] by (cases "T [?a, ?b]") auto
  then obtain g1 where 1: "T [?a] = Some g1"
    using pf(1) [of ?a ?b] by (cases "T [?a]") auto
  have "next_table b (map_hhdm mp) (tab (hhdm_of s) r + 8 * ?a) s = Inr (Inr (tab (hhdm_of s) g1), s)"
    "next_table b (map_hhdm mp) (tab (hhdm_of s) g1 + 8 * ?b) s = Inr (Inr (tab (hhdm_of s) g2), s)"
    "next_table b (map_hhdm mp) (tab (hhdm_of s) g2 + 8 * ?c) s = Inr (Inr (tab (hhdm_of s) g3), s)"
    using next_table_cases(1) [OF ok r(1), of ?a g1 b] next_table_cases(1) [OF ok 1, of ?b g2 b]
      next_table_cases(1) [OF ok 2, of ?c g3 b] 1 2 3(1) index_of_less by simp_all
  then show ?thesis
    using r(2) 3(2) by (simp add: walk_or_create_def)
qed

text \<open>The outcomes of the walk when the last-level table does not exist.\<close>


lemma stop_cases:
  assumes ok: "tables_ok mp T s" and none: "leaf_ptr T (hhdm_of s) v = None"
  obtains (l4) r where "T [] = Some r" "\<not> is_present (entry_at s r (index_of Four v))" "\<not> huge_on T s v"
  | (l3) r f where "T [] = Some r" "T [index_of Four v] = Some f" "T [index_of Four v, index_of Three v] = None"
      "is_present (entry_at s f (index_of Three v)) \<longleftrightarrow> huge_on T s v"
  | (l2) r f g where "T [] = Some r" "T [index_of Four v] = Some f" "T [index_of Four v, index_of Three v] = Some g"
      "T [index_of Four v, index_of Three v, index_of Two v] = None"
      "is_present (entry_at s g (index_of Two v)) \<longleftrightarrow> huge_on T s v"
proof -
  let ?a = "index_of Four v" and ?b = "index_of Three v" and ?c = "index_of Two v"
  obtain r where r: "T [] = Some r"
    using root_table [OF ok] by blast
  have n: "T [?a, ?b, ?c] = None"
    using none by (simp add: leaf_ptr_def path_of_def)
  show thesis
  proof (cases "T [?a]")
    case None
    moreover from this have "T [?a, ?b] = None"
      by (rule paths_ok_prefix(1) [OF tables_okD(3) [OF ok]])
    ultimately show thesis
      using r l4 root_not_huge [OF ok index_of_less [of Four v]] by (simp add: huge_on_def huge_at_def)
  next
    case f: (Some f)
    then show thesis
      using r n l3 l2 by (cases "T [?a, ?b]") (simp_all add: huge_on_def huge_at_def)
  qed
qed

lemma walk_or_create_stops:
  assumes ok: "tables_ok mp T s" and none: "leaf_ptr T (hhdm_of s) v = None"
  shows "huge_on T s v \<Longrightarrow> walk_or_create mp v b s = Inr (Inl AlreadyMapped, s)"
    and "\<not> huge_on T s v \<Longrightarrow> walk_or_create mp v False s = Inr (Inl FrameAllocationFailed, s)"
    and "\<not> huge_on T s v \<Longrightarrow> free_list (mm_frames s) = [] \<Longrightarrow>
      walk_or_create mp v True s = Inl (Panic ''out of physical memory'')"
proof -
  let ?a = "index_of Four v" and ?b = "index_of Three v" and ?c = "index_of Two v"
  obtain r where r: "T [] = Some r" "table_at_frame (pml4 mp) (map_hhdm mp) = Inr (tab (hhdm_of s) r)"
    using root_table [OF ok] by blast
  note nt = next_table_cases [OF ok _ _ index_of_less]
  have 1: "huge_on T s v \<longrightarrow> walk_or_create mp v b s = Inr (Inl AlreadyMapped, s)" for b
    using ok none
  proof (cases rule: stop_cases)
    case (l3 r' f)
    then show ?thesis
      using r nt(1) [OF r(1), of Four v f b] nt(2) [OF l3(2), of Three v b] by (simp add: walk_or_create_def)
  next
    case (l2 r' f g)
    then show ?thesis
      using r nt(1) [OF r(1), of Four v f b] nt(1) [OF l2(2), of Three v g b] nt(2) [OF l2(3), of Two v b]
      by (simp add: walk_or_create_def)
  qed simp
  have 2: "\<not> huge_on T s v \<longrightarrow> walk_or_create mp v False s = Inr (Inl FrameAllocationFailed, s)"
    using ok none
  proof (cases rule: stop_cases)
    case (l4 r')
    then show ?thesis
      using r nt(3) [OF r(1), of Four v] by (simp add: walk_or_create_def)
  next
    case (l3 r' f)
    then show ?thesis
      using r nt(1) [OF r(1), of Four v f False] nt(3) [OF l3(2), of Three v] by (simp add: walk_or_create_def)
  next
    case (l2 r' f g)
    then show ?thesis
      using r nt(1) [OF r(1), of Four v f False] nt(1) [OF l2(2), of Three v g False] nt(3) [OF l2(3), of Two v]
      by (simp add: walk_or_create_def)
  qed
  have 3: "\<not> huge_on T s v \<longrightarrow> walk_or_create mp v True s = Inl (Panic ''out of physical memory'')"
    if fr: "free_list (mm_frames s) = []"
    using ok none
  proof (cases rule: stop_cases)
    case (l4 r')
    then show ?thesis
      using r fr nt(4) [OF r(1), of Four v] by (simp add: walk_or_create_def)
  next
    case (l3 r' f)
    then show ?thesis
      using r fr nt(1) [OF r(1), of Four v f True] nt(4) [OF l3(2), of Three v] by (simp add: walk_or_create_def)
  next
    case (l2 r' f g)
    then show ?thesis
      using r fr nt(1) [OF r(1), of Four v f True] nt(1) [OF l2(2), of Three v g True] nt(4) [OF l2(3), of Two v]
      by (simp add: walk_or_create_def)
  qed
  show "huge_on T s v \<Longrightarrow> walk_or_create mp v b s = Inr (Inl AlreadyMapped, s)"
    and "\<not> huge_on T s v \<Longrightarrow> walk_or_create mp v False s = Inr (Inl FrameAllocationFailed, s)"
    and "\<not> huge_on T s v \<Longrightarrow> free_list (mm_frames s) = [] \<Longrightarrow>
      walk_or_create mp v True s = Inl (Panic ''out of physical memory'')"
    using 1 2 3 by blast+
qed

end
