(* ===== verification/Page_Map.thy ===== *)
theory Page_Map
  imports Page_Tables
begin

text \<open>
  What \<open>map\<close>, \<open>unmap\<close> and \<open>remap\<close> of the page-table mapper do to the translation of every
  address, stated over \<open>translate\<close> itself, and the contract that the \<open>Mapper\<close> trait gives its
  clients, with the page-table mapper as the implementation.
\<close>

section \<open>The state of a mapper\<close>

text \<open>The tables of a mapper are determined by the memory.\<close>

lemma tables_long:
  assumes "tables_ok mp T s" and "T p = Some f"
  shows "length p \<le> 3" and "\<forall>i \<in> set p. i < ENTRY_COUNT"
  using tables_okD(3) [OF assms(1)] assms(2) by (auto simp: paths_ok_def)

lemma page_unique:
  assumes "tables_ok mp T s" and "T p = Some f" and "tables_ok mp U s" and "U q = Some g" and "page f = page g"
  shows "f = g"
  using page_inject [of f g] total_limit [OF tables_okD(4) [OF assms(1)]] owned_total [OF assms(1,2)]
    owned_total [OF assms(3,4)] assms(5) by blast

lemma tables_sub:
  assumes T: "tables_ok mp T s" and U: "tables_ok mp U s" and "T p = Some f"
  shows "U p = Some f"
  using assms(3)
proof (induction p arbitrary: f rule: rev_induct)
  case Nil
  then show ?case
    using T U page_unique [OF T Nil U] by (fastforce simp: tables_ok_def)
next
  case (snoc i p)
  have i: "length p < 3" "i < ENTRY_COUNT"
    using tables_long [OF T snoc.prems] by simp_all
  obtain g where g: "T p = Some g"
    using tables_okD(3) [OF T] snoc.prems unfolding paths_ok_def by blast
  have e: "is_present (entry_at s g i)" "\<not> is_huge (entry_at s g i)" "pte_frame (entry_at s g i) = Inr (Some (page f))"
    using names_child_present(1) [OF tables_ok_child [OF T g i] snoc.prems] by simp_all
  note u = names_child_present [OF tables_ok_child [OF U snoc.IH [OF g] i]]
  obtain k where k: "U (p @ [i]) = Some k"
    using u(2) e(1,2) by (cases "U (p @ [i])") auto
  then have "page k = page f"
    using u(1) [OF k] e(3) by simp
  then show ?case
    using page_unique [OF T snoc.prems U k] k by simp
qed

lemma tables_unique: "tables_ok mp T s \<Longrightarrow> tables_ok mp U s \<Longrightarrow> T = U"
  by (rule ext) (metis not_None_eq tables_sub)

definition mapper_ok :: "page_table_mapper \<Rightarrow> mm_state \<Rightarrow> bool" where
  "mapper_ok mp s \<longleftrightarrow> (\<exists>T. tables_ok mp T s)"

definition table_frames :: "page_table_mapper \<Rightarrow> mm_state \<Rightarrow> nat set" where
  "table_frames mp s = {f. \<exists>T p. tables_ok mp T s \<and> T p = Some f}"

definition maps_huge :: "page_table_mapper \<Rightarrow> mm_state \<Rightarrow> virt_addr \<Rightarrow> bool" where
  "maps_huge mp s v \<longleftrightarrow> (\<exists>T. tables_ok mp T s \<and> huge_on T s v)"

definition mapped :: "page_table_mapper \<Rightarrow> mm_state \<Rightarrow> virt_addr \<Rightarrow> (phys_addr \<times> page_flags) option" where
  "mapped mp s v = (case mapper_translate mp v (ram s) of Inl _ \<Rightarrow> None | Inr r \<Rightarrow> r)"

lemma mapper_okI:
  assumes T: "tables_ok mp T s"
  shows "mapper_ok mp s" and "table_frames mp s = ran T" and "maps_huge mp s v \<longleftrightarrow> huge_on T s v"
    and "mapped mp s v = translation T s v" and "mapper_translate mp v (ram s) = Inr (mapped mp s v)"
proof -
  have *: "tables_ok mp U s \<longleftrightarrow> U = T" for U
    using T tables_unique [OF T] by blast
  show "mapper_ok mp s" "table_frames mp s = ran T" "maps_huge mp s v \<longleftrightarrow> huge_on T s v"
    unfolding mapper_ok_def table_frames_def maps_huge_def ran_def * by simp_all
  show "mapped mp s v = translation T s v" "mapper_translate mp v (ram s) = Inr (mapped mp s v)"
    by (simp_all add: mapped_def translate_eq [OF T])
qed

text \<open>Frames used by the step from \<open>s\<close> to \<open>s'\<close>: taken from the front of the free list and owned afterwards.\<close>

definition takes_frames :: "mm_state \<Rightarrow> nat list \<Rightarrow> mm_state \<Rightarrow> bool" where
  "takes_frames s us s' \<longleftrightarrow> free_list (mm_frames s) = us @ free_list (mm_frames s') \<and>
     (\<forall>g. owned_page s' g \<longleftrightarrow> owned_page s g \<or> g \<in> set us)"

lemma same_page_refl [simp]: "same_page v v"
  by (simp add: same_page_def)

lemma leaf_value_new:
  assumes "frame_ok PAGE_SIZE f"
  shows "leaf_value (pte_new f (entry_flags_from_page_flags fl)) w =
    Some (PhysAddr (phys_as_usize (frame_base f) + (virt_as_usize w AND (PAGE_SIZE - 1))),
      PageFlags ((pf_bits fl AND mask 6) OR 1))"
  using pte_new_frame(2) [OF assms entry_flags_ok, of fl] pte_new_bits(1,2) [OF assms entry_flags_ok, of fl]
  by (simp add: leaf_value_def bit_entry_flags page_flags_entry_flags)

lemma huge_leaf:
  assumes "tables_ok mp T s" and "huge_on T s v"
  shows "leaf_ptr T (hhdm_of s) v = None"
proof -
  note pf = paths_ok_prefix [OF tables_okD(3) [OF assms(1)]]
  show ?thesis
    using assms(2) pf by (auto simp: huge_on_def huge_at_def leaf_ptr_def path_of_def)
qed

lemma huge_on_ram:
  assumes "\<And>p f i. T p = Some f \<Longrightarrow> length p < 3 \<Longrightarrow> i < ENTRY_COUNT \<Longrightarrow> entry_at s' f i = entry_at s f i"
  shows "huge_on T s' v = huge_on T s v"
  using assms index_of_less by (auto simp: huge_on_def huge_at_def)

section \<open>Mapping a page\<close>

definition vpage_ok :: "virt_addr \<Rightarrow> bool" where
  "vpage_ok v \<longleftrightarrow> 4096 dvd virt_nat v \<and> is_canonical (virt_as_usize v)"

lemma translation_Some:
  assumes "translation T s v = Some x"
  obtains a where "leaf_ptr T (hhdm_of s) v = Some a" "is_present (read_entry (ram s) a)"
    "leaf_value (read_entry (ram s) a) v = Some x"
  using assms by (auto simp: translation_def leaf_value_def split: option.splits if_splits)

lemma map_occupied:
  assumes ok: "mapper_ok mp s" and v: "vpage_ok v" and m: "mapped mp s v \<noteq> None \<or> maps_huge mp s v"
  shows "mapper_map mp v f fl s = Inr (Inl (f, AlreadyMapped), s)"
proof -
  obtain T where T: "tables_ok mp T s"
    using ok by (auto simp: mapper_ok_def)
  note I = mapper_okI [OF T]
  consider (huge) "huge_on T s v" | (leaf) x where "translation T s v = Some x"
    using m I(3,4) by auto
  then show ?thesis
  proof cases
    case huge
    then have "walk_or_create mp v True s = Inr (Inl AlreadyMapped, s)"
      by (rule walk_or_create_stops(1) [OF T huge_leaf [OF T huge]])
    then show ?thesis
      using v by (simp add: mapper_map_def virt_is_aligned_page vpage_ok_def virt_is_canonical_addr_def)
  next
    case leaf
    then show ?thesis
      using v walk_or_create_found [OF T]
      by (elim translation_Some) (simp add: mapper_map_def virt_is_aligned_page vpage_ok_def virt_is_canonical_addr_def)
  qed
qed

lemma translation_None:
  "translation T s v = None \<Longrightarrow> leaf_ptr T (hhdm_of s) v = Some a \<Longrightarrow> \<not> is_present (read_entry (ram s) a)"
  by (auto simp: translation_def leaf_value_def split: if_splits)

lemma write_leaf_state:
  assumes ok: "tables_ok mp T s" and a: "leaf_ptr T (hhdm_of s) v = Some a" and s': "s' = s\<lparr>ram := write_entry a e (ram s)\<rparr>"
  shows "mapper_ok mp s'" and "table_frames mp s' = ran T" and "maps_huge mp s' w = huge_on T s w"
    and "mapped mp s' w = (if same_page v w then leaf_value e w else translation T s w)"
    and "takes_frames s [] s'" and "hhdm_of s' = hhdm_of s" and "HHDM_OFFSET s' = HHDM_OFFSET s"
proof -
  note w = write_leaf [OF ok a, of e, folded s'] and I = mapper_okI [OF write_leaf(1) [OF ok a, of e, folded s']]
  show "mapper_ok mp s'" "table_frames mp s' = ran T"
    "mapped mp s' w = (if same_page v w then leaf_value e w else translation T s w)"
    using I w(3) by simp_all
  show "takes_frames s [] s'" "hhdm_of s' = hhdm_of s" "HHDM_OFFSET s' = HHDM_OFFSET s"
    using w(2,4) by (simp_all add: takes_frames_def s')
  obtain f where f: "T (path_of v) = Some f" "a = tab (hhdm_of s) f + 8 * index_of One v"
    using a by (auto simp: leaf_ptr_def)
  have "entry_at s' g i = entry_at s g i" if "T p = Some g" "length p < 3" "i < ENTRY_COUNT" for p g i
  proof -
    have "p \<noteq> path_of v"
      using that(2) by (auto simp: path_of_def)
    then have "tab (hhdm_of s) g + 8 * i \<noteq> a"
      using cell_tables [OF ok that(1,3) f(1) index_of_less, of One v] f(2) by simp
    then show ?thesis
      by (simp add: entry_at_def read_entry_def write_entry_def s')
  qed
  then show "maps_huge mp s' w = huge_on T s w"
    using I(3) huge_on_ram [of T s' s] by simp
qed

lemma grows_takes:
  assumes "grows mp T s T' s' n"
  obtains us where "takes_frames s us s'" "length us \<le> n" "ran T' = ran T \<union> set us"
  using assms by (auto simp: grows_def takes_frames_def)

lemma takes_frames_trans: "takes_frames s us t \<Longrightarrow> takes_frames t vs u \<Longrightarrow> takes_frames s (us @ vs) u"
  by (auto simp: takes_frames_def)

definition has_table :: "page_table_mapper \<Rightarrow> mm_state \<Rightarrow> virt_addr \<Rightarrow> bool" where
  "has_table mp s v \<longleftrightarrow> (\<exists>a. walk mp v (ram s) = Inr (Some a))"

lemma has_table_iff: "tables_ok mp T s \<Longrightarrow> has_table mp s v \<longleftrightarrow> T (path_of v) \<noteq> None"
  by (simp add: has_table_def walk_eq leaf_ptr_def)

lemma walk_or_create_ready:
  assumes T: "tables_ok mp T s" and nh: "\<not> huge_on T s v"
    and fr: "has_table mp s v \<or> 3 \<le> length (free_list (mm_frames s))"
  shows "\<exists>T' s' a. walk_or_create mp v True s = Inr (Inr a, s') \<and> leaf_ptr T' (hhdm_of s') v = Some a \<and>
    grows mp T s T' s' 3 \<and> (has_table mp s v \<longrightarrow> T' = T \<and> s' = s)"
proof (cases "has_table mp s v")
  case True
  then obtain a where "leaf_ptr T (hhdm_of s) v = Some a"
    using walk_eq [OF T] by (auto simp: has_table_def)
  then show ?thesis
    using walk_or_create_found [OF T] grows_refl [OF T] by blast
next
  case False
  then show ?thesis
    using walk_or_create_grows [OF T nh] fr by blast
qed

lemma map_vacant:
  assumes ok: "mapper_ok mp s" and v: "vpage_ok v" and f: "frame_ok PAGE_SIZE f"
    and m: "mapped mp s v = None" "\<not> maps_huge mp s v"
    and fr: "has_table mp s v \<or> 3 \<le> length (free_list (mm_frames s))"
  shows "\<exists>s' us. mapper_map mp v (OwnedFrame f) fl s = Inr (Inr (TlbFlush v), s') \<and> mapper_ok mp s' \<and>
    (\<forall>w. mapped mp s' w =
      (if same_page v w
       then Some (PhysAddr (phys_as_usize (frame_base f) + (virt_as_usize w AND (PAGE_SIZE - 1))),
         PageFlags ((pf_bits fl AND mask 6) OR 1))
       else mapped mp s w)) \<and>
    (\<forall>w. maps_huge mp s' w = maps_huge mp s w) \<and> takes_frames s us s' \<and> length us \<le> 3 \<and>
    table_frames mp s' = table_frames mp s \<union> set us \<and> HHDM_OFFSET s' = HHDM_OFFSET s \<and>
    (has_table mp s v \<longrightarrow> us = []) \<and> has_table mp s' v \<and> (\<forall>w. has_table mp s w \<longrightarrow> has_table mp s' w)"
proof -
  obtain T where T: "tables_ok mp T s"
    using ok by (auto simp: mapper_ok_def)
  note I = mapper_okI [OF T]
  have nh: "\<not> huge_on T s v" and none: "translation T s v = None"
    using m I(3,4) by simp_all
  obtain T1 s1 a where w: "walk_or_create mp v True s = Inr (Inr a, s1)" "leaf_ptr T1 (hhdm_of s1) v = Some a"
    "grows mp T s T1 s1 3" "has_table mp s v \<longrightarrow> T1 = T \<and> s1 = s"
    using walk_or_create_ready [OF T nh fr] by blast
  note T1 = growsD(1) [OF w(3)]
  let ?e = "pte_new f (entry_flags_from_page_flags fl)"
  define s' where "s' = s1\<lparr>ram := write_entry a ?e (ram s1)\<rparr>"
  note S = write_leaf_state [OF T1 w(2) s'_def]
  obtain us where us: "takes_frames s us s1" "length us \<le> 3" "ran T1 = ran T \<union> set us"
    by (rule grows_takes [OF w(3)])
  have "us = []" if "has_table mp s v"
    using us(1) w(4) that by (simp add: takes_frames_def)
  moreover have "has_table mp s' w" if "T1 (path_of w) \<noteq> None" for w
    using that has_table_iff [OF write_leaf(1) [OF T1 w(2)], of "pte_new f (entry_flags_from_page_flags fl)" w]
    by (simp add: s'_def)
  then have "has_table mp s' v" "has_table mp s w \<Longrightarrow> has_table mp s' w" for w
    using w(2) has_table_iff [OF T] growsD(3) [OF w(3)] by (auto simp: leaf_ptr_def)
  moreover have "\<not> is_present (read_entry (ram s1) a)"
    using translation_None [OF _ w(2)] none growsD(4) [OF w(3)] by simp
  then have "mapper_map mp v (OwnedFrame f) fl s = Inr (Inr (TlbFlush v), s')"
    using v w(1)
    by (simp add: mapper_map_def virt_is_aligned_page vpage_ok_def virt_is_canonical_addr_def tlb_new_def
        owned_into_inner_def s'_def Let_def)
  moreover have "maps_huge mp s' w = maps_huge mp s w" for w
    unfolding S(3) I(3) using growsD(5) [OF w(3)] index_of_less by (simp add: huge_on_def)
  moreover have "mapped mp s' w = (if same_page v w then leaf_value ?e w else mapped mp s w)" for w
    unfolding S(4) I(4) growsD(4) [OF w(3)] ..
  moreover have "HHDM_OFFSET s' = HHDM_OFFSET s"
    using S(7) w(3) by (simp add: grows_def)
  ultimately show ?thesis
    using S(1,2) takes_frames_trans [OF us(1) S(5)] us(2,3) I(2) leaf_value_new [OF f]
    by (intro exI [of _ s'] exI [of _ us]) simp
qed

lemma map_exhausted:
  assumes ok: "mapper_ok mp s" and v: "vpage_ok v" and w: "walk mp v (ram s) = Inr None"
    and m: "\<not> maps_huge mp s v" and fr: "free_list (mm_frames s) = []"
  shows "mapper_map mp v f fl s = Inl (Panic ''out of physical memory'')"
proof -
  obtain T where T: "tables_ok mp T s"
    using ok by (auto simp: mapper_ok_def)
  have "leaf_ptr T (hhdm_of s) v = None" "\<not> huge_on T s v"
    using w m walk_eq [OF T] mapper_okI(3) [OF T] by simp_all
  then show ?thesis
    using v walk_or_create_stops(3) [OF T _ _ fr]
    by (simp add: mapper_map_def virt_is_aligned_page vpage_ok_def virt_is_canonical_addr_def)
qed

section \<open>Unmapping and changing flags\<close>

lemma unmap_down_eq:
  assumes ok: "tables_ok mp T s" and f: "T p = Some f" "length p < 3" and i: "i < ENTRY_COUNT" and b: "b \<or> p = []"
  shows "unmap_down b (map_hhdm mp) (ram s) (tab (hhdm_of s) f + 8 * i) =
    Inr (case T (p @ [i]) of Some g \<Rightarrow> Inr (tab (hhdm_of s) g)
         | None \<Rightarrow> Inl (if huge_at T s p i then HugePage else NotMapped))"
proof -
  note c = names_child_present [OF tables_ok_child [OF ok f i]]
  show ?thesis
  proof (cases "T (p @ [i])")
    case None
    then show ?thesis
      using c(2) b f(1) by (auto simp: unmap_down_def huge_at_def Let_def simp flip: entry_at_def)
  next
    case (Some g)
    then show ?thesis
      using c(1) [OF Some] table_at_page [OF tables_okD(5) [OF ok] owned_total [OF ok Some]] tables_okD(2) [OF ok]
      by (simp add: unmap_down_def flip: entry_at_def)
  qed
qed

lemma unmap_eq:
  assumes ok: "tables_ok mp T s" and v: "4096 dvd virt_nat v"
  shows "mapper_unmap mp v s =
    (case leaf_ptr T (hhdm_of s) v of
       None \<Rightarrow> Inr (Inl (if huge_on T s v then HugePage else NotMapped), s)
     | Some a \<Rightarrow>
         if is_present (read_entry (ram s) a)
         then Inr (Inr (OwnedFrame (PhysFrame (PhysAddr (pte_raw (read_entry (ram s) a) AND PHYS_MASK))), TlbFlush v),
                   s\<lparr>ram := write_entry a (PageTableEntry 0) (ram s)\<rparr>)
         else Inr (Inl NotMapped, s))"
proof -
  let ?a = "index_of Four v" and ?b = "index_of Three v" and ?c = "index_of Two v"
  obtain r where r: "T [] = Some r" "table_at_frame (pml4 mp) (map_hhdm mp) = Inr (tab (hhdm_of s) r)"
    using root_table [OF ok] by blast
  note ud = unmap_down_eq [OF ok] and rh = root_not_huge [OF ok index_of_less]
  note d = mapper_unmap_def virt_is_aligned_page v r(2) Let_def
  show ?thesis
  proof (cases "leaf_ptr T (hhdm_of s) v")
    case None
    with ok show ?thesis
    proof (cases rule: stop_cases)
      case (l4 r')
      then have "T [?a] = None"
        using r(1) names_child_present(1) [OF tables_ok_child [OF ok r(1) _ index_of_less]]
        by (cases "T [?a]") auto
      then show ?thesis
        using None l4(3) ud [OF r(1), of ?a False] rh index_of_less by (simp add: d)
    next
      case (l3 r' f)
      moreover have "huge_at T s [?a] ?b \<longleftrightarrow> huge_on T s v"
        using l3 by (simp add: huge_at_def)
      ultimately show ?thesis
        using None ud [OF r(1), of ?a False] ud [OF l3(2), of ?b True] index_of_less by (simp add: d)
    next
      case (l2 r' f g)
      moreover have "huge_at T s [?a, ?b] ?c \<longleftrightarrow> huge_on T s v"
        using l2 by (simp add: huge_at_def)
      ultimately show ?thesis
        using None ud [OF r(1), of ?a False] ud [OF l2(2), of ?b True] ud [OF l2(3), of ?c True] index_of_less
        by (simp add: d)
    qed
  next
    case (Some a)
    then obtain k where k: "T [?a, ?b, ?c] = Some k" "a = tab (hhdm_of s) k + 8 * index_of One v"
      by (auto simp: leaf_ptr_def path_of_def)
    note pf = paths_ok_prefix [OF tables_okD(3) [OF ok]]
    obtain g where g: "T [?a, ?b] = Some g"
      using k(1) pf(2) [of ?a ?b ?c] by (cases "T [?a, ?b]") auto
    obtain f where f: "T [?a] = Some f"
      using g pf(1) [of ?a ?b] by (cases "T [?a]") auto
    show ?thesis
      using Some k g f ud [OF r(1), of ?a False] ud [OF f, of ?b True] ud [OF g, of ?c True] index_of_less
        pte_frame_present(1) [of "read_entry (ram s) a"]
      by (simp add: d owned_new_def tlb_new_def pte_clear_def)
  qed
qed

lemma unmap_mapped:
  assumes ok: "mapper_ok mp s" and v: "4096 dvd virt_nat v" and m: "mapped mp s v = Some (pa, fl)"
  shows "\<exists>s'. mapper_unmap mp v s = Inr (Inr (OwnedFrame (PhysFrame pa), TlbFlush v), s') \<and> mapper_ok mp s' \<and>
    (\<forall>w. mapped mp s' w = (if same_page v w then None else mapped mp s w)) \<and>
    (\<forall>w. maps_huge mp s' w = maps_huge mp s w) \<and> takes_frames s [] s' \<and>
    table_frames mp s' = table_frames mp s \<and> HHDM_OFFSET s' = HHDM_OFFSET s"
proof -
  obtain T where T: "tables_ok mp T s"
    using ok by (auto simp: mapper_ok_def)
  note I = mapper_okI [OF T]
  obtain a where a: "leaf_ptr T (hhdm_of s) v = Some a" "is_present (read_entry (ram s) a)"
    "leaf_value (read_entry (ram s) a) v = Some (pa, fl)"
    using m I(4) by (auto elim: translation_Some)
  have "virt_as_usize v AND (PAGE_SIZE - 1) = 0"
    using v and_low_eq_0 [OF page_size_power_of_two, of "virt_as_usize v"] by simp
  then have pa: "pa = PhysAddr (pte_raw (read_entry (ram s) a) AND PHYS_MASK)"
    using a(2,3) by (simp add: leaf_value_def)
  define s' where "s' = s\<lparr>ram := write_entry a (PageTableEntry 0) (ram s)\<rparr>"
  note S = write_leaf_state [OF T a(1) s'_def]
  have "leaf_value (PageTableEntry 0) w = None" for w
    by (simp add: leaf_value_def is_present_bit)
  then show ?thesis
    using unmap_eq [OF T v] a(1,2) pa S I by (intro exI [of _ s']) (simp add: s'_def)
qed

lemma unmap_vacant:
  assumes ok: "mapper_ok mp s" and v: "4096 dvd virt_nat v" and m: "mapped mp s v = None"
  shows "mapper_unmap mp v s = Inr (Inl (if maps_huge mp s v then HugePage else NotMapped), s)"
proof -
  obtain T where T: "tables_ok mp T s"
    using ok by (auto simp: mapper_ok_def)
  note I = mapper_okI [OF T]
  show ?thesis
  proof (cases "leaf_ptr T (hhdm_of s) v")
    case None
    then show ?thesis
      using unmap_eq [OF T v] I(3) by simp
  next
    case (Some a)
    then have "\<not> huge_on T s v"
      using huge_leaf [OF T] by auto
    then show ?thesis
      using unmap_eq [OF T v] Some translation_None [OF _ Some] m I(3,4) by simp
  qed
qed

text \<open>The last-level entry of an address; in it, the bit that marks huge pages above is an attribute bit.\<close>

definition leaf_entry :: "page_table_mapper \<Rightarrow> mm_state \<Rightarrow> virt_addr \<Rightarrow> page_table_entry option" where
  "leaf_entry mp s v =
     (case walk mp v (ram s) of Inr (Some a) \<Rightarrow> Some (read_entry (ram s) a) | _ \<Rightarrow> None)"

lemma remap_cases:
  assumes ok: "mapper_ok mp s" and v: "4096 dvd virt_nat v"
  shows "mapped mp s v = None \<Longrightarrow> mapper_remap mp v fl s = Inr (Inl NotMapped, s)"
    and "mapped mp s v = Some (pa, old) \<Longrightarrow> leaf_entry mp s v = Some e \<Longrightarrow> is_huge e \<Longrightarrow>
      mapper_remap mp v fl s = Inr (Inl HugePage, s)"
    and "mapped mp s v = Some (pa, old) \<Longrightarrow> leaf_entry mp s v = Some e \<Longrightarrow> \<not> is_huge e \<Longrightarrow>
      \<exists>s'. mapper_remap mp v fl s = Inr (Inr (TlbFlush v), s') \<and> mapper_ok mp s' \<and>
        (\<forall>w. mapped mp s' w =
          (if same_page v w
           then Some (PhysAddr (phys_as_usize pa + (virt_as_usize w AND (PAGE_SIZE - 1))),
             PageFlags ((pf_bits fl AND mask 6) OR 1))
           else mapped mp s w))"
proof -
  obtain T where T: "tables_ok mp T s"
    using ok by (auto simp: mapper_ok_def)
  note I = mapper_okI [OF T] and d = mapper_remap_def virt_is_aligned_page v
  show "mapper_remap mp v fl s = Inr (Inl NotMapped, s)" if "mapped mp s v = None"
  proof (cases "leaf_ptr T (hhdm_of s) v")
    case None
    then show ?thesis
      using walk_or_create_stops(1,2) [OF T None] by (cases "huge_on T s v") (simp_all add: d)
  next
    case (Some a)
    then show ?thesis
      using walk_or_create_found [OF T Some] translation_None [OF _ Some] that I(4) by (simp add: d)
  qed
  show "mapper_remap mp v fl s = Inr (Inl HugePage, s)"
    if "mapped mp s v = Some (pa, old)" "leaf_entry mp s v = Some e" "is_huge e"
    using that I(4) walk_or_create_found [OF T] walk_eq [OF T]
    by (auto simp: d leaf_entry_def elim!: translation_Some)
  assume m: "mapped mp s v = Some (pa, old)" "leaf_entry mp s v = Some e" "\<not> is_huge e"
  obtain a where a: "leaf_ptr T (hhdm_of s) v = Some a" "is_present (read_entry (ram s) a)"
    "leaf_value (read_entry (ram s) a) v = Some (pa, old)"
    using m I(4) by (auto elim: translation_Some)
  have e: "e = read_entry (ram s) a"
    using m(2) a(1) walk_eq [OF T] by (simp add: leaf_entry_def)
  have "virt_as_usize v AND (PAGE_SIZE - 1) = 0"
    using v and_low_eq_0 [OF page_size_power_of_two, of "virt_as_usize v"] by simp
  then have pa: "pa = PhysAddr (pte_raw e AND PHYS_MASK)"
    using a(2,3) e by (simp add: leaf_value_def)
  note p = pte_frame_present [OF a(2), folded e]
  define s' where
    "s' = s\<lparr>ram := write_entry a (pte_new (PhysFrame pa) (entry_flags_from_page_flags fl)) (ram s)\<rparr>"
  note S = write_leaf_state [OF T a(1) s'_def]
  have "mapper_remap mp v fl s = Inr (Inr (TlbFlush v), s')"
    using walk_or_create_found [OF T a(1)] m(3) a(2) e p(1) pa by (simp add: d tlb_new_def s'_def)
  then show "\<exists>s'. mapper_remap mp v fl s = Inr (Inr (TlbFlush v), s') \<and> mapper_ok mp s' \<and>
        (\<forall>w. mapped mp s' w =
          (if same_page v w
           then Some (PhysAddr (phys_as_usize pa + (virt_as_usize w AND (PAGE_SIZE - 1))),
             PageFlags ((pf_bits fl AND mask 6) OR 1))
           else mapped mp s w))"
    using S(1,4) I(4) leaf_value_new [OF p(2), of fl] pa by (intro exI [of _ s']) simp
qed

section \<open>The contract of a mapper\<close>

text \<open>Two states agree on a set of pages: the same layout, the pages owned in both, with the same contents.\<close>

definition agree_on :: "nat set \<Rightarrow> mm_state \<Rightarrow> mm_state \<Rightarrow> bool" where
  "agree_on A s s' \<longleftrightarrow> same_config (mm_frames s) (mm_frames s') \<and> HHDM_OFFSET s' = HHDM_OFFSET s \<and>
     (\<forall>f \<in> A. owned_page s' f \<and> (\<forall>i < ENTRY_COUNT. entry_at s' f i = entry_at s f i))"

lemma agree_tables:
  assumes T: "tables_ok mp T s" and s': "mm_ok s'" and ag: "agree_on (ran T) s s'"
  shows "tables_ok mp T s'" and "translation T s' v = translation T s v" and "huge_on T s' v = huge_on T s v"
proof -
  have h: "hhdm_of s' = hhdm_of s"
    using ag by (simp add: agree_on_def same_config_def)
  have e: "owned_page s' f" "entry_at s' f i = entry_at s f i" if "T p = Some f" "i < ENTRY_COUNT" for p f i
    using ag that by (auto simp: agree_on_def ran_def)
  have o: "owned_page s' f" if "T p = Some f" for p f
    using e(1) [OF that, of 0] by (simp add: ENTRY_COUNT_def)
  show "tables_ok mp T s'"
    using T s' h o e(2) by (simp add: tables_ok_def)
  show "huge_on T s' v = huge_on T s v"
    using huge_on_ram [of T s' s] e(2) by blast
  show "translation T s' v = translation T s v"
  proof (cases "T (path_of v)")
    case None
    then show ?thesis
      by (simp add: translation_def leaf_ptr_def)
  next
    case (Some f)
    then show ?thesis
      using e(2) [OF Some index_of_less, of One v] by (simp add: translation_def leaf_ptr_def entry_at_def h)
  qed
qed

text \<open>
  What the \<open>Mapper\<close> trait promises. \<open>trans\<close> is what \<open>translate\<close> reports; \<open>blocked\<close> holds where a
  huge page covers an address; \<open>tables\<close> are the pages that hold the tables, which the mapper
  owns and which nobody else may write. \<open>unmap\<close> does not use the lock of the frame
  allocator.
\<close>

locale page_mapper =
  fixes ok :: "'m \<Rightarrow> mm_state \<Rightarrow> bool"
    and trans :: "'m \<Rightarrow> mm_state \<Rightarrow> virt_addr \<Rightarrow> (phys_addr \<times> page_flags) option"
    and blocked :: "'m \<Rightarrow> mm_state \<Rightarrow> virt_addr \<Rightarrow> bool"
    and ready :: "'m \<Rightarrow> mm_state \<Rightarrow> virt_addr \<Rightarrow> bool"
    and tables :: "'m \<Rightarrow> mm_state \<Rightarrow> nat set"
    and map_page :: "'m \<Rightarrow> virt_addr \<Rightarrow> owned_frame \<Rightarrow> page_flags \<Rightarrow> mm_state \<Rightarrow>
      (((owned_frame \<times> map_error) + tlb_flush) \<times> mm_state) res"
    and unmap_page :: "'m \<Rightarrow> virt_addr \<Rightarrow> mm_state \<Rightarrow>
      ((unmap_error + (owned_frame \<times> tlb_flush)) \<times> mm_state) res"
  assumes mapper_mm: "ok m s \<Longrightarrow> mm_ok s"
    and tables_owned: "ok m s \<Longrightarrow> k \<in> tables m s \<Longrightarrow> owned_page s k"
    and trans_page: "ok m s \<Longrightarrow> same_page v w \<Longrightarrow> trans m s w = None \<longleftrightarrow> trans m s v = None"
    and map_free: "ok m s \<Longrightarrow> vpage_ok v \<Longrightarrow> frame_ok PAGE_SIZE f \<Longrightarrow> trans m s v = None \<Longrightarrow> \<not> blocked m s v \<Longrightarrow>
      ready m s v \<or> 3 \<le> length (free_list (mm_frames s)) \<Longrightarrow>
      \<exists>s' us. map_page m v (OwnedFrame f) fl s = Inr (Inr (TlbFlush v), s') \<and> ok m s' \<and>
        (\<forall>w. trans m s' w =
          (if same_page v w
           then Some (PhysAddr (phys_as_usize (frame_base f) + (virt_as_usize w AND (PAGE_SIZE - 1))),
             PageFlags ((pf_bits fl AND mask 6) OR 1))
           else trans m s w)) \<and>
        (\<forall>w. blocked m s' w = blocked m s w) \<and> takes_frames s us s' \<and> length us \<le> 3 \<and>
        tables m s' = tables m s \<union> set us \<and> HHDM_OFFSET s' = HHDM_OFFSET s \<and>
        (ready m s v \<longrightarrow> us = []) \<and> ready m s' v \<and> (\<forall>w. ready m s w \<longrightarrow> ready m s' w)"
    and map_taken: "ok m s \<Longrightarrow> vpage_ok v \<Longrightarrow> trans m s v \<noteq> None \<or> blocked m s v \<Longrightarrow>
      map_page m v h fl s = Inr (Inl (h, AlreadyMapped), s)"
    and unmap_taken: "ok m s \<Longrightarrow> 4096 dvd virt_nat v \<Longrightarrow> trans m s v = Some (pa, fl) \<Longrightarrow>
      \<exists>s'. unmap_page m v s = Inr (Inr (OwnedFrame (PhysFrame pa), TlbFlush v), s') \<and> ok m s' \<and>
        (\<forall>w. trans m s' w = (if same_page v w then None else trans m s w)) \<and>
        (\<forall>w. blocked m s' w = blocked m s w) \<and> takes_frames s [] s' \<and>
        tables m s' = tables m s \<and> HHDM_OFFSET s' = HHDM_OFFSET s"
    and unmap_locked: "unmap_page m v s = Inr (x, s') \<Longrightarrow>
      unmap_page m v (s\<lparr>frame_lock := b\<rparr>) = Inr (x, s'\<lparr>frame_lock := b\<rparr>)"
    and other_memory: "ok m s \<Longrightarrow> mm_ok s' \<Longrightarrow> agree_on (tables m s) s s' \<Longrightarrow>
      ok m s' \<and> (\<forall>w. trans m s' w = trans m s w) \<and> (\<forall>w. blocked m s' w = blocked m s w) \<and>
      (\<forall>w. ready m s' w = ready m s w) \<and> tables m s' = tables m s"
begin

text \<open>Mapping a frame and unmapping the page gives the frame back and restores the translation.\<close>

lemma map_unmap:
  assumes "ok m s" and "vpage_ok v" and "frame_ok PAGE_SIZE f" and "trans m s v = None" and "\<not> blocked m s v"
    and "ready m s v \<or> 3 \<le> length (free_list (mm_frames s))"
  shows "\<exists>s' s''. map_page m v (OwnedFrame f) fl s = Inr (Inr (TlbFlush v), s') \<and>
    unmap_page m v s' = Inr (Inr (OwnedFrame f, TlbFlush v), s'') \<and> ok m s'' \<and> (\<forall>w. trans m s'' w = trans m s w)"
proof -
  obtain s' us where s': "map_page m v (OwnedFrame f) fl s = Inr (Inr (TlbFlush v), s')" "ok m s'"
    "\<And>w. trans m s' w =
          (if same_page v w
           then Some (PhysAddr (phys_as_usize (frame_base f) + (virt_as_usize w AND (PAGE_SIZE - 1))),
             PageFlags ((pf_bits fl AND mask 6) OR 1))
           else trans m s w)" "\<And>w. blocked m s' w = blocked m s w"
    using map_free [OF assms] by blast
  have v: "4096 dvd virt_nat v" "virt_as_usize v AND (PAGE_SIZE - 1) = 0"
    using assms(2) and_low_eq_0 [OF page_size_power_of_two, of "virt_as_usize v"] by (simp_all add: vpage_ok_def)
  then have "trans m s' v = Some (frame_base f, PageFlags ((pf_bits fl AND mask 6) OR 1))"
    using s'(3) by simp
  from unmap_taken [OF s'(2) v(1) this] obtain s'' where s'':
    "unmap_page m v s' = Inr (Inr (OwnedFrame f, TlbFlush v), s'')" "ok m s''"
    "\<And>w. trans m s'' w = (if same_page v w then None else trans m s' w)"
    by auto
  have "trans m s w = None" if "same_page v w" for w
    using trans_page [OF assms(1) that] assms(4) by simp
  then show ?thesis
    using s' s'' by auto
qed

end

lemma mapped_same_page:
  assumes "mapper_ok mp s" and "same_page v w"
  shows "mapped mp s w = None \<longleftrightarrow> mapped mp s v = None"
proof -
  obtain T where T: "tables_ok mp T s"
    using assms(1) by (auto simp: mapper_ok_def)
  have "leaf_ptr T (hhdm_of s) w = leaf_ptr T (hhdm_of s) v"
    using assms(2) by (simp add: leaf_ptr_def same_page_path)
  then show ?thesis
    using mapper_okI(4) [OF T] by (auto simp: translation_def leaf_value_def split: option.splits)
qed

lemma mapper_unmap_locked:
  "mapper_unmap mp v (s\<lparr>frame_lock := b\<rparr>) = rbind (mapper_unmap mp v s) (\<lambda>(x, s'). Inr (x, s'\<lparr>frame_lock := b\<rparr>))"
  by (simp add: mapper_unmap_def unmap_try_def rbind_def Let_def split: sum.split option.split)

interpretation ptm: page_mapper mapper_ok mapped maps_huge has_table table_frames mapper_map mapper_unmap
proof
  fix m s f
  assume ok: "mapper_ok m s"
  show "mm_ok s"
    using ok tables_okD(1) by (auto simp: mapper_ok_def)
  show "f \<in> table_frames m s \<Longrightarrow> owned_page s f"
    using tables_ok_owned by (auto simp: table_frames_def)
next
  fix m s s'
  assume ok: "mapper_ok m s" and s': "mm_ok s'" and ag: "agree_on (table_frames m s) s s'"
  obtain T where T: "tables_ok m T s"
    using ok by (auto simp: mapper_ok_def)
  note I = mapper_okI [OF T] and A = agree_tables [OF T s' ag [unfolded mapper_okI(2) [OF T]]]
  note I' = mapper_okI [OF A(1)]
  show "mapper_ok m s' \<and> (\<forall>w. mapped m s' w = mapped m s w) \<and> (\<forall>w. maps_huge m s' w = maps_huge m s w) \<and>
      (\<forall>w. has_table m s' w = has_table m s w) \<and> table_frames m s' = table_frames m s"
    using I I' A(2,3) has_table_iff [OF T] has_table_iff [OF A(1)] by simp
qed (use mapped_same_page map_vacant map_occupied unmap_mapped mapper_unmap_locked in \<open>simp_all\<close>)

section \<open>A fresh mapper\<close>

lemma empty_tables_ok:
  assumes mm: "mm_ok s" and k: "owned_page s k" and mp: "map_hhdm mp = hhdm_of s" "pml4 mp = page k"
    and z: "\<And>i. i < ENTRY_COUNT \<Longrightarrow> entry_at s k i = PageTableEntry 0"
  shows "mapper_ok mp s" and "mapped mp s v = None" and "\<not> maps_huge mp s v" and "table_frames mp s = {k}"
proof -
  let ?T = "[[] \<mapsto> k] :: table_map"
  have "paths_ok ?T"
    by (auto simp: paths_ok_def)
  then have T: "tables_ok mp ?T s"
    using mm k mp z by (simp add: tables_ok_def names_child_def is_present_bit)
  show "mapper_ok mp s" "mapped mp s v = None" "\<not> maps_huge mp s v" "table_frames mp s = {k}"
    by (simp_all add: mapper_okI [OF T] translation_def leaf_ptr_def path_of_def huge_on_def huge_at_def)
qed

lemma zero_page_eq: "zero_page p m = table_zero p m"
proof -
  have "unat (PAGE_SIZE div 8) = unat ENTRY_COUNT"
    by (simp add: unat_div ENTRY_COUNT_def)
  then show ?thesis
    by (simp add: zero_page_def table_zero_def write_entry_def pte_clear_def)
qed

lemma zero_page_ok:
  assumes mm: "mm_ok s" and k: "owned_page s k"
  defines "s' \<equiv> s\<lparr>ram := table_zero (tab (hhdm_of s) k) (ram s)\<rparr>"
  shows "mm_ok s'" and "i < ENTRY_COUNT \<Longrightarrow> entry_at s' k i = PageTableEntry 0"
    and "free_list (mm_frames s') = free_list (mm_frames s)"
proof -
  note F = mm_ok_frames [OF mm]
  have inv: "bitmap_inv (fst (mm_frames s), ram s)" and lay: "layout_ok (fst (mm_frames s))"
    using F(4) by (simp_all add: mm_frames_def bitmap_inv_def)
  have kt: "k < unat (total (fst (mm_frames s)))"
    by (rule bitmap_bit_total [OF F(4) k])
  have "table_zero (tab (hhdm_of s) k) (ram s) (tab (hhdm_of s) g) = ram s (tab (hhdm_of s) g)"
    if "g < unat (total (fst (mm_frames s)))" "\<not> owned_page s g" for g
  proof -
    have "tab (hhdm_of s) g + 8 * 0 \<noteq> tab (hhdm_of s) k + 8 * i" if "i < ENTRY_COUNT" for i
      using cell_inject [OF lay \<open>g < _\<close> _ kt that, of 0] \<open>\<not> owned_page s g\<close> k by (auto simp: ENTRY_COUNT_def)
    then show ?thesis
      by (auto simp: table_zero_eq)
  qed
  note bc = bitmap_inv_cong [OF inv, of "table_zero (tab (hhdm_of s) k) (ram s)", OF this]
  show "mm_ok s'"
    using F bc(1) by (simp add: mm_ok_def s'_def)
  show "free_list (mm_frames s') = free_list (mm_frames s)"
    using bc(2) by (simp add: s'_def mm_frames_def)
  show "i < ENTRY_COUNT \<Longrightarrow> entry_at s' k i = PageTableEntry 0"
    by (auto simp: entry_at_def read_entry_def s'_def table_zero_eq)
qed

lemma create_mapper_ok:
  assumes mm: "mm_ok s" and h: "HHDM_OFFSET s = hhdm_of s" and k: "owned_page s k"
  shows "\<exists>mp s'. create_mapper (OwnedFrame (page k)) s = Inr (mp, s') \<and> mapper_ok mp s' \<and> pml4 mp = page k \<and>
    (\<forall>v. mapped mp s' v = None) \<and> (\<forall>v. \<not> maps_huge mp s' v) \<and> table_frames mp s' = {k} \<and>
    free_list (mm_frames s') = free_list (mm_frames s) \<and> fst (mm_frames s') = fst (mm_frames s) \<and>
    HHDM_OFFSET s' = HHDM_OFFSET s"
proof -
  let ?s = "s\<lparr>ram := table_zero (tab (hhdm_of s) k) (ram s)\<rparr>" and ?mp = "mapper_new (page k) (hhdm_of s)"
  note F = mm_ok_frames(4) [OF mm]
  have lay: "layout_ok (fst (mm_frames s))"
    using F by (simp add: bitmap_inv_def)
  have "uadd (phys_as_usize (frame_base (page k))) (hhdm_of s) = Inr (tab (hhdm_of s) k)"
    using table_at_page [OF lay bitmap_bit_total [OF F k]] by (simp add: table_at_frame_def mapper_phys_to_virt_def)
  then have "create_mapper (OwnedFrame (page k)) s = Inr (?mp, ?s)"
    by (simp add: create_mapper_def owned_base_def owned_into_inner_def Let_def h zero_page_eq)
  moreover note Z = zero_page_ok [OF mm k]
  have "owned_page ?s k" "map_hhdm ?mp = hhdm_of ?s" "pml4 ?mp = page k"
    using k by (simp_all add: mapper_new_def)
  note E = empty_tables_ok [OF Z(1) this Z(2)]
  ultimately show ?thesis
    using E Z(3) by (intro exI [of _ ?mp] exI [of _ ?s]) (simp add: mapper_new_def)
qed

text \<open>A small machine: page 1 holds an empty root table, page 5 is owned, pages 2, 3 and 4 are free.\<close>

definition small_mm :: mm_state where
  "small_mm = \<lparr>FRAME_ALLOCATOR = Some \<lparr>bitmap = [34], free_list_head = 8192, hhdm_offset = 65536, total = 8, free = 3\<rparr>,
     frame_lock = False, HHDM_OFFSET = 65536,
     ram = (\<lambda>_. 0)(65536 + 8192 := 12288, 65536 + 12288 := 16384, 65536 + 16384 := FREE_LIST_EMPTY)\<rparr>"

definition small_mapper :: page_table_mapper where
  "small_mapper = mapper_new (page 1) 65536"

lemma small_bits: "bitmap_bit [34] i \<longleftrightarrow> i = 1 \<or> i = 5"
proof -
  have e: "(34 :: u8) = push_bit 1 1 OR push_bit 5 1"
    by simp
  have "bit (34 :: u8) i \<longleftrightarrow> i = 1 \<or> i = 5"
    unfolding e bit_or_iff bit_push_one by simp
  then show ?thesis
    by (auto simp: bitmap_bit_small)
qed

lemma small_mm_ok:
  "mm_ok small_mm" "free_list (mm_frames small_mm) = [2, 3, 4]" "owned_page small_mm i \<longleftrightarrow> i = 1 \<or> i = 5"
  "hhdm_of small_mm = 65536" "HHDM_OFFSET small_mm = 65536"
proof -
  show fl: "free_list (mm_frames small_mm) = [2, 3, 4]"
  proof -
    have f: "unat (free (fst (mm_frames small_mm))) = Suc (Suc (Suc 0))"
      by (simp add: small_mm_def mm_frames_def)
    show ?thesis
      unfolding free_list_def f by (simp add: small_mm_def mm_frames_def)
  qed
  show "owned_page small_mm i \<longleftrightarrow> i = 1 \<or> i = 5"
    using small_bits by (simp add: small_mm_def mm_frames_def)
  show "hhdm_of small_mm = 65536" "HHDM_OFFSET small_mm = 65536"
    by (simp_all add: small_mm_def mm_frames_def)
  have "layout_ok (fst (mm_frames small_mm))"
    by (simp add: layout_ok_def small_mm_def mm_frames_def phys_limit_def)
  moreover have "bits_ok (fst (mm_frames small_mm))"
    using small_bits by (simp add: bits_ok_def small_mm_def mm_frames_def)
  moreover have "list_ok (mm_frames small_mm) [2, 3, 4]"
    using small_bits by (simp add: list_ok_def small_mm_def mm_frames_def)
  ultimately have "bitmap_inv (mm_frames small_mm)"
    using fl by (simp add: bitmap_inv_def)
  then show "mm_ok small_mm"
    by (simp add: mm_ok_def small_mm_def mm_frames_def)
qed

lemma small_mapper_ok:
  "mapper_ok small_mapper small_mm" "mapped small_mapper small_mm v = None" "\<not> maps_huge small_mapper small_mm v"
  "table_frames small_mapper small_mm = {1}"
proof -
  have lay: "layout_ok (fst (mm_frames small_mm))"
    using mm_ok_frames(4) [OF small_mm_ok(1)] by (simp add: bitmap_inv_def)
  have z: "entry_at small_mm 1 i = PageTableEntry 0" if i: "i < ENTRY_COUNT" for i
  proof -
    have t: "total (fst (mm_frames small_mm)) = 8"
      by (simp add: small_mm_def mm_frames_def)
    have "tab 65536 1 + 8 * i \<noteq> tab 65536 g + 8 * 0" if "g \<in> {2, 3, 4}" for g
      using cell_inject [OF lay, of 1 i g 0] i that t small_mm_ok(4) by (auto simp: ENTRY_COUNT_def)
    from this [of 2] this [of 3] this [of 4] show ?thesis
      unfolding entry_at_def small_mm_ok(4) read_entry_def by (simp add: small_mm_def tab_def)
  qed
  have "owned_page small_mm 1" "map_hhdm small_mapper = hhdm_of small_mm" "pml4 small_mapper = page 1"
    using small_mm_ok by (simp_all add: small_mapper_def mapper_new_def)
  from empty_tables_ok [OF small_mm_ok(1) this z]
  show "mapper_ok small_mapper small_mm" "mapped small_mapper small_mm v = None"
    "\<not> maps_huge small_mapper small_mm v" "table_frames small_mapper small_mm = {1}" by simp_all
qed

lemma small_page: "vpage_ok (VirtAddr 8192)" "frame_ok PAGE_SIZE (page 5)"
  by (simp_all add: vpage_ok_def is_canonical_def phys_limit_def)

definition full_mm :: mm_state where
  "full_mm = \<lparr>FRAME_ALLOCATOR = Some \<lparr>bitmap = [34], free_list_head = FREE_LIST_EMPTY, hhdm_offset = 65536, total = 8, free = 0\<rparr>,
     frame_lock = False, HHDM_OFFSET = 65536, ram = (\<lambda>_. 0)\<rparr>"

section \<open>Properties\<close>

text \<open>
  C24. \<open>map\<close> on a well-formed hierarchy. An address that is not page-aligned or not canonical is
  refused with \<open>UnalignedAddress\<close>; a page that is mapped, or covered by a huge page, is refused
  with \<open>AlreadyMapped\<close>; in both cases the frame comes back and nothing changes. Otherwise,
  with three free frames for new tables, the page is mapped: afterwards \<open>translate\<close> gives the
  frame, with the offset in the page and the flags, for exactly the addresses of that page and
  its former answer for every other address.
\<close>

theorem mapper_map_correct:
  assumes "mapper_ok mp s" and "frame_ok PAGE_SIZE f" and "3 \<le> length (free_list (mm_frames s))"
  shows "if \<not> vpage_ok v then mapper_map mp v (OwnedFrame f) fl s = Inr (Inl (OwnedFrame f, MapUnaligned), s)
    else if mapped mp s v \<noteq> None \<or> maps_huge mp s v
    then mapper_map mp v (OwnedFrame f) fl s = Inr (Inl (OwnedFrame f, AlreadyMapped), s)
    else \<exists>s'. mapper_map mp v (OwnedFrame f) fl s = Inr (Inr (TlbFlush v), s') \<and> mapper_ok mp s' \<and>
      (\<forall>w. mapper_translate mp w (ram s') =
        (if same_page v w
         then Inr (Some (PhysAddr (phys_as_usize (frame_base f) + (virt_as_usize w AND (PAGE_SIZE - 1))),
           PageFlags ((pf_bits fl AND mask 6) OR 1)))
         else mapper_translate mp w (ram s)))"
proof (cases "vpage_ok v")
  case False
  then show ?thesis
    by (auto simp: mapper_map_def virt_is_aligned_page vpage_ok_def virt_is_canonical_addr_def)
next
  case v: True
  have tr: "mapper_translate mp w (ram t) = Inr (mapped mp t w)" if "mapper_ok mp t" for t w
    using that mapper_okI(5) by (auto simp: mapper_ok_def)
  show ?thesis
  proof (cases "mapped mp s v \<noteq> None \<or> maps_huge mp s v")
    case True
    then show ?thesis
      using map_occupied [OF assms(1) v True] v by simp
  next
    case False
    then obtain s' where s': "mapper_map mp v (OwnedFrame f) fl s = Inr (Inr (TlbFlush v), s')" "mapper_ok mp s'"
      "\<forall>w. mapped mp s' w =
        (if same_page v w
         then Some (PhysAddr (phys_as_usize (frame_base f) + (virt_as_usize w AND (PAGE_SIZE - 1))),
           PageFlags ((pf_bits fl AND mask 6) OR 1))
         else mapped mp s w)"
      using map_vacant [OF assms(1) v assms(2)] assms(3) by blast
    then show ?thesis
      using v False tr [OF assms(1)] tr [OF s'(2)] by (simp del: split_paired_Ex) 
  qed
qed

theorem mapper_map_correct_witness:
  "\<exists>s'. mapper_map small_mapper (VirtAddr 8192) (OwnedFrame (page 5)) user_data small_mm =
      Inr (Inr (TlbFlush (VirtAddr 8192)), s') \<and> mapper_ok small_mapper s' \<and>
    mapper_translate small_mapper (VirtAddr 8200) (ram s') = Inr (Some (PhysAddr 20488, user_data))"
proof -
  have "same_page (VirtAddr 8192) (VirtAddr 8200)" "(8200 :: usize) AND (PAGE_SIZE - 1) = 8"
    "PageFlags ((pf_bits user_data AND mask 6) OR 1) = user_data" "phys_as_usize (frame_base (page 5)) = 20480"
    by (simp_all add: same_page_def drop_bit_eq_div PAGE_SIZE_def user_data_def PF_READ_def PF_WRITE_def PF_USER_def
        mask_eq_exp_minus_1 frame_at_def)
  then show ?thesis
    using mapper_map_correct [OF small_mapper_ok(1) small_page(2), of "VirtAddr 8192" user_data]
      small_mapper_ok small_mm_ok(2) small_page(1) by fastforce
qed

text \<open>
  C25. \<open>unmap\<close> of a mapped page returns the frame that was mapped there and removes exactly the
  translations of that page. A page that is not mapped gives \<open>NotMapped\<close>, one covered by a huge
  page \<open>HugePage\<close>, an unaligned address \<open>UnalignedAddress\<close>, all without any change.
\<close>

theorem mapper_unmap_correct:
  assumes "mapper_ok mp s"
  shows "if \<not> 4096 dvd virt_nat v then mapper_unmap mp v s = Inr (Inl UnmapUnaligned, s)
    else case mapped mp s v of
        None \<Rightarrow> mapper_unmap mp v s = Inr (Inl (if maps_huge mp s v then HugePage else NotMapped), s)
      | Some (pa, fl) \<Rightarrow>
          \<exists>s'. mapper_unmap mp v s = Inr (Inr (OwnedFrame (PhysFrame pa), TlbFlush v), s') \<and> mapper_ok mp s' \<and>
            (\<forall>w. mapped mp s' w = (if same_page v w then None else mapped mp s w))"
proof (cases "4096 dvd virt_nat v")
  case False
  then show ?thesis
    by (simp add: mapper_unmap_def virt_is_aligned_page)
next
  case v: True
  show ?thesis
  proof (cases "mapped mp s v")
    case None
    then show ?thesis
      using v unmap_vacant [OF assms v None] by simp
  next
    case (Some x)
    then show ?thesis
      using v unmap_mapped [OF assms v, of "fst x" "snd x"] by (cases x) auto
  qed
qed

theorem mapper_unmap_correct_witness:
  "mapper_unmap small_mapper (VirtAddr 8192) small_mm = Inr (Inl NotMapped, small_mm)"
  using mapper_unmap_correct [OF small_mapper_ok(1), of "VirtAddr 8192"] small_mapper_ok by simp

text \<open>
  C26. Mapping a frame at a vacant page and unmapping that page hands the same frame back, and
  every address translates as before.
\<close>

theorem mapper_map_unmap_roundtrip:
  assumes "mapper_ok mp s" and "vpage_ok v" and "frame_ok PAGE_SIZE f" and "mapped mp s v = None"
    and "\<not> maps_huge mp s v" and "3 \<le> length (free_list (mm_frames s))"
  shows "\<exists>s' s''. mapper_map mp v (OwnedFrame f) fl s = Inr (Inr (TlbFlush v), s') \<and>
    mapper_unmap mp v s' = Inr (Inr (OwnedFrame f, TlbFlush v), s'') \<and> mapper_ok mp s'' \<and>
    (\<forall>w. mapped mp s'' w = mapped mp s w)"
  by (rule ptm.map_unmap [OF assms(1-5) disjI2 [OF assms(6)]])

theorem mapper_map_unmap_roundtrip_witness:
  "\<exists>s' s''. mapper_map small_mapper (VirtAddr 8192) (OwnedFrame (page 5)) kernel_data small_mm =
      Inr (Inr (TlbFlush (VirtAddr 8192)), s') \<and>
    mapper_unmap small_mapper (VirtAddr 8192) s' = Inr (Inr (OwnedFrame (page 5), TlbFlush (VirtAddr 8192)), s'') \<and>
    (\<forall>w. mapped small_mapper s'' w = None)"
  using mapper_map_unmap_roundtrip [OF small_mapper_ok(1) small_page, of kernel_data] small_mapper_ok small_mm_ok(2)
  by fastforce

text \<open>
  C27. \<open>remap\<close> changes the flags of a mapped page and leaves its frame and all other pages as
  they are. It reports \<open>NotMapped\<close> where nothing is mapped, and also where a huge page covers
  the address; it reports \<open>HugePage\<close> where the last-level entry has its attribute bit 7 set.
\<close>

theorem mapper_remap_correct:
  assumes "mapper_ok mp s" and "4096 dvd virt_nat v"
  shows "case (mapped mp s v, leaf_entry mp s v) of
      (Some (pa, old), Some e) \<Rightarrow>
        if is_huge e then mapper_remap mp v fl s = Inr (Inl HugePage, s)
        else \<exists>s'. mapper_remap mp v fl s = Inr (Inr (TlbFlush v), s') \<and> mapper_ok mp s' \<and>
          (\<forall>w. mapped mp s' w =
            (if same_page v w
             then Some (PhysAddr (phys_as_usize pa + (virt_as_usize w AND (PAGE_SIZE - 1))),
               PageFlags ((pf_bits fl AND mask 6) OR 1))
             else mapped mp s w))
    | _ \<Rightarrow> mapper_remap mp v fl s = Inr (Inl NotMapped, s)"
proof (cases "mapped mp s v")
  case None
  then show ?thesis
    using remap_cases(1) [OF assms None] by simp
next
  case (Some x)
  obtain T where T: "tables_ok mp T s"
    using assms(1) by (auto simp: mapper_ok_def)
  obtain e where e: "leaf_entry mp s v = Some e"
    using Some mapper_okI(4) [OF T] walk_eq [OF T] by (auto simp: leaf_entry_def elim: translation_Some)
  have "mapped mp s v = Some (fst x, snd x)"
    using Some by simp
  then show ?thesis
    using Some e remap_cases(2,3) [OF assms _ e, of "fst x" "snd x" fl] by (cases x) auto
qed

theorem mapper_remap_correct_witness:
  "mapper_remap small_mapper (VirtAddr 8192) user_code small_mm = Inr (Inl NotMapped, small_mm)"
  using mapper_remap_correct [OF small_mapper_ok(1), of "VirtAddr 8192" user_code] small_mapper_ok(2) by simp

text \<open>
  C28. When no frame is left for an intermediate table, \<open>map\<close> panics; the error
  \<open>FrameAllocationFailed\<close> that the trait announces for this case is never returned by it.
\<close>

theorem mapper_map_exhausted:
  assumes "mapper_ok mp s" and "vpage_ok v" and "walk mp v (ram s) = Inr None" and "\<not> maps_huge mp s v"
    and "free_list (mm_frames s) = []"
  shows "mapper_map mp v f fl s = Inl (Panic ''out of physical memory'')"
  by (rule map_exhausted [OF assms])

theorem mapper_map_exhausted_witness:
  "mapper_map small_mapper (VirtAddr 8192) (OwnedFrame (page 5)) user_data full_mm =
     Inl (Panic ''out of physical memory'')"
proof -
  have fl: "free_list (mm_frames full_mm) = []"
    by (simp add: free_list_def full_mm_def mm_frames_def)
  have "layout_ok (fst (mm_frames full_mm))" "bits_ok (fst (mm_frames full_mm))" "list_ok (mm_frames full_mm) []"
    using small_bits by (simp_all add: layout_ok_def bits_ok_def list_ok_def full_mm_def mm_frames_def phys_limit_def)
  then have "bitmap_inv (mm_frames full_mm)"
    using fl by (simp add: bitmap_inv_def)
  then have mm: "mm_ok full_mm"
    by (simp add: mm_ok_def full_mm_def mm_frames_def)
  have "owned_page full_mm 1" "map_hhdm small_mapper = hhdm_of full_mm" "pml4 small_mapper = page 1"
    "\<And>i. entry_at full_mm 1 i = PageTableEntry 0"
    using small_bits
    by (simp_all add: full_mm_def mm_frames_def small_mapper_def mapper_new_def entry_at_def read_entry_def)
  note E = empty_tables_ok [OF mm this]
  obtain T where T: "tables_ok small_mapper T full_mm"
    using E(1) by (auto simp: mapper_ok_def)
  have "T [] = Some r \<Longrightarrow> entry_at full_mm r i = PageTableEntry 0" for r i
    by (simp add: entry_at_def read_entry_def full_mm_def)
  then have "T [index_of Four (VirtAddr 8192)] = None"
    using root_table [OF T] names_child_present(1) [OF tables_ok_child [OF T _ _ index_of_less]]
    by (cases "T [index_of Four (VirtAddr 8192)]") (fastforce simp: is_present_bit)+
  then have "leaf_ptr T (hhdm_of full_mm) (VirtAddr 8192) = None"
    using paths_ok_prefix [OF tables_okD(3) [OF T]] by (simp add: leaf_ptr_def path_of_def)
  then have "walk small_mapper (VirtAddr 8192) (ram full_mm) = Inr None"
    using walk_eq [OF T] by simp
  then show ?thesis
    using mapper_map_exhausted [OF E(1) small_page(1) _ E(3) fl] by simp
qed

text \<open>
  C29. \<open>create_mapper\<close> turns an owned frame into the root of an empty, well-formed hierarchy in
  which no address translates.
\<close>

theorem create_mapper_correct:
  assumes "mm_ok s" and "HHDM_OFFSET s = hhdm_of s" and "owned_page s k"
  shows "\<exists>mp s'. create_mapper (OwnedFrame (page k)) s = Inr (mp, s') \<and> mapper_ok mp s' \<and> pml4 mp = page k \<and>
    (\<forall>v. mapper_translate mp v (ram s') = Inr None)"
proof -
  obtain mp s' where "create_mapper (OwnedFrame (page k)) s = Inr (mp, s')" "mapper_ok mp s'" "pml4 mp = page k"
    "\<forall>v. mapped mp s' v = None"
    using create_mapper_ok [OF assms] by blast
  moreover from this have "mapper_translate mp v (ram s') = Inr None" for v
    using mapper_okI(5) by (auto simp: mapper_ok_def)
  ultimately show ?thesis
    by blast
qed

theorem create_mapper_correct_witness:
  "\<exists>mp s'. create_mapper (OwnedFrame (page 5)) small_mm = Inr (mp, s') \<and> mapper_ok mp s' \<and> pml4 mp = page 5"
  using create_mapper_correct [OF small_mm_ok(1), of 5] small_mm_ok by auto

end
