(* ===== verification/Address_Space.thy ===== *)
theory Address_Space
  imports Region Page_Map
begin

text \<open>
  Virtual address spaces (\<open>eira/src/mm/address_space.rs\<close>): a mapper together with the two
  pools of virtual addresses.

  The methods run on the record \<open>as_state\<close>: the address space, the memory manager and the
  log of TLB invalidations. The struct is generic in the \<open>Mapper\<close>, so its definitions take
  the mapper's \<open>map\<close> and \<open>unmap\<close> as arguments and their lemmas are proved under the contract
  \<open>page_mapper\<close>. A \<open>for\<close> loop over \<open>0..n\<close> is recursion over the list of its indices.
\<close>

section \<open>Data\<close>

record map_request =
  mr_virt :: virt_addr
  mr_frame :: owned_frame
  mr_flags :: page_flags

datatype address_space_error =
    RegionErr region_error
  | MapErr map_error
  | UnmapErr unmap_error
  | OutOfPhysicalMemory

datatype alloc_kind = Heap | KernelVm

record 'm address_space =
  root :: "owned_frame option"
  mapper :: 'm
  heap_va :: region_allocator
  kernel_vm_va :: region_allocator

record 'm as_state =
  space :: "'m address_space"
  mms :: mm_state
  tlb_log :: "virt_addr list"

type_synonym 'm map_op =
  "'m \<Rightarrow> virt_addr \<Rightarrow> owned_frame \<Rightarrow> page_flags \<Rightarrow> mm_state \<Rightarrow>
   (((owned_frame \<times> map_error) + tlb_flush) \<times> mm_state) res"

type_synonym 'm unmap_op =
  "'m \<Rightarrow> virt_addr \<Rightarrow> mm_state \<Rightarrow> ((unmap_error + (owned_frame \<times> tlb_flush)) \<times> mm_state) res"

section \<open>Construction\<close>

definition space_from_mapper :: "'m \<Rightarrow> 'm address_space res" where
  "space_from_mapper m =
     rbind heap_region_allocator (\<lambda>heap.
     rbind kernel_vm_region_allocator (\<lambda>kvm.
       Inr \<lparr>root = None, mapper = m, heap_va = heap, kernel_vm_va = kvm\<rparr>))"

definition new_kernel :: "mm_state \<Rightarrow> (page_table_mapper address_space \<times> mm_state) res" where
  "new_kernel s =
     rbind (mm_allocate s) (\<lambda>(frame, s).
     rbind (create_mapper frame s) (\<lambda>(mp, s).
     rbind (space_from_mapper mp) (\<lambda>sp. Inr (sp, s))))"

definition from_active :: "phys_addr \<Rightarrow> mm_state \<Rightarrow> page_table_mapper address_space res" where
  "from_active root_phys s = rbind (mapper_from_active root_phys s) space_from_mapper"

section \<open>Single pages\<close>

definition as_map ::
    "'m map_op \<Rightarrow> map_request \<Rightarrow> 'm as_state \<Rightarrow>
     (((owned_frame \<times> address_space_error) + tlb_flush) \<times> 'm as_state) res" where
  "as_map map_page req st =
     rbind (map_page (mapper (space st)) (mr_virt req) (mr_frame req) (mr_flags req) (mms st)) (\<lambda>(r, s).
       Inr (case r of Inl (frame, e) \<Rightarrow> Inl (frame, MapErr e) | Inr flush \<Rightarrow> Inr flush, st\<lparr>mms := s\<rparr>))"

definition as_unmap ::
    "'m unmap_op \<Rightarrow> virt_addr \<Rightarrow> 'm as_state \<Rightarrow>
     ((address_space_error + (owned_frame \<times> tlb_flush)) \<times> 'm as_state) res" where
  "as_unmap unmap_page virt st =
     rbind (unmap_page (mapper (space st)) virt (mms st)) (\<lambda>(r, s).
       Inr (case r of Inl e \<Rightarrow> Inl (UnmapErr e) | Inr x \<Rightarrow> Inr x, st\<lparr>mms := s\<rparr>))"

definition as_remap ::
    "('m \<Rightarrow> virt_addr \<Rightarrow> page_flags \<Rightarrow> mm_state \<Rightarrow> ((unmap_error + tlb_flush) \<times> mm_state) res) \<Rightarrow>
     virt_addr \<Rightarrow> page_flags \<Rightarrow> 'm as_state \<Rightarrow> ((address_space_error + tlb_flush) \<times> 'm as_state) res" where
  "as_remap remap_page virt new_flags st =
     rbind (remap_page (mapper (space st)) virt new_flags (mms st)) (\<lambda>(r, s).
       Inr (case r of Inl e \<Rightarrow> Inl (UnmapErr e) | Inr flush \<Rightarrow> Inr flush, st\<lparr>mms := s\<rparr>))"

definition as_translate ::
    "('m \<Rightarrow> virt_addr \<Rightarrow> mem \<Rightarrow> (phys_addr \<times> page_flags) option res) \<Rightarrow>
     virt_addr \<Rightarrow> 'm as_state \<Rightarrow> (phys_addr \<times> page_flags) option res" where
  "as_translate translate virt st = translate (mapper (space st)) virt (ram (mms st))"

section \<open>The pools\<close>

definition region_allocator_for :: "alloc_kind \<Rightarrow> 'm address_space \<Rightarrow> region_allocator" where
  "region_allocator_for kind sp = (case kind of Heap \<Rightarrow> heap_va sp | KernelVm \<Rightarrow> kernel_vm_va sp)"

text \<open>The write through the mutable reference that \<open>region_allocator_for\<close> returns.\<close>

definition set_allocator_for :: "alloc_kind \<Rightarrow> region_allocator \<Rightarrow> 'm address_space \<Rightarrow> 'm address_space" where
  "set_allocator_for kind a sp =
     (case kind of Heap \<Rightarrow> sp\<lparr>heap_va := a\<rparr> | KernelVm \<Rightarrow> sp\<lparr>kernel_vm_va := a\<rparr>)"

definition alloc_virt ::
    "usize \<Rightarrow> usize \<Rightarrow> alloc_kind \<Rightarrow> 'm as_state \<Rightarrow> ((address_space_error + region) \<times> 'm as_state) res" where
  "alloc_virt sz align kind st =
     rbind (region_alloc sz align (region_allocator_for kind (space st))) (\<lambda>(r, a).
       Inr (case r of Inl e \<Rightarrow> Inl (RegionErr e) | Inr region \<Rightarrow> Inr region,
            st\<lparr>space := set_allocator_for kind a (space st)\<rparr>))"

definition free_virt ::
    "region \<Rightarrow> alloc_kind \<Rightarrow> 'm as_state \<Rightarrow> ((address_space_error + unit) \<times> 'm as_state) res" where
  "free_virt region kind st =
     rbind (region_free region (region_allocator_for kind (space st))) (\<lambda>(r, a).
       Inr (case r of Inl e \<Rightarrow> Inl (RegionErr e) | Inr _ \<Rightarrow> Inr (),
            st\<lparr>space := set_allocator_for kind a (space st)\<rparr>))"

text \<open>\<open>free_virt(..).expect(..)\<close>.\<close>

definition free_virt_expect :: "string \<Rightarrow> region \<Rightarrow> alloc_kind \<Rightarrow> 'm as_state \<Rightarrow> 'm as_state res" where
  "free_virt_expect msg region kind st =
     rbind (free_virt region kind st) (\<lambda>(r, st). case r of Inl _ \<Rightarrow> Inl (Panic msg) | Inr _ \<Rightarrow> Inr st)"

definition heap_free_bytes :: "'m as_state \<Rightarrow> usize res" where
  "heap_free_bytes st = region_free_bytes (heap_va (space st))"

definition kernel_vm_free_bytes :: "'m as_state \<Rightarrow> usize res" where
  "kernel_vm_free_bytes st = region_free_bytes (kernel_vm_va (space st))"

section \<open>Ranges of pages\<close>

definition page_addr :: "usize \<Rightarrow> nat \<Rightarrow> virt_addr res" where
  "page_addr base_raw i =
     rbind (umul (of_nat i) PAGE_SIZE) (\<lambda>off.
     rbind (uadd base_raw off) (\<lambda>a. Inr (virt_new_unchecked a)))"

fun flush_pages :: "usize \<Rightarrow> nat list \<Rightarrow> virt_addr list \<Rightarrow> virt_addr list res" where
  "flush_pages base_raw [] log = Inr log"
| "flush_pages base_raw (i # is) log =
     rbind (page_addr base_raw i) (\<lambda>virt. flush_pages base_raw is (flush_tlb_page virt log))"

definition flush_range :: "virt_addr \<Rightarrow> usize \<Rightarrow> 'm as_state \<Rightarrow> 'm as_state res" where
  "flush_range base count st =
     rbind (flush_pages (virt_as_usize base) [0..<unat count] (tlb_log st)) (\<lambda>log.
       Inr (st\<lparr>tlb_log := log\<rparr>))"

text \<open>
  \<open>FRAME_ALLOCATOR.lock().as_mut().expect(..).deallocate_owned(frame)\<close>: the guard is released
  at the end of the statement.
\<close>

definition free_backing :: "owned_frame \<Rightarrow> mm_state \<Rightarrow> mm_state res" where
  "free_backing frame s =
     rbind (frames_lock s) (\<lambda>s.
     rbind (expect (FRAME_ALLOCATOR s) ''frame allocator must be initialised'') (\<lambda>alloc.
     rbind (deallocate_owned bitmap_deallocate frame (alloc, ram s)) (\<lambda>(alloc, m).
       Inr (frames_unlock (s\<lparr>FRAME_ALLOCATOR := Some alloc, ram := m\<rparr>)))))"

fun rollback_pages :: "'m unmap_op \<Rightarrow> usize \<Rightarrow> nat list \<Rightarrow> 'm as_state \<Rightarrow> 'm as_state res" where
  "rollback_pages unmap_page base_raw [] st = Inr st"
| "rollback_pages unmap_page base_raw (i # is) st =
     rbind (page_addr base_raw i) (\<lambda>virt.
     rbind (unmap_page (mapper (space st)) virt (mms st)) (\<lambda>(r, s).
       case r of
         Inl _ \<Rightarrow> Inl (Panic ''rollback unmap must succeed for a page we just mapped'')
       | Inr (frame, flush) \<Rightarrow>
           let _ = tlb_ignore flush in
           rbind (free_backing frame s) (\<lambda>s. rollback_pages unmap_page base_raw is (st\<lparr>mms := s\<rparr>))))"

definition rollback_range :: "'m unmap_op \<Rightarrow> virt_addr \<Rightarrow> nat \<Rightarrow> 'm as_state \<Rightarrow> 'm as_state res" where
  "rollback_range unmap_page base count st = rollback_pages unmap_page (virt_as_usize base) [0..<count] st"

text \<open>
  \<open>FRAME_ALLOCATOR.lock().as_mut().and_then(..)\<close> as the scrutinee of a \<open>match\<close>: the guard, a
  temporary of the scrutinee, is alive in the arms, so the lock is still taken in the result.
\<close>

definition try_allocate :: "mm_state \<Rightarrow> (owned_frame option \<times> mm_state) res" where
  "try_allocate s =
     rbind (frames_lock s) (\<lambda>s.
       case FRAME_ALLOCATOR s of
         None \<Rightarrow> Inr (None, s)
       | Some alloc \<Rightarrow>
           rbind (bitmap_allocate (alloc, ram s)) (\<lambda>(r, alloc, m).
             Inr (r, s\<lparr>FRAME_ALLOCATOR := Some alloc, ram := m\<rparr>)))"

text \<open>Rolling back the first \<open>i\<close> pages and giving the region back.\<close>

definition undo_region ::
    "'m unmap_op \<Rightarrow> string \<Rightarrow> region \<Rightarrow> alloc_kind \<Rightarrow> nat \<Rightarrow> 'm as_state \<Rightarrow> 'm as_state res" where
  "undo_region unmap_page msg region kind i st =
     rbind (rollback_range unmap_page (reg_base region) i st) (free_virt_expect msg region kind)"

section \<open>Allocating and mapping\<close>

fun alloc_pages ::
    "'m map_op \<Rightarrow> 'm unmap_op \<Rightarrow> region \<Rightarrow> page_flags \<Rightarrow> alloc_kind \<Rightarrow> nat list \<Rightarrow> 'm as_state \<Rightarrow>
     ((address_space_error + unit) \<times> 'm as_state) res" where
  "alloc_pages map_page unmap_page region flags kind [] st = Inr (Inr (), st)"
| "alloc_pages map_page unmap_page region flags kind (i # is) st =
     rbind (page_addr (virt_as_usize (reg_base region)) i) (\<lambda>virt.
     rbind (try_allocate (mms st)) (\<lambda>(r, s).
       case r of
         None \<Rightarrow>
           rbind (undo_region unmap_page ''VA region free during rollback cannot fail'' region kind i
                    (st\<lparr>mms := s\<rparr>)) (\<lambda>st.
             Inr (Inl OutOfPhysicalMemory, st\<lparr>mms := frames_unlock (mms st)\<rparr>))
       | Some frame \<Rightarrow>
           let st = st\<lparr>mms := frames_unlock s\<rparr>;
               req = \<lparr>mr_virt = virt, mr_frame = frame, mr_flags = flags\<rparr> in
           rbind (as_map map_page req st) (\<lambda>(r, st).
             case r of
               Inr flush \<Rightarrow>
                 let _ = tlb_ignore flush in alloc_pages map_page unmap_page region flags kind is st
             | Inl (frame, e) \<Rightarrow>
                 rbind (free_backing frame (mms st)) (\<lambda>s.
                 rbind (undo_region unmap_page ''VA region free during rollback cannot fail'' region kind i
                          (st\<lparr>mms := s\<rparr>)) (\<lambda>st. Inr (Inl e, st))))))"

definition alloc_and_map ::
    "'m map_op \<Rightarrow> 'm unmap_op \<Rightarrow> usize \<Rightarrow> usize \<Rightarrow> page_flags \<Rightarrow> alloc_kind \<Rightarrow> 'm as_state \<Rightarrow>
     ((address_space_error + region) \<times> 'm as_state) res" where
  "alloc_and_map map_page unmap_page sz align flags kind st =
     rtry (alloc_virt sz align kind st) (\<lambda>region st.
       let num_pages = sz div PAGE_SIZE in
       rtry (alloc_pages map_page unmap_page region flags kind [0..<unat num_pages] st) (\<lambda>_ st.
         rbind (flush_range (reg_base region) num_pages st) (\<lambda>st. Inr (Inr region, st))))"

fun unmap_pages ::
    "'m unmap_op \<Rightarrow> usize \<Rightarrow> nat list \<Rightarrow> address_space_error option \<Rightarrow> 'm as_state \<Rightarrow>
     (address_space_error option \<times> 'm as_state) res" where
  "unmap_pages unmap_page base_raw [] first_err st = Inr (first_err, st)"
| "unmap_pages unmap_page base_raw (i # is) first_err st =
     rbind (page_addr base_raw i) (\<lambda>virt.
     rbind (unmap_page (mapper (space st)) virt (mms st)) (\<lambda>(r, s).
       case r of
         Inr (frame, flush) \<Rightarrow>
           let _ = tlb_ignore flush in
           rbind (free_backing frame s) (\<lambda>s. unmap_pages unmap_page base_raw is first_err (st\<lparr>mms := s\<rparr>))
       | Inl e \<Rightarrow>
           unmap_pages unmap_page base_raw is
             (case first_err of None \<Rightarrow> Some (UnmapErr e) | Some _ \<Rightarrow> first_err) (st\<lparr>mms := s\<rparr>)))"

definition unmap_and_dealloc ::
    "'m unmap_op \<Rightarrow> region \<Rightarrow> alloc_kind \<Rightarrow> 'm as_state \<Rightarrow> ((address_space_error + unit) \<times> 'm as_state) res" where
  "unmap_and_dealloc unmap_page region kind st =
     (let num_pages = reg_size region div PAGE_SIZE in
      rbind (unmap_pages unmap_page (virt_as_usize (reg_base region)) [0..<unat num_pages] None st)
        (\<lambda>(first_err, st).
      rbind (free_virt_expect ''VA region free cannot fail for a previously-allocated region'' region kind st) (\<lambda>st.
      rbind (flush_range (reg_base region) num_pages st) (\<lambda>st.
        Inr (case first_err of Some e \<Rightarrow> Inl e | None \<Rightarrow> Inr (), st)))))"

text \<open>
  \<open>map_physical_range\<close>: the iterator is the list of the frames it yields. What dropping the
  iterator does to the frames it has not yielded is the caller's, hence the parameter
  \<open>drop_rest\<close>; it is dropped on every way out of the function.
\<close>

fun map_frames ::
    "'m map_op \<Rightarrow> 'm unmap_op \<Rightarrow> (owned_frame list \<Rightarrow> unit res) \<Rightarrow> region \<Rightarrow> page_flags \<Rightarrow> alloc_kind \<Rightarrow>
     nat \<Rightarrow> owned_frame list \<Rightarrow> 'm as_state \<Rightarrow> ((address_space_error + unit) \<times> 'm as_state) res" where
  "map_frames map_page unmap_page drop_rest region flags kind i [] st =
     rbind (drop_rest []) (\<lambda>_. Inr (Inr (), st))"
| "map_frames map_page unmap_page drop_rest region flags kind i (frame # rest) st =
     rbind (page_addr (virt_as_usize (reg_base region)) i) (\<lambda>virt.
     rbind (as_map map_page \<lparr>mr_virt = virt, mr_frame = frame, mr_flags = flags\<rparr> st) (\<lambda>(r, st).
       case r of
         Inr flush \<Rightarrow>
           let _ = tlb_ignore flush in
           map_frames map_page unmap_page drop_rest region flags kind (i + 1) rest st
       | Inl (frame, e) \<Rightarrow>
           rbind (free_backing frame (mms st)) (\<lambda>s.
           rbind (undo_region unmap_page ''va region free during rollback cannot fail'' region kind i
                    (st\<lparr>mms := s\<rparr>)) (\<lambda>st.
           rbind (drop_rest rest) (\<lambda>_. Inr (Inl e, st))))))"

definition map_physical_range ::
    "'m map_op \<Rightarrow> 'm unmap_op \<Rightarrow> (owned_frame list \<Rightarrow> unit res) \<Rightarrow> owned_frame list \<Rightarrow> usize \<Rightarrow> page_flags \<Rightarrow>
     alloc_kind \<Rightarrow> 'm as_state \<Rightarrow> ((address_space_error + region) \<times> 'm as_state) res" where
  "map_physical_range map_page unmap_page drop_rest frames align flags kind st =
     (let count = of_nat (length frames) in
      rbind (require (0 < count) ''map_physical_range: frame iterator is empty'') (\<lambda>_.
      rbind (expect (checked_mul count PAGE_SIZE) ''frame count overflows address space'') (\<lambda>sz.
      rbind (alloc_virt sz align kind st) (\<lambda>(r, st).
        case r of
          Inl e \<Rightarrow> rbind (drop_rest frames) (\<lambda>_. Inr (Inl e, st))
        | Inr region \<Rightarrow>
            rtry (map_frames map_page unmap_page drop_rest region flags kind 0 frames st) (\<lambda>_ st.
              rbind (flush_range (reg_base region) count st) (\<lambda>st. Inr (Inr region, st)))))))"

section \<open>Frames for the pages\<close>

lemma mm_put_locked:
  "s\<lparr>frame_lock := True, FRAME_ALLOCATOR := Some (fst t), ram := snd t\<rparr> = (mm_put t s)\<lparr>frame_lock := True\<rparr>"
  by (cases s) (simp add: mm_put_def)

lemma try_allocate_eq:
  assumes "mm_ok s"
  shows "try_allocate s = rbind (bitmap_allocate (mm_frames s)) (\<lambda>(r, t). Inr (r, (mm_put t s)\<lparr>frame_lock := True\<rparr>))"
  using mm_ok_frames [OF assms] by (simp add: try_allocate_def frames_lock_def mm_put_locked split_def)

lemma free_backing_eq:
  assumes "mm_ok s"
  shows "free_backing f s = rbind (bitmap_deallocate (owned_inner f) (mm_frames s)) (\<lambda>t. Inr (mm_put t s))"
  using mm_ok_frames [OF assms]
  by (simp add: free_backing_def deallocate_owned_def owned_into_inner_def frames_lock_def frames_unlock_def
      mm_put_def split_def)

lemma try_allocate_page:
  assumes "mm_ok s" and "free_list (mm_frames s) = k # ks"
  shows "\<exists>s1. try_allocate s = Inr (Some (OwnedFrame (page k)), s1) \<and> mm_ok (frames_unlock s1) \<and>
    takes_frames s [k] (frames_unlock s1) \<and> HHDM_OFFSET s1 = HHDM_OFFSET s \<and>
    (\<forall>A. (\<forall>f \<in> A. owned_page s f) \<longrightarrow> agree_on A s (frames_unlock s1))"
proof -
  note F = mm_ok_frames [OF assms(1)]
  obtain t where t: "bitmap_allocate (mm_frames s) = Inr (Some (OwnedFrame (page k)), t)" "bitmap_inv t"
    "free_list t = ks" "same_config (mm_frames s) t" "snd t = ram s"
    "\<And>j. bitmap_bit (bitmap (fst t)) j \<longleftrightarrow> j = k \<or> owned_page s j"
    using pop_free_page [OF F(4) assms(2)] F(3) by (auto simp: bitmap_allocate_def)
  let ?s1 = "(mm_put t s)\<lparr>frame_lock := True\<rparr>"
  have "try_allocate s = Inr (Some (OwnedFrame (page k)), ?s1)"
    using t(1) by (simp add: try_allocate_eq [OF assms(1)])
  moreover have u: "frames_unlock ?s1 = mm_put t s"
    by (simp add: frames_unlock_def mm_put_def)
  moreover have "agree_on A s (mm_put t s)" if "\<forall>f \<in> A. owned_page s f" for A
    using that t(4-6) by (auto simp: agree_on_def entry_at_def same_config_def)
  moreover have "takes_frames s [k] (mm_put t s)"
    using assms(2) t(3,6) by (auto simp: takes_frames_def)
  ultimately show ?thesis
    using t(2) by (intro exI [of _ ?s1]) simp
qed

lemma try_allocate_empty:
  assumes "mm_ok s" and "free_list (mm_frames s) = []"
  shows "try_allocate s = Inr (None, s\<lparr>frame_lock := True\<rparr>)"
proof -
  have "mm_put (mm_frames s) s = s"
    using mm_ok_frames [OF assms(1)] by (simp add: mm_put_def)
  then show ?thesis
    using pop_free_empty [OF mm_ok_frames(4) [OF assms(1)] assms(2)]
    by (simp add: try_allocate_eq [OF assms(1)] bitmap_allocate_def)
qed

lemma free_backing_page:
  assumes mm: "mm_ok s" and k: "owned_page s k"
  shows "\<exists>s'. free_backing (OwnedFrame (page k)) s = Inr s' \<and> mm_ok s' \<and>
    free_list (mm_frames s') = k # free_list (mm_frames s) \<and> (\<forall>g. owned_page s' g \<longleftrightarrow> g \<noteq> k \<and> owned_page s g) \<and>
    HHDM_OFFSET s' = HHDM_OFFSET s \<and> (\<forall>A. (\<forall>f \<in> A. owned_page s f \<and> f \<noteq> k) \<longrightarrow> agree_on A s s')"
proof -
  note F = mm_ok_frames [OF mm]
  have lay: "layout_ok (fst (mm_frames s))" and tot: "\<And>f. owned_page s f \<Longrightarrow> f < unat (total (fst (mm_frames s)))"
    using F(4) bitmap_bit_total [OF F(4)] by (simp_all add: bitmap_inv_def)
  have "k < unat (total (fst (mm_frames s)))" "k \<notin> set (free_list (mm_frames s))"
    using tot k free_list_bit [OF F(4)] by auto
  from free_frame_page [OF F(4) this] obtain t where t: "free_frame (page k) (mm_frames s) = Inr t" "bitmap_inv t"
    "free_list t = k # free_list (mm_frames s)" "same_config (mm_frames s) t"
    "\<And>j. bitmap_bit (bitmap (fst t)) j \<longleftrightarrow> j \<noteq> k \<and> owned_page s j"
    "\<And>a. a \<noteq> tab (hhdm_of s) k \<Longrightarrow> snd t a = snd (mm_frames s) a"
    by (auto simp: tab_def)
  have "is_allocated (fst (mm_frames s)) (page k)"
    using is_allocated_bit [OF total_limit [OF F(4) tot [OF k]]] k by simp
  then have d: "bitmap_deallocate (page k) (mm_frames s) = Inr t"
    using t(1) by (simp add: bitmap_deallocate_def)
  have "free_backing (OwnedFrame (page k)) s = Inr (mm_put t s)"
    using d by (simp add: free_backing_eq [OF mm])
  moreover have "entry_at (mm_put t s) f i = entry_at s f i"
    if "owned_page s f" "f \<noteq> k" "i < ENTRY_COUNT" for f i
  proof -
    have "tab (hhdm_of s) f + 8 * i \<noteq> tab (hhdm_of s) k + 8 * 0"
      using cell_inject [OF lay tot [OF that(1)] that(3) tot [OF k], of 0] that(2) by (simp add: ENTRY_COUNT_def)
    then show ?thesis
      using t(4,6) F(3) by (simp add: entry_at_def read_entry_def same_config_def)
  qed
  then have "agree_on A s (mm_put t s)" if "\<forall>f \<in> A. owned_page s f \<and> f \<noteq> k" for A
    using that t(4,5) by (simp add: agree_on_def)
  ultimately show ?thesis
    using t(2,3,5) by (intro exI [of _ "mm_put t s"]) simp
qed

section \<open>The pages of a region\<close>

definition vpage :: "region \<Rightarrow> nat \<Rightarrow> virt_addr" where
  "vpage r j = VirtAddr (virt_as_usize (reg_base r) + of_nat (j * 4096))"

definition page_count :: "region \<Rightarrow> nat" where
  "page_count r = unat (reg_size r) div 4096"

text \<open>A region in the upper half of the address space, where every address is canonical.\<close>

definition high_region :: "region \<Rightarrow> bool" where
  "high_region r \<longleftrightarrow> region_ok r \<and> unat (0xffff800000000000 :: usize) \<le> rlo r"

lemma high_pages:
  assumes r: "high_region r" and j: "j < page_count r"
  shows "virt_nat (vpage r j) = rlo r + j * 4096" and "page_addr (virt_as_usize (reg_base r)) j = Inr (vpage r j)"
    and "vpage_ok (vpage r j)" and "virt_nat (vpage r j) \<in> addrs r"
proof -
  have "j * 4096 + 4096 \<le> page_count r * 4096"
    using j by (metis add.commute less_eq_Suc_le mult_Suc mult_le_mono1)
  then have le: "j * 4096 + 4096 \<le> unat (reg_size r)"
    using div_times_less_eq_dividend [of "unat (reg_size r)" 4096] unfolding page_count_def by (rule order_trans)
  have ok: "4096 dvd rlo r" "rhi r < 2 ^ 64"
    using r by (simp_all add: high_region_def region_ok_def)
  have sum: "rlo r + j * 4096 < 2 ^ 64" "j * 4096 < 2 ^ 64"
    using le ok(2) by linarith+
  then have o: "unat (of_nat (j * 4096) :: usize) = j * 4096" "unat (of_nat j :: usize) = j"
    by (simp_all add: unat_of_nat_64 del: of_nat_mult)
  show v: "virt_nat (vpage r j) = rlo r + j * 4096"
    using sum(1) unfolding vpage_def by (simp add: unat_plus_if' o del: of_nat_mult)
  have "umul (of_nat j) PAGE_SIZE = Inr (of_nat (j * 4096))"
    using sum(2) by (simp add: umul_def checked_mul_def o(2) PAGE_SIZE_def)
  moreover have "uadd (virt_as_usize (reg_base r)) (of_nat (j * 4096)) = Inr (virt_as_usize (vpage r j))"
    using v by (simp add: uadd_Inr o(1) del: of_nat_mult)
  ultimately show "page_addr (virt_as_usize (reg_base r)) j = Inr (vpage r j)"
    by (simp add: page_addr_def virt_new_unchecked_def del: of_nat_mult)
  have "unat (0xffff800000000000 :: usize) \<le> virt_nat (vpage r j)"
    using r v by (simp add: high_region_def)
  then show "vpage_ok (vpage r j)"
    using is_canonical_high ok(1) v by (simp add: vpage_ok_def)
  show "virt_nat (vpage r j) \<in> addrs r"
    using le v by (simp add: addrs_def)
qed

lemma mod_inject:
  assumes "a mod n = b mod n" and "c \<le> a" and "a < c + n" and "c \<le> b" and "b < c + (n :: nat)"
  shows "a = b"
proof -
  have *: "x = y" if "x \<le> y" "x mod n = y mod n" "c \<le> x" "y < c + n" for x y
  proof -
    have "n dvd y - x"
      using mod_eq_dvd_iff_nat [OF that(1), of n] that(2) by simp
    moreover have "y - x < n"
      using that(1,3,4) by linarith
    ultimately have "y - x = 0"
      using nat_dvd_not_less by blast
    with that(1) show ?thesis
      by simp
  qed
  show ?thesis
    using *[of a b] *[of b a] assms linear [of a b] by metis
qed

lemma same_page_high:
  assumes "unat (0xffff800000000000 :: usize) \<le> virt_nat v" and "unat (0xffff800000000000 :: usize) \<le> virt_nat w"
  shows "same_page v w \<longleftrightarrow> virt_nat v div 4096 = virt_nat w div 4096"
proof -
  have u: "unat (take_bit 36 (drop_bit 12 a)) = unat a div 4096 mod 2 ^ 36" for a :: usize
    by (simp add: take_bit_eq_mod drop_bit_eq_div unat_mod unat_div)
  have "virt_nat v div 4096 = virt_nat w div 4096" if "virt_nat v div 4096 mod 2 ^ 36 = virt_nat w div 4096 mod 2 ^ 36"
    using that
  proof (rule mod_inject [where c = "2 ^ 52 - 2 ^ 35"])
    show "2 ^ 52 - 2 ^ 35 \<le> virt_nat v div 4096" "2 ^ 52 - 2 ^ 35 \<le> virt_nat w div 4096"
      using assms by (simp_all add: less_eq_div_iff_mult_less_eq)
    show "virt_nat v div 4096 < 2 ^ 52 - 2 ^ 35 + 2 ^ 36" "virt_nat w div 4096 < 2 ^ 52 - 2 ^ 35 + 2 ^ 36"
      using unat_bound [of "virt_as_usize v"] unat_bound [of "virt_as_usize w"] by simp_all
  qed
  then show ?thesis
    unfolding same_page_def word_eq_unat u by (auto simp: word_eq_unat u)
qed

lemma vpage_inject:
  assumes r: "high_region r" and jk: "j < page_count r" "k < page_count r"
  shows "same_page (vpage r j) (vpage r k) \<longleftrightarrow> j = k"
proof -
  have h: "unat (0xffff800000000000 :: usize) \<le> virt_nat (vpage r i)" if "i < page_count r" for i
    using r high_pages(1) [OF r that] by (simp add: high_region_def)
  have "4096 dvd rlo r"
    using r by (simp add: high_region_def region_ok_def)
  then have "virt_nat (vpage r i) div 4096 = rlo r div 4096 + i" if "i < page_count r" for i
    using high_pages(1) [OF r that] by (simp add: div_plus_div_distrib_dvd_left)
  then show ?thesis
    using same_page_high [OF h [OF jk(1)] h [OF jk(2)]] jk by simp
qed

lemma flush_pages_ok:
  assumes "high_region r" and "\<forall>j \<in> set js. j < page_count r"
  shows "flush_pages (virt_as_usize (reg_base r)) js log = Inr (log @ map (vpage r) js)"
  using assms(2) by (induction js arbitrary: log) (simp_all add: high_pages(2) [OF assms(1)] flush_tlb_page_def)

lemma flush_range_ok:
  assumes "high_region r"
  shows "flush_range (reg_base r) (reg_size r div PAGE_SIZE) st =
    Inr (st\<lparr>tlb_log := tlb_log st @ map (vpage r) [0..<page_count r]\<rparr>)"
  using flush_pages_ok [OF assms, of "[0..<page_count r]" "tlb_log st"]
  by (simp add: flush_range_def page_count_def unat_div)

section \<open>Loops over pages, for any mapper\<close>

definition maps_page :: "(virt_addr \<Rightarrow> (phys_addr \<times> page_flags) option) \<Rightarrow> virt_addr \<Rightarrow> phys_frame \<Rightarrow> page_flags \<Rightarrow> bool" where
  "maps_page t v f fl \<longleftrightarrow> (\<forall>w. same_page v w \<longrightarrow>
     t w = Some (PhysAddr (phys_as_usize (frame_base f) + (virt_as_usize w AND (PAGE_SIZE - 1))),
       PageFlags ((pf_bits fl AND mask 6) OR 1)))"

text \<open>
  The step from \<open>s\<close> to \<open>s'\<close> backs the pages \<open>vs\<close> by the frames \<open>fs\<close>, in this order. It takes the
  frames \<open>xs\<close> from the free list; those that back no page hold new tables.
\<close>

definition backs ::
    "('m \<Rightarrow> mm_state \<Rightarrow> virt_addr \<Rightarrow> (phys_addr \<times> page_flags) option) \<Rightarrow> ('m \<Rightarrow> mm_state \<Rightarrow> nat set) \<Rightarrow> 'm \<Rightarrow>
     mm_state \<Rightarrow> virt_addr list \<Rightarrow> page_flags \<Rightarrow> nat list \<Rightarrow> nat list \<Rightarrow> mm_state \<Rightarrow> bool" where
  "backs tr tabs m s vs fl fs xs s' \<longleftrightarrow>
     takes_frames s xs s' \<and> set fs \<subseteq> set xs \<and> distinct fs \<and> tabs m s' = tabs m s \<union> (set xs - set fs) \<and>
     list_all2 (\<lambda>v f. maps_page (tr m s') v (page f) fl) vs fs \<and>
     (\<forall>w. (\<forall>v \<in> set vs. \<not> same_page v w) \<longrightarrow> tr m s' w = tr m s w) \<and> HHDM_OFFSET s' = HHDM_OFFSET s"

lemma same_page_sym: "same_page v w \<longleftrightarrow> same_page w v"
  by (auto simp: same_page_def)

lemma same_page_trans: "same_page u v \<Longrightarrow> same_page u w \<longleftrightarrow> same_page v w"
  by (simp add: same_page_def)

lemma free_list_distinct: "mm_ok s \<Longrightarrow> distinct (free_list (mm_frames s))"
  using mm_ok_frames(4) [of s] by (simp add: bitmap_inv_def list_ok_def)

lemma free_frame_ok: "mm_ok s \<Longrightarrow> k \<in> set (free_list (mm_frames s)) \<Longrightarrow> frame_ok PAGE_SIZE (page k)"
  using total_limit free_list_total mm_ok_frames(4) by (metis frame_at_ok unat_PAGE_SIZE)

lemma backs_Cons:
  assumes one: "backs tr tabs m s [v] fl [k] (k # us) s1" and rest: "backs tr tabs m s1 vs fl fs xs s'"
    and mm: "mm_ok s" and v: "\<forall>u \<in> set vs. \<not> same_page u v"
  shows "backs tr tabs m s (v # vs) fl (k # fs) (k # us @ xs) s'"
proof -
  note o = one [unfolded backs_def] and r = rest [unfolded backs_def]
  have t: "takes_frames s ((k # us) @ xs) s'"
    using o r takes_frames_trans by blast
  then have d: "distinct (k # us @ xs)"
    using free_list_distinct [OF mm] by (auto simp: takes_frames_def)
  have "tr m s' w = tr m s1 w" if "same_page v w" for w
  proof -
    have "\<forall>u \<in> set vs. \<not> same_page u w"
      using v that by (metis same_page_trans same_page_sym)
    then show ?thesis
      using r by blast
  qed
  then have "maps_page (tr m s') v (page k) fl"
    using o by (simp add: maps_page_def)
  moreover have "tr m s' w = tr m s w" if "\<not> same_page v w" "\<forall>u \<in> set vs. \<not> same_page u w" for w
    using that o r by simp
  moreover have "tabs m s' = tabs m s \<union> (set (k # us @ xs) - set (k # fs))"
    using o r d by auto
  ultimately show ?thesis
    unfolding backs_def using t o r d by auto
qed

context page_mapper
begin

lemma alloc_step:
  assumes ok: "ok m s" and v: "vpage_ok v" "trans m s v = None" "\<not> blocked m s v"
    and fr: "free_list (mm_frames s) = k # ks" and rd: "ready m s v \<or> 3 \<le> length ks"
  shows "\<exists>s1 us s2. try_allocate s = Inr (Some (OwnedFrame (page k)), s1) \<and>
    map_page m v (OwnedFrame (page k)) fl (frames_unlock s1) = Inr (Inr (TlbFlush v), s2) \<and> ok m s2 \<and>
    backs trans tables m s [v] fl [k] (k # us) s2 \<and> (\<forall>w. blocked m s2 w = blocked m s w) \<and>
    (\<forall>w. \<not> same_page v w \<longrightarrow> trans m s2 w = trans m s w) \<and> length us \<le> 3 \<and>
    (ready m s v \<longrightarrow> us = []) \<and> (\<forall>w. ready m s w \<longrightarrow> ready m s2 w)"
proof -
  note mm = mapper_mm [OF ok]
  obtain s1 where s1: "try_allocate s = Inr (Some (OwnedFrame (page k)), s1)" "mm_ok (frames_unlock s1)"
    "takes_frames s [k] (frames_unlock s1)" "HHDM_OFFSET (frames_unlock s1) = HHDM_OFFSET s"
    "agree_on (tables m s) s (frames_unlock s1)"
    using try_allocate_page [OF mm fr] tables_owned [OF ok] by (auto simp: frames_unlock_def)
  note o = other_memory [OF ok s1(2,5)]
  have "frame_ok PAGE_SIZE (page k)" "free_list (mm_frames (frames_unlock s1)) = ks"
    using free_frame_ok [OF mm] fr s1(3) by (simp_all add: takes_frames_def)
  moreover have "ok m (frames_unlock s1)" "trans m (frames_unlock s1) v = None" "\<not> blocked m (frames_unlock s1) v"
    "ready m (frames_unlock s1) v \<or> 3 \<le> length ks"
    using o v rd by simp_all
  ultimately obtain s2 us where s2: "map_page m v (OwnedFrame (page k)) fl (frames_unlock s1) = Inr (Inr (TlbFlush v), s2)"
    "ok m s2" "\<forall>w. trans m s2 w =
        (if same_page v w
         then Some (PhysAddr (phys_as_usize (frame_base (page k)) + (virt_as_usize w AND (PAGE_SIZE - 1))),
           PageFlags ((pf_bits fl AND mask 6) OR 1))
         else trans m (frames_unlock s1) w)"
    "\<forall>w. blocked m s2 w = blocked m (frames_unlock s1) w" "takes_frames (frames_unlock s1) us s2" "length us \<le> 3"
    "tables m s2 = tables m (frames_unlock s1) \<union> set us" "HHDM_OFFSET s2 = HHDM_OFFSET (frames_unlock s1)"
    "ready m (frames_unlock s1) v \<longrightarrow> us = []" "\<forall>w. ready m (frames_unlock s1) w \<longrightarrow> ready m s2 w"
    using map_free [of m "frames_unlock s1" v "page k" fl, OF _ v(1)] by blast
  have t: "takes_frames s (k # us) s2"
    using takes_frames_trans [OF s1(3) s2(5)] by simp
  then have "k \<notin> set us"
    using free_list_distinct [OF mm] by (simp add: takes_frames_def)
  then have "backs trans tables m s [v] fl [k] (k # us) s2"
    using t s2(3,7,8) o s1(4) by (simp add: backs_def maps_page_def)
  then show ?thesis
    using s1(1) s2 o by (intro exI [of _ s1] exI [of _ us] exI [of _ s2]) simp
qed

lemma alloc_pages_ok:
  assumes r: "high_region r" and "ok (mapper (space st)) (mms st)" and "distinct js"
    and "\<forall>j \<in> set js. j < page_count r \<and> trans (mapper (space st)) (mms st) (vpage r j) = None \<and>
      \<not> blocked (mapper (space st)) (mms st) (vpage r j)"
    and "4 * length js \<le> length (free_list (mm_frames (mms st))) \<or>
      (\<forall>j \<in> set js. ready (mapper (space st)) (mms st) (vpage r j)) \<and> length js \<le> length (free_list (mm_frames (mms st)))"
  shows "\<exists>fs xs s'. alloc_pages map_page unmap_page r fl kind js st = Inr (Inr (), st\<lparr>mms := s'\<rparr>) \<and>
    ok (mapper (space st)) s' \<and> backs trans tables (mapper (space st)) (mms st) (map (vpage r) js) fl fs xs s' \<and>
    (\<forall>w. blocked (mapper (space st)) s' w = blocked (mapper (space st)) (mms st) w) \<and>
    ((\<forall>j \<in> set js. ready (mapper (space st)) (mms st) (vpage r j)) \<longrightarrow> xs = fs)"
  using assms(2-)
proof (induction js arbitrary: st)
  case Nil
  then show ?case
    by (intro exI [of _ "[]"] exI [of _ "mms st"]) (simp add: backs_def takes_frames_def)
next
  case (Cons j js)
  let ?m = "mapper (space st)" and ?s = "mms st"
  obtain k ks where fr: "free_list (mm_frames ?s) = k # ks"
    using Cons.prems(4) by (cases "free_list (mm_frames ?s)") auto
  have j: "j < page_count r" "trans ?m ?s (vpage r j) = None" "\<not> blocked ?m ?s (vpage r j)"
    and rd: "ready ?m ?s (vpage r j) \<or> 3 \<le> length ks"
    using Cons.prems(3,4) fr by auto
  note hp = high_pages [OF r j(1)]
  obtain s1 us s2 where s: "try_allocate ?s = Inr (Some (OwnedFrame (page k)), s1)"
    "map_page ?m (vpage r j) (OwnedFrame (page k)) fl (frames_unlock s1) = Inr (Inr (TlbFlush (vpage r j)), s2)"
    "ok ?m s2" "backs trans tables ?m ?s [vpage r j] fl [k] (k # us) s2" "\<forall>w. blocked ?m s2 w = blocked ?m ?s w"
    "\<forall>w. \<not> same_page (vpage r j) w \<longrightarrow> trans ?m s2 w = trans ?m ?s w" "length us \<le> 3"
    "ready ?m ?s (vpage r j) \<longrightarrow> us = []" "\<forall>w. ready ?m ?s w \<longrightarrow> ready ?m s2 w"
    using alloc_step [OF Cons.prems(1) hp(3) j(2,3) fr rd, of fl] by blast
  have other: "\<not> same_page (vpage r i) (vpage r j)" "\<not> same_page (vpage r j) (vpage r i)" if "i \<in> set js" for i
    using vpage_inject [OF r] Cons.prems(2,3) that j(1) by auto
  have "ks = us @ free_list (mm_frames s2)"
    using s(4) fr by (simp add: backs_def takes_frames_def)
  then have budget: "4 * length js \<le> length (free_list (mm_frames s2)) \<or>
      (\<forall>j \<in> set js. ready ?m s2 (vpage r j)) \<and> length js \<le> length (free_list (mm_frames s2))"
    using Cons.prems(4) fr s(7,8,9) by auto
  have "\<exists>fs xs s'. alloc_pages map_page unmap_page r fl kind js (st\<lparr>mms := s2\<rparr>) = Inr (Inr (), st\<lparr>mms := s'\<rparr>) \<and>
      ok ?m s' \<and> backs trans tables ?m s2 (map (vpage r) js) fl fs xs s' \<and>
      (\<forall>w. blocked ?m s' w = blocked ?m s2 w) \<and> ((\<forall>j \<in> set js. ready ?m s2 (vpage r j)) \<longrightarrow> xs = fs)"
    using Cons.IH [of "st\<lparr>mms := s2\<rparr>"] s(3,5,6) Cons.prems(2,3) other(2) budget by simp
  then obtain fs xs s' where s': "alloc_pages map_page unmap_page r fl kind js (st\<lparr>mms := s2\<rparr>) = Inr (Inr (), st\<lparr>mms := s'\<rparr>)"
    "ok ?m s'" "backs trans tables ?m s2 (map (vpage r) js) fl fs xs s'" "\<forall>w. blocked ?m s' w = blocked ?m s2 w"
    "(\<forall>j \<in> set js. ready ?m s2 (vpage r j)) \<longrightarrow> xs = fs"
    by blast
  have "backs trans tables ?m ?s (map (vpage r) (j # js)) fl (k # fs) (k # us @ xs) s'"
    using backs_Cons [OF s(4) s'(3) mapper_mm [OF Cons.prems(1)]] other(1) by simp
  moreover have "alloc_pages map_page unmap_page r fl kind (j # js) st = Inr (Inr (), st\<lparr>mms := s'\<rparr>)"
    using s(1,2) s'(1) hp(2) by (simp add: as_map_def)
  ultimately show ?case
    using s'(2,4,5) s(5,8,9) by (intro exI [of _ "k # fs"] exI [of _ "k # us @ xs"] exI [of _ s']) simp
qed

end

context page_mapper
begin

lemma unmap_step:
  assumes ok: "ok m s" and v: "vpage_ok v" and k: "maps_page (trans m s) v (page k) fl" "owned_page s k" "k \<notin> tables m s"
  shows "\<exists>s1 s2. unmap_page m v s = Inr (Inr (OwnedFrame (page k), TlbFlush v), s1) \<and>
    free_backing (OwnedFrame (page k)) s1 = Inr s2 \<and> ok m s2 \<and>
    (\<forall>w. trans m s2 w = (if same_page v w then None else trans m s w)) \<and> (\<forall>w. blocked m s2 w = blocked m s w) \<and>
    tables m s2 = tables m s \<and> free_list (mm_frames s2) = k # free_list (mm_frames s) \<and>
    (\<forall>g. owned_page s2 g \<longleftrightarrow> g \<noteq> k \<and> owned_page s g) \<and> HHDM_OFFSET s2 = HHDM_OFFSET s"
proof -
  have al: "4096 dvd virt_nat v" "virt_as_usize v AND (PAGE_SIZE - 1) = 0"
    using v and_low_eq_0 [OF page_size_power_of_two, of "virt_as_usize v"] by (simp_all add: vpage_ok_def)
  then have "trans m s v = Some (frame_base (page k), PageFlags ((pf_bits fl AND mask 6) OR 1))"
    using k(1) by (simp add: maps_page_def)
  from unmap_taken [OF ok al(1) this] obtain s1 where
    s1: "unmap_page m v s = Inr (Inr (OwnedFrame (page k), TlbFlush v), s1)" "ok m s1"
      "\<forall>w. trans m s1 w = (if same_page v w then None else trans m s w)" "\<forall>w. blocked m s1 w = blocked m s w"
      "takes_frames s [] s1" "tables m s1 = tables m s" "HHDM_OFFSET s1 = HHDM_OFFSET s"
    by auto
  have fl: "free_list (mm_frames s1) = free_list (mm_frames s)" "owned_page s1 g \<longleftrightarrow> owned_page s g" for g
    using s1(5) by (simp_all add: takes_frames_def)
  obtain s2 where s2: "free_backing (OwnedFrame (page k)) s1 = Inr s2" "mm_ok s2"
    "free_list (mm_frames s2) = k # free_list (mm_frames s1)" "\<forall>g. owned_page s2 g \<longleftrightarrow> g \<noteq> k \<and> owned_page s1 g"
    "HHDM_OFFSET s2 = HHDM_OFFSET s1" "\<forall>A. (\<forall>f \<in> A. owned_page s1 f \<and> f \<noteq> k) \<longrightarrow> agree_on A s1 s2"
    using free_backing_page [OF mapper_mm [OF s1(2)], of k] k(2) fl(2) by blast
  have "agree_on (tables m s1) s1 s2"
    using s2(6) tables_owned [OF s1(2)] k(3) s1(6) by metis
  note o = other_memory [OF s1(2) s2(2) this]
  show ?thesis
    using s1(1,3,4,6,7) s2(1,3-5) o fl by (intro exI [of _ s1] exI [of _ s2]) simp
qed

lemma rollback_pages_ok:
  assumes r: "high_region r" and "ok (mapper (space st)) (mms st)" and "distinct js" and "\<forall>j \<in> set js. j < page_count r"
    and "list_all2 (\<lambda>j f. maps_page (trans (mapper (space st)) (mms st)) (vpage r j) (page f) fl) js fs"
    and "distinct fs" and "\<forall>f \<in> set fs. owned_page (mms st) f \<and> f \<notin> tables (mapper (space st)) (mms st)"
  shows "\<exists>s'. rollback_pages unmap_page (virt_as_usize (reg_base r)) js st = Inr (st\<lparr>mms := s'\<rparr>) \<and>
    ok (mapper (space st)) s' \<and>
    (\<forall>w. trans (mapper (space st)) s' w =
      (if \<exists>j \<in> set js. same_page (vpage r j) w then None else trans (mapper (space st)) (mms st) w)) \<and>
    (\<forall>w. blocked (mapper (space st)) s' w = blocked (mapper (space st)) (mms st) w) \<and>
    tables (mapper (space st)) s' = tables (mapper (space st)) (mms st) \<and>
    free_list (mm_frames s') = rev fs @ free_list (mm_frames (mms st)) \<and>
    (\<forall>g. owned_page s' g \<longleftrightarrow> owned_page (mms st) g \<and> g \<notin> set fs) \<and> HHDM_OFFSET s' = HHDM_OFFSET (mms st)"
  using assms(2-)
proof (induction js arbitrary: st fs)
  case Nil
  then show ?case
    by (intro exI [of _ "mms st"]) simp
next
  case (Cons j js)
  let ?m = "mapper (space st)" and ?s = "mms st"
  obtain k ks where fs: "fs = k # ks" and mk: "maps_page (trans ?m ?s) (vpage r j) (page k) fl"
    and mks: "list_all2 (\<lambda>j f. maps_page (trans ?m ?s) (vpage r j) (page f) fl) js ks"
    using Cons.prems(4) by (cases fs) auto
  have j: "j < page_count r" "j \<notin> set js" "distinct js" "\<forall>i \<in> set js. i < page_count r"
    and k: "owned_page ?s k" "k \<notin> tables ?m ?s" "k \<notin> set ks" "distinct ks"
    using Cons.prems(2,3,5,6) fs by auto
  note hp = high_pages [OF r j(1)]
  obtain s1 s2 where s: "unmap_page ?m (vpage r j) ?s = Inr (Inr (OwnedFrame (page k), TlbFlush (vpage r j)), s1)"
    "free_backing (OwnedFrame (page k)) s1 = Inr s2" "ok ?m s2"
    "\<forall>w. trans ?m s2 w = (if same_page (vpage r j) w then None else trans ?m ?s w)"
    "\<forall>w. blocked ?m s2 w = blocked ?m ?s w" "tables ?m s2 = tables ?m ?s"
    "free_list (mm_frames s2) = k # free_list (mm_frames ?s)" "\<forall>g. owned_page s2 g \<longleftrightarrow> g \<noteq> k \<and> owned_page ?s g"
    "HHDM_OFFSET s2 = HHDM_OFFSET ?s"
    using unmap_step [OF Cons.prems(1) hp(3) mk k(1,2)] by blast
  have "\<not> same_page (vpage r j) w" if "i \<in> set js" "same_page (vpage r i) w" for i w
    using vpage_inject [OF r j(1), of i] j that same_page_trans same_page_sym by metis
  then have "maps_page (trans ?m s2) (vpage r i) (page f) fl"
    if "i \<in> set js" "maps_page (trans ?m ?s) (vpage r i) (page f) fl" for i f
    using that s(4) by (simp add: maps_page_def)
  then have mks': "list_all2 (\<lambda>j f. maps_page (trans ?m s2) (vpage r j) (page f) fl) js ks"
    by (rule list.rel_mono_strong [OF mks])
  have "\<forall>f \<in> set ks. owned_page s2 f \<and> f \<notin> tables ?m s2"
    using Cons.prems(6) fs k(3) s(6,8) by auto
  then obtain s' where s': "rollback_pages unmap_page (virt_as_usize (reg_base r)) js (st\<lparr>mms := s2\<rparr>) = Inr (st\<lparr>mms := s'\<rparr>)"
    "ok ?m s'" "\<forall>w. trans ?m s' w = (if \<exists>j \<in> set js. same_page (vpage r j) w then None else trans ?m s2 w)"
    "\<forall>w. blocked ?m s' w = blocked ?m s2 w" "tables ?m s' = tables ?m s2"
    "free_list (mm_frames s') = rev ks @ free_list (mm_frames s2)"
    "\<forall>g. owned_page s' g \<longleftrightarrow> owned_page s2 g \<and> g \<notin> set ks" "HHDM_OFFSET s' = HHDM_OFFSET s2"
    using Cons.IH [of "st\<lparr>mms := s2\<rparr>" ks] s(3) j(3,4) mks' k(4) by auto
  have "rollback_pages unmap_page (virt_as_usize (reg_base r)) (j # js) st = Inr (st\<lparr>mms := s'\<rparr>)"
    using hp(2) s(1,2) s'(1) by simp
  moreover have "trans ?m s' w = (if \<exists>i \<in> set (j # js). same_page (vpage r i) w then None else trans ?m ?s w)" for w
    using s(4) s'(3) by simp
  moreover have "owned_page s' g \<longleftrightarrow> owned_page ?s g \<and> g \<notin> set fs" for g
    using s(8) s'(7) fs by auto
  ultimately show ?case
    using s s' fs by (intro exI [of _ s']) simp
qed

end

lemma unmap_pages_rollback:
  "rollback_pages unmap_page base_raw js st = Inr st' \<Longrightarrow> unmap_pages unmap_page base_raw js err st = Inr (err, st')"
proof (induction js arbitrary: st)
  case (Cons j js)
  from Cons.prems obtain virt r s where "page_addr base_raw j = Inr virt"
    "unmap_page (mapper (space st)) virt (mms st) = Inr (r, s)"
    by (auto simp: rbind_Inr_iff)
  then show ?case
    using Cons by (cases r) (auto simp: rbind_Inr_iff)
qed simp

section \<open>The invariant of an address space\<close>

definition pool_range :: "alloc_kind \<Rightarrow> nat set" where
  "pool_range kind = (case kind of Heap \<Rightarrow> {unat HEAP_START ..< unat HEAP_END}
     | KernelVm \<Rightarrow> {unat KERNEL_VM_START ..< unat KERNEL_VM_END})"

definition pool_free :: "'m as_state \<Rightarrow> alloc_kind \<Rightarrow> nat set" where
  "pool_free st kind = free_addrs (region_allocator_for kind (space st))"

text \<open>The pools track part of their range, and nothing is mapped at a free address.\<close>

definition space_inv ::
    "('m \<Rightarrow> mm_state \<Rightarrow> bool) \<Rightarrow> ('m \<Rightarrow> mm_state \<Rightarrow> virt_addr \<Rightarrow> (phys_addr \<times> page_flags) option) \<Rightarrow>
     ('m \<Rightarrow> mm_state \<Rightarrow> virt_addr \<Rightarrow> bool) \<Rightarrow> 'm as_state \<Rightarrow> bool" where
  "space_inv ok tr blk st \<longleftrightarrow> ok (mapper (space st)) (mms st) \<and>
     (\<forall>kind. region_inv (region_allocator_for kind (space st)) \<and> pool_free st kind \<subseteq> pool_range kind) \<and>
     (\<forall>kind v. virt_nat v \<in> pool_free st kind \<longrightarrow>
        tr (mapper (space st)) (mms st) v = None \<and> \<not> blk (mapper (space st)) (mms st) v)"

lemma set_allocator_simps [simp]:
  "region_allocator_for k (set_allocator_for k' a sp) = (if k = k' then a else region_allocator_for k sp)"
  "mapper (set_allocator_for k' a sp) = mapper sp"
  "set_allocator_for k' b (set_allocator_for k' a sp) = set_allocator_for k' b sp"
  by (cases k; cases k'; simp add: region_allocator_for_def set_allocator_for_def)+

lemma pool_range_high: "x \<in> pool_range kind \<Longrightarrow> unat (0xffff800000000000 :: usize) \<le> x"
  by (cases kind) (simp_all add: pool_range_def HEAP_START_def KERNEL_VM_START_def)

lemma pool_range_disjoint: "k \<noteq> k' \<Longrightarrow> pool_range k \<inter> pool_range k' = {}"
  by (cases k; cases k') (auto simp: pool_range_def HEAP_END_def KERNEL_VM_START_def)

lemma pool_disjoint:
  assumes "space_inv ok tr blk st" and "k \<noteq> k'"
  shows "pool_free st k \<inter> pool_free st k' = {}"
  using assms(1) pool_range_disjoint [OF assms(2)] unfolding space_inv_def by blast

lemma region_page_cases:
  assumes r: "high_region r"
  shows "j < page_count r \<Longrightarrow> unat (0xffff800000000000 :: usize) \<le> virt_nat w \<Longrightarrow> same_page (vpage r j) w \<Longrightarrow>
      virt_nat w \<in> addrs r"
    and "virt_nat w \<in> addrs r \<Longrightarrow> \<exists>j < page_count r. same_page (vpage r j) w"
proof -
  have r4: "4096 dvd rlo r" "4096 dvd unat (reg_size r)" "unat (0xffff800000000000 :: usize) \<le> rlo r"
    using r by (simp_all add: high_region_def region_ok_def)
  have sz: "unat (reg_size r) = page_count r * 4096"
    using r4(2) by (simp add: page_count_def)
  have div: "virt_nat (vpage r j) div 4096 = rlo r div 4096 + j" if "j < page_count r" for j
    using high_pages(1) [OF r that] r4(1) by (simp add: div_plus_div_distrib_dvd_left)
  have hi: "unat (0xffff800000000000 :: usize) \<le> virt_nat (vpage r j)" if "j < page_count r" for j
    using r4(3) high_pages(1) [OF r that] by simp
  obtain b where b: "rlo r = b * 4096"
    using r4(1) by (metis dvd_def mult.commute)
  show "virt_nat w \<in> addrs r" if "j < page_count r" "unat (0xffff800000000000 :: usize) \<le> virt_nat w"
    "same_page (vpage r j) w"
  proof -
    have "virt_nat w div 4096 = b + j"
      using same_page_high [OF hi [OF that(1)] that(2)] that(3) div [OF that(1)] b by simp
    then show ?thesis
      using that(1) unfolding addrs_def b sz by auto
  qed
  show "\<exists>j < page_count r. same_page (vpage r j) w" if "virt_nat w \<in> addrs r"
  proof -
    have w: "b * 4096 \<le> virt_nat w" "virt_nat w < b * 4096 + page_count r * 4096"
      using that unfolding addrs_def b sz by auto
    then have j: "virt_nat w div 4096 - b < page_count r" "b \<le> virt_nat w div 4096"
      by linarith+
    have "unat (0xffff800000000000 :: usize) \<le> virt_nat w"
      using w(1) r4(3) b by simp
    then have "same_page (vpage r (virt_nat w div 4096 - b)) w"
      using same_page_high [OF hi [OF j(1)]] div [OF j(1)] j(2) b by simp
    with j(1) show ?thesis
      by blast
  qed
qed

lemma pool_alloc:
  assumes inv: "space_inv ok tr blk st" and alloc: "region_alloc sz align (region_allocator_for kind (space st)) = Inr (Inr r, a')"
  shows "high_region r" and "reg_size r = sz" and "region_inv a'" and "free_addrs a' = pool_free st kind - addrs r"
    and "addrs r \<subseteq> pool_free st kind"
    and "alloc_virt sz align kind st = Inr (Inr r, st\<lparr>space := set_allocator_for kind a' (space st)\<rparr>)"
    and "j < page_count r \<Longrightarrow> tr (mapper (space st)) (mms st) (vpage r j) = None \<and> \<not> blk (mapper (space st)) (mms st) (vpage r j)"
proof -
  have A: "region_inv (region_allocator_for kind (space st))" "pool_free st kind \<subseteq> pool_range kind"
    using inv by (simp_all add: space_inv_def)
  note R = ra.alloc_ok [OF A(1) alloc]
  then show "reg_size r = sz" "region_inv a'" "free_addrs a' = pool_free st kind - addrs r" "addrs r \<subseteq> pool_free st kind"
    by (simp_all add: pool_free_def)
  have "rlo r \<in> pool_range kind"
    using rlo_mem_addrs [of r] R A(2) by (auto simp: pool_free_def)
  then show h: "high_region r"
    using R pool_range_high by (simp add: high_region_def)
  show "alloc_virt sz align kind st = Inr (Inr r, st\<lparr>space := set_allocator_for kind a' (space st)\<rparr>)"
    using alloc by (simp add: alloc_virt_def)
  show "tr (mapper (space st)) (mms st) (vpage r j) = None \<and> \<not> blk (mapper (space st)) (mms st) (vpage r j)"
    if j: "j < page_count r"
  proof -
    have "virt_nat (vpage r j) \<in> pool_free st kind"
      using high_pages(4) [OF h j] R by (auto simp: pool_free_def)
    then show ?thesis
      using inv unfolding space_inv_def by blast
  qed
qed

lemma free_virt_ok:
  assumes "region_inv a" and "region_allocator_for kind (space st) = a" and "region_ok r" and "addrs r \<inter> free_addrs a = {}"
    and "ra_len a < CAPACITY"
  shows "\<exists>a'. free_virt_expect msg r kind st = Inr (st\<lparr>space := set_allocator_for kind a' (space st)\<rparr>) \<and> region_inv a' \<and>
    free_addrs a' = free_addrs a \<union> addrs r"
  using region_add_regs [OF assms(1,3-5)] assms(2)
  by (auto simp: free_virt_expect_def free_virt_def region_free_def)

lemma free_virt_full:
  assumes "region_ok r" and "ra_len (region_allocator_for kind (space st)) = CAPACITY"
  shows "free_virt_expect msg r kind st = Inl (Panic msg)"
  using region_add_full [OF assms(1), of "region_allocator_for kind (space st)"] assms(2)
  by (simp add: free_virt_expect_def free_virt_def region_free_def)

section \<open>Whole regions, for any mapper\<close>

lemma alloc_pages_append:
  "alloc_pages mp up r fl kind (xs @ ys) st =
    rtry (alloc_pages mp up r fl kind xs st) (\<lambda>_ st. alloc_pages mp up r fl kind ys st)"
proof (induction xs arbitrary: st)
  case (Cons x xs)
  then show ?case
    by (simp add: rtry_def rbind_def Let_def split: sum.split option.split prod.split)
qed simp

context page_mapper
begin

lemma alloc_and_map_ok:
  assumes inv: "space_inv ok trans blocked st"
    and alloc: "region_alloc sz align (region_allocator_for kind (space st)) = Inr (Inr r, a')"
    and free: "4 * page_count r \<le> length (free_list (mm_frames (mms st)))"
  shows "\<exists>fs xs s'.
    alloc_and_map map_page unmap_page sz align fl kind st = Inr (Inr r, st\<lparr>space := set_allocator_for kind a' (space st),
      mms := s', tlb_log := tlb_log st @ map (vpage r) [0..<page_count r]\<rparr>) \<and>
    space_inv ok trans blocked (st\<lparr>space := set_allocator_for kind a' (space st),
      mms := s', tlb_log := tlb_log st @ map (vpage r) [0..<page_count r]\<rparr>) \<and>
    backs trans tables (mapper (space st)) (mms st) (map (vpage r) [0..<page_count r]) fl fs xs s' \<and>
    (\<forall>w. blocked (mapper (space st)) s' w = blocked (mapper (space st)) (mms st) w)"
proof -
  let ?st = "st\<lparr>space := set_allocator_for kind a' (space st)\<rparr>" and ?m = "mapper (space st)"
  note P = pool_alloc [OF inv alloc]
  have ok: "ok ?m (mms st)"
    using inv by (simp add: space_inv_def)
  obtain fs xs s' where s': "alloc_pages map_page unmap_page r fl kind [0..<page_count r] ?st = Inr (Inr (), ?st\<lparr>mms := s'\<rparr>)"
    "ok ?m s'" "backs trans tables ?m (mms st) (map (vpage r) [0..<page_count r]) fl fs xs s'"
    "\<forall>w. blocked ?m s' w = blocked ?m (mms st) w"
    using alloc_pages_ok [OF P(1), of ?st "[0..<page_count r]" fl kind] ok P(7) free by auto
  let ?st' = "st\<lparr>space := set_allocator_for kind a' (space st), mms := s',
    tlb_log := tlb_log st @ map (vpage r) [0..<page_count r]\<rparr>"
  have n: "unat (sz div PAGE_SIZE) = page_count r" "sz div PAGE_SIZE = reg_size r div PAGE_SIZE"
    by (simp_all add: page_count_def P(2) unat_div)
  have "alloc_and_map map_page unmap_page sz align fl kind st = Inr (Inr r, ?st')"
    using P(6) s'(1) n by (simp add: alloc_and_map_def flush_range_ok [OF P(1)])
  moreover have "trans ?m s' v = None \<and> \<not> blocked ?m s' v" if v: "virt_nat v \<in> pool_free ?st' k" for k v
  proof -
    have v': "virt_nat v \<in> pool_free st k" "virt_nat v \<notin> addrs r"
      using v P(4,5) pool_disjoint [OF inv, of k kind] by (auto simp: pool_free_def split: if_splits)
    then have "unat (0xffff800000000000 :: usize) \<le> virt_nat v"
      using inv pool_range_high unfolding space_inv_def by blast
    then have "\<forall>u \<in> set (map (vpage r) [0..<page_count r]). \<not> same_page u v"
      using region_page_cases(1) [OF P(1)] v'(2) by auto
    then have "trans ?m s' v = trans ?m (mms st) v"
      using s'(3) by (simp add: backs_def)
    then show ?thesis
      using inv v'(1) s'(4) unfolding space_inv_def by metis
  qed
  then have "space_inv ok trans blocked ?st'"
    using inv s'(2) P(3,4) by (auto simp: space_inv_def pool_free_def)
  ultimately show ?thesis
    using s'(3,4) by blast
qed

lemma unmap_and_dealloc_ok:
  assumes r: "high_region r" and ok: "ok (mapper (space st)) (mms st)" and a: "region_allocator_for kind (space st) = a"
    and pool: "region_inv a" "addrs r \<inter> free_addrs a = {}"
    and m: "list_all2 (\<lambda>j f. maps_page (trans (mapper (space st)) (mms st)) (vpage r j) (page f) fl) [0..<page_count r] fs"
    and fs: "distinct fs" "\<forall>f \<in> set fs. owned_page (mms st) f \<and> f \<notin> tables (mapper (space st)) (mms st)"
  shows "if ra_len a = CAPACITY
    then unmap_and_dealloc unmap_page r kind st = Inl (Panic ''VA region free cannot fail for a previously-allocated region'')
    else \<exists>a' s'. unmap_and_dealloc unmap_page r kind st = Inr (Inr (), st\<lparr>space := set_allocator_for kind a' (space st),
        mms := s', tlb_log := tlb_log st @ map (vpage r) [0..<page_count r]\<rparr>) \<and>
      region_inv a' \<and> free_addrs a' = free_addrs a \<union> addrs r \<and> ok (mapper (space st)) s' \<and>
      (\<forall>w. trans (mapper (space st)) s' w =
        (if \<exists>j < page_count r. same_page (vpage r j) w then None else trans (mapper (space st)) (mms st) w)) \<and>
      (\<forall>w. blocked (mapper (space st)) s' w = blocked (mapper (space st)) (mms st) w) \<and>
      tables (mapper (space st)) s' = tables (mapper (space st)) (mms st) \<and>
      free_list (mm_frames s') = rev fs @ free_list (mm_frames (mms st))"
proof -
  let ?m = "mapper (space st)"
  have "\<exists>s'. rollback_pages unmap_page (virt_as_usize (reg_base r)) [0..<page_count r] st = Inr (st\<lparr>mms := s'\<rparr>) \<and>
      ok ?m s' \<and> (\<forall>w. trans ?m s' w =
        (if \<exists>j < page_count r. same_page (vpage r j) w then None else trans ?m (mms st) w)) \<and>
      (\<forall>w. blocked ?m s' w = blocked ?m (mms st) w) \<and> tables ?m s' = tables ?m (mms st) \<and>
      free_list (mm_frames s') = rev fs @ free_list (mm_frames (mms st)) \<and>
      (\<forall>g. owned_page s' g \<longleftrightarrow> owned_page (mms st) g \<and> g \<notin> set fs) \<and> HHDM_OFFSET s' = HHDM_OFFSET (mms st)"
    using rollback_pages_ok [OF r ok _ _ m fs] by (simp add: Bex_def)
  then obtain s' where s': "rollback_pages unmap_page (virt_as_usize (reg_base r)) [0..<page_count r] st = Inr (st\<lparr>mms := s'\<rparr>)"
    "ok ?m s'" "\<forall>w. trans ?m s' w = (if \<exists>j < page_count r. same_page (vpage r j) w then None else trans ?m (mms st) w)"
    "\<forall>w. blocked ?m s' w = blocked ?m (mms st) w" "tables ?m s' = tables ?m (mms st)"
    "free_list (mm_frames s') = rev fs @ free_list (mm_frames (mms st))"
    by blast
  have n: "unat (reg_size r div PAGE_SIZE) = page_count r"
    by (simp add: page_count_def unat_div)
  have r': "region_ok r"
    using r by (simp add: high_region_def)
  note up = unmap_pages_rollback [OF s'(1), of None]
  have full: "unmap_and_dealloc unmap_page r kind st = Inl (Panic ''VA region free cannot fail for a previously-allocated region'')"
    if "ra_len a = CAPACITY"
    using up n free_virt_full [OF r', of kind "st\<lparr>mms := s'\<rparr>"] a that by (simp add: unmap_and_dealloc_def Let_def)
  have room: "\<exists>a'. unmap_and_dealloc unmap_page r kind st = Inr (Inr (), st\<lparr>space := set_allocator_for kind a' (space st),
        mms := s', tlb_log := tlb_log st @ map (vpage r) [0..<page_count r]\<rparr>) \<and>
      region_inv a' \<and> free_addrs a' = free_addrs a \<union> addrs r" if "ra_len a \<noteq> CAPACITY"
  proof -
    have "ra_len a < CAPACITY"
      using that pool(1) by (simp add: region_inv_def slots_ok_def)
    then obtain a' where a': "\<And>msg. free_virt_expect msg r kind (st\<lparr>mms := s'\<rparr>) =
        Inr (st\<lparr>mms := s', space := set_allocator_for kind a' (space st)\<rparr>)"
      "region_inv a'" "free_addrs a' = free_addrs a \<union> addrs r"
      using free_virt_ok [OF pool(1) _ r' pool(2), of kind "st\<lparr>mms := s'\<rparr>"] a
        region_add_regs [OF pool(1) r' pool(2)]
      by (auto simp: free_virt_expect_def free_virt_def region_free_def)
    then show ?thesis
      using up n by (intro exI [of _ a']) (simp add: unmap_and_dealloc_def Let_def flush_range_ok [OF r])
  qed
  show ?thesis
  proof (cases "ra_len a = CAPACITY")
    case True
    with full show ?thesis
      by simp
  next
    case False
    show ?thesis
      unfolding if_not_P [OF False] using room [OF False] s'(2-6) by blast
  qed
qed

end

context page_mapper
begin

lemma backs_frames:
  assumes ok: "ok m s" and b: "backs trans tables m s vs fl fs xs s'" and f: "f \<in> set fs"
  shows "owned_page s' f" and "f \<notin> tables m s'"
proof -
  note B = b [unfolded backs_def takes_frames_def]
  have "f \<in> set (free_list (mm_frames s))"
    using B f by auto
  then have "\<not> owned_page s f"
    using free_list_bit mm_ok_frames(4) [OF mapper_mm [OF ok]] by blast
  then show "owned_page s' f" "f \<notin> tables m s'"
    using B f tables_owned [OF ok] by auto
qed

lemma alloc_then_unmap:
  assumes inv: "space_inv ok trans blocked st"
    and alloc: "region_alloc sz align (region_allocator_for kind (space st)) = Inr (Inr r, a')"
    and free: "4 * page_count r \<le> length (free_list (mm_frames (mms st)))"
  shows "\<exists>st'. alloc_and_map map_page unmap_page sz align fl kind st = Inr (Inr r, st') \<and>
    (if ra_len a' = CAPACITY
     then unmap_and_dealloc unmap_page r kind st' = Inl (Panic ''VA region free cannot fail for a previously-allocated region'')
     else \<exists>st''. unmap_and_dealloc unmap_page r kind st' = Inr (Inr (), st'') \<and> space_inv ok trans blocked st'' \<and>
       mapper (space st'') = mapper (space st) \<and> (\<forall>k. pool_free st'' k = pool_free st k) \<and>
       (\<forall>w. trans (mapper (space st)) (mms st'') w = trans (mapper (space st)) (mms st) w) \<and>
       set (free_list (mm_frames (mms st))) = set (free_list (mm_frames (mms st''))) \<union>
         (tables (mapper (space st)) (mms st'') - tables (mapper (space st)) (mms st)))"
proof -
  let ?m = "mapper (space st)"
  note P = pool_alloc [OF inv alloc]
  have ok: "ok ?m (mms st)"
    using inv by (simp add: space_inv_def)
  obtain fs xs s' st' where
    st': "st' = st\<lparr>space := set_allocator_for kind a' (space st), mms := s',
        tlb_log := tlb_log st @ map (vpage r) [0..<page_count r]\<rparr>"
      "alloc_and_map map_page unmap_page sz align fl kind st = Inr (Inr r, st')" "space_inv ok trans blocked st'"
      "backs trans tables ?m (mms st) (map (vpage r) [0..<page_count r]) fl fs xs s'"
      "\<forall>w. blocked ?m s' w = blocked ?m (mms st) w"
    using alloc_and_map_ok [OF assms] by blast
  note B = st'(4) [unfolded backs_def takes_frames_def] and F = backs_frames [OF ok st'(4)]
  have sm: "mapper (space st') = ?m" "mms st' = s'"
    by (simp_all add: st'(1))
  have "ok ?m s'"
    using st'(3) by (simp add: space_inv_def sm)
  moreover have "region_allocator_for kind (space st') = a'" "addrs r \<inter> free_addrs a' = {}"
    using P(4) by (auto simp: st'(1))
  moreover have "list_all2 (\<lambda>j f. maps_page (trans ?m s') (vpage r j) (page f) fl) [0..<page_count r] fs"
    using B by (simp add: list.rel_map)
  ultimately have U: "if ra_len a' = CAPACITY
      then unmap_and_dealloc unmap_page r kind st' = Inl (Panic ''VA region free cannot fail for a previously-allocated region'')
      else \<exists>a'' s''. unmap_and_dealloc unmap_page r kind st' = Inr (Inr (), st'\<lparr>space := set_allocator_for kind a'' (space st'),
          mms := s'', tlb_log := tlb_log st' @ map (vpage r) [0..<page_count r]\<rparr>) \<and>
        region_inv a'' \<and> free_addrs a'' = free_addrs a' \<union> addrs r \<and> ok ?m s'' \<and>
        (\<forall>w. trans ?m s'' w = (if \<exists>j < page_count r. same_page (vpage r j) w then None else trans ?m s' w)) \<and>
        (\<forall>w. blocked ?m s'' w = blocked ?m s' w) \<and> tables ?m s'' = tables ?m s' \<and>
        free_list (mm_frames s'') = rev fs @ free_list (mm_frames s')"
    using B F by (intro unmap_and_dealloc_ok [OF P(1), of st', unfolded sm, OF _ _ P(3)]) auto
  show ?thesis
  proof (cases "ra_len a' = CAPACITY")
    case True
    then show ?thesis
      using st'(2) U by simp
  next
    case False
    obtain a'' s'' st'' where s'': "unmap_and_dealloc unmap_page r kind st' = Inr (Inr (), st'')"
      "st'' = st'\<lparr>space := set_allocator_for kind a'' (space st'),
          mms := s'', tlb_log := tlb_log st' @ map (vpage r) [0..<page_count r]\<rparr>"
      "region_inv a''" "free_addrs a'' = free_addrs a' \<union> addrs r" "ok ?m s''"
      "\<forall>w. trans ?m s'' w = (if \<exists>j < page_count r. same_page (vpage r j) w then None else trans ?m s' w)"
      "\<forall>w. blocked ?m s'' w = blocked ?m s' w" "tables ?m s'' = tables ?m s'"
      "free_list (mm_frames s'') = rev fs @ free_list (mm_frames s')"
      using U unfolding if_not_P [OF False] by blast
    have pool: "pool_free st'' k = pool_free st k" "region_inv (region_allocator_for k (space st''))" for k
      using P(4,5) s''(3,4) inv by (auto simp: pool_free_def s''(2) st'(1) space_inv_def)
    have tr: "trans ?m s'' w = trans ?m (mms st) w" for w
    proof (cases "\<exists>j < page_count r. same_page (vpage r j) w")
      case True
      then show ?thesis
        using s''(6) P(7) trans_page [OF ok] by metis
    next
      case False
      then have "\<forall>v \<in> set (map (vpage r) [0..<page_count r]). \<not> same_page v w"
        by auto
      then show ?thesis
        using False s''(6) B by metis
    qed
    have "f \<notin> tables ?m (mms st)" if "f \<in> set xs" for f
    proof -
      have "f \<in> set (free_list (mm_frames (mms st)))"
        using B that by simp
      then show ?thesis
        using free_list_bit [OF mm_ok_frames(4) [OF mapper_mm [OF ok]]] tables_owned [OF ok, of f] by blast
    qed
    then have "tables ?m s'' - tables ?m (mms st) = set xs - set fs"
      using B s''(8) by auto
    then have "set (free_list (mm_frames (mms st))) = set (free_list (mm_frames s'')) \<union> (tables ?m s'' - tables ?m (mms st))"
      using B s''(9) by auto
    moreover have "mapper (space st'') = ?m" "mms st'' = s''"
      by (simp_all add: s''(2) st'(1))
    moreover from this have "space_inv ok trans blocked st''"
      using inv pool s''(5,7) st'(5) tr by (simp add: space_inv_def)
    ultimately show ?thesis
      unfolding if_not_P [OF False] using st'(2) s''(1) pool(1) tr by (intro exI [of _ st'] conjI exI [of _ st'']) simp_all
  qed
qed

text \<open>
  Out of frames, with every table in place: nothing happens if the first page already fails;
  after that, rolling back needs the lock that the failed allocation still holds.
\<close>

lemma alloc_pages_exhausted:
  assumes r: "high_region r" and ok: "ok (mapper (space st)) (mms st)"
    and vac: "\<And>j. j < page_count r \<Longrightarrow> trans (mapper (space st)) (mms st) (vpage r j) = None \<and>
      \<not> blocked (mapper (space st)) (mms st) (vpage r j) \<and> ready (mapper (space st)) (mms st) (vpage r j)"
    and n: "length (free_list (mm_frames (mms st))) = n" "0 < n" "n < page_count r"
  shows "alloc_pages map_page unmap_page r fl kind [0..<page_count r] st = Inl Deadlock"
proof -
  let ?m = "mapper (space st)"
  have nn: "[0..<page_count r] = [0..<n] @ n # [Suc n..<page_count r]"
    using n(3) by (metis less_imp_le_nat upt_add_eq_append upt_conv_Cons le_add_diff_inverse zero_le)
  obtain fs s' where s': "alloc_pages map_page unmap_page r fl kind [0..<n] st = Inr (Inr (), st\<lparr>mms := s'\<rparr>)"
    "ok ?m s'" "backs trans tables ?m (mms st) (map (vpage r) [0..<n]) fl fs fs s'"
    using alloc_pages_ok [OF r ok, of "[0..<n]" fl kind] vac n by auto
  note B = s'(3) [unfolded backs_def takes_frames_def]
  have "length fs = n"
    using B by (auto dest: list_all2_lengthD)
  then have "free_list (mm_frames s') = []"
    using B n(1) by (metis append_Nil2 append_eq_append_conv length_append add_cancel_left_right length_0_conv)
  then have t: "try_allocate s' = Inr (None, s'\<lparr>frame_lock := True\<rparr>)"
    by (rule try_allocate_empty [OF mapper_mm [OF s'(2)]])
  have "list_all2 (\<lambda>j f. maps_page (trans ?m s') (vpage r j) (page f) fl) [0..<n] fs"
    using B by (simp add: list.rel_map)
  moreover have up: "[0..<n] = 0 # [1..<n]"
    using n(2) by (simp add: upt_conv_Cons)
  ultimately obtain k ks where k: "maps_page (trans ?m s') (vpage r 0) (page k) fl" "fs = k # ks"
    by (auto simp: list_all2_Cons1)
  note F = backs_frames [OF ok s'(3), of k]
  have 0: "0 < page_count r"
    using n by simp
  obtain s1 where "unmap_page ?m (vpage r 0) s' = Inr (Inr (OwnedFrame (page k), TlbFlush (vpage r 0)), s1)"
    using unmap_step [OF s'(2) high_pages(3) [OF r 0] k(1)] F k(2) by auto
  from unmap_locked [OF this, of True]
  have "rollback_pages unmap_page (virt_as_usize (reg_base r)) [0..<n] (st\<lparr>mms := s'\<lparr>frame_lock := True\<rparr>\<rparr>) = Inl Deadlock"
    unfolding up using high_pages(2) [OF r 0] by (simp add: free_backing_def frames_lock_def)
  then have "alloc_pages map_page unmap_page r fl kind (n # [Suc n..<page_count r]) (st\<lparr>mms := s'\<rparr>) = Inl Deadlock"
    using high_pages(2) [OF r n(3)] t by (simp add: undo_region_def rollback_range_def)
  then show ?thesis
    unfolding nn alloc_pages_append using s'(1) by simp
qed

lemma alloc_and_map_exhausted_any:
  assumes inv: "space_inv ok trans blocked st"
    and alloc: "region_alloc sz align (region_allocator_for kind (space st)) = Inr (Inr r, a')"
    and room: "ra_len a' < CAPACITY"
    and rd: "\<And>j. j < page_count r \<Longrightarrow> ready (mapper (space st)) (mms st) (vpage r j)"
    and n: "length (free_list (mm_frames (mms st))) < page_count r"
  shows "if free_list (mm_frames (mms st)) = []
    then \<exists>a''. alloc_and_map map_page unmap_page sz align fl kind st =
        Inr (Inl OutOfPhysicalMemory, st\<lparr>space := set_allocator_for kind a'' (space st)\<rparr>) \<and> region_inv a'' \<and>
        free_addrs a'' = pool_free st kind
    else alloc_and_map map_page unmap_page sz align fl kind st = Inl Deadlock"
proof -
  let ?st = "st\<lparr>space := set_allocator_for kind a' (space st)\<rparr>" and ?m = "mapper (space st)"
  note P = pool_alloc [OF inv alloc]
  have ok: "ok ?m (mms st)"
    using inv by (simp add: space_inv_def)
  have cnt: "unat (sz div PAGE_SIZE) = page_count r"
    by (simp add: page_count_def P(2) unat_div)
  have dead: "alloc_pages map_page unmap_page r fl kind [0..<page_count r] ?st = Inl Deadlock"
    if "free_list (mm_frames (mms st)) \<noteq> []"
    using alloc_pages_exhausted [OF P(1), of ?st] ok P(7) rd n that by simp
  have none: "\<exists>a''. alloc_pages map_page unmap_page r fl kind [0..<page_count r] ?st =
      Inr (Inl OutOfPhysicalMemory, st\<lparr>space := set_allocator_for kind a'' (space st)\<rparr>) \<and> region_inv a'' \<and>
      free_addrs a'' = pool_free st kind" if e: "free_list (mm_frames (mms st)) = []"
  proof -
    have 0: "0 < page_count r" "[0..<page_count r] = 0 # [1..<page_count r]"
      using n by (simp_all add: upt_conv_Cons)
    have r: "region_ok r" "addrs r \<inter> free_addrs a' = {}"
      using P(1,4) by (auto simp: high_region_def)
    let ?st1 = "?st\<lparr>mms := (mms st)\<lparr>frame_lock := True\<rparr>\<rparr>"
    obtain a'' where a'': "free_virt_expect ''VA region free during rollback cannot fail'' r kind ?st1 =
        Inr (?st1\<lparr>space := set_allocator_for kind a'' (space st)\<rparr>)" "region_inv a''" "free_addrs a'' = free_addrs a' \<union> addrs r"
      using free_virt_ok [OF P(3) _ r room, of kind ?st1] by auto
    have "frames_unlock ((mms st)\<lparr>frame_lock := True\<rparr>) = mms st"
      using mm_ok_frames(1) [OF mapper_mm [OF ok]] by (simp add: frames_unlock_def)
    then have "alloc_pages map_page unmap_page r fl kind [0..<page_count r] ?st =
        Inr (Inl OutOfPhysicalMemory, st\<lparr>space := set_allocator_for kind a'' (space st)\<rparr>)"
      unfolding 0(2) using try_allocate_empty [OF mapper_mm [OF ok] e] high_pages(2) [OF P(1) 0(1)] a''(1)
      by (simp add: undo_region_def rollback_range_def)
    moreover have "free_addrs a'' = pool_free st kind"
      using a''(3) P(4,5) by auto
    ultimately show ?thesis
      using a''(2) by blast
  qed
  show ?thesis
  proof (cases "free_list (mm_frames (mms st)) = []")
    case True
    from none [OF this] show ?thesis
      unfolding if_P [OF True] by (elim exE conjE, intro exI conjI) (simp_all add: alloc_and_map_def P(6) cnt)
  next
    case False
    with dead show ?thesis
      by (simp add: alloc_and_map_def P(6) cnt)
  qed
qed

end

end
