(* ===== verification/Kernel_Space.thy ===== *)
theory Kernel_Space
  imports Address_Space
begin

text \<open>
  Address spaces over the x86-64 page-table mapper: \<open>KernelAddressSpace\<close> of
  \<open>eira/src/mm/address_space.rs\<close>. The lemmas of \<open>Address_Space\<close> hold for every mapper that keeps the
  contract; here they are used at the interpretation \<open>ptm\<close>, from a freshly built address space
  to allocating, mapping, unmapping and running out of frames.
\<close>

section \<open>The kernel address space\<close>

abbreviation space_ok :: "page_table_mapper as_state \<Rightarrow> bool" where
  "space_ok \<equiv> space_inv mapper_ok mapped maps_huge"

lemma space_from_mapper_ok:
  assumes "mapper_ok mp s" and "\<And>v. mapped mp s v = None" and "\<And>v. \<not> maps_huge mp s v"
  shows "\<exists>sp. space_from_mapper mp = Inr sp \<and> mapper sp = mp \<and> root sp = None \<and>
    (\<forall>log. space_ok \<lparr>space = sp, mms = s, tlb_log = log\<rparr> \<and>
       (\<forall>k. pool_free \<lparr>space = sp, mms = s, tlb_log = log\<rparr> k = pool_range k))"
proof -
  obtain heap vm where p: "heap_region_allocator = Inr heap" "region_inv heap"
    "free_addrs heap = {unat HEAP_START ..< unat HEAP_END}"
    "kernel_vm_region_allocator = Inr vm" "region_inv vm"
    "free_addrs vm = {unat KERNEL_VM_START ..< unat KERNEL_VM_END}"
    by (rule kernel_pools)
  let ?sp = "\<lparr>root = None, mapper = mp, heap_va = heap, kernel_vm_va = vm\<rparr>"
  have "pool_free \<lparr>space = ?sp, mms = s, tlb_log = log\<rparr> k = pool_range k"
    "region_inv (region_allocator_for k ?sp)" for log k
    using p by (cases k; simp add: pool_free_def pool_range_def region_allocator_for_def)+
  then show ?thesis
    using assms by (intro exI [of _ ?sp]) (simp add: space_from_mapper_def space_inv_def p(1,4))
qed

lemma new_kernel_ok:
  assumes mm: "mm_ok s" and h: "HHDM_OFFSET s = hhdm_of s" and fr: "free_list (mm_frames s) = k # ks"
  shows "\<exists>sp s'. new_kernel s = Inr (sp, s') \<and> root sp = None \<and> pml4 (mapper sp) = page k \<and> owned_page s' k \<and>
    free_list (mm_frames s') = ks \<and> table_frames (mapper sp) s' = {k} \<and> (\<forall>v. mapped (mapper sp) s' v = None) \<and>
    (\<forall>v. \<not> maps_huge (mapper sp) s' v) \<and>
    (\<forall>log. space_ok \<lparr>space = sp, mms = s', tlb_log = log\<rparr> \<and>
       (\<forall>k. pool_free \<lparr>space = sp, mms = s', tlb_log = log\<rparr> k = pool_range k))"
proof -
  obtain t where t: "mm_allocate s = Inr (OwnedFrame (page k), mm_put t s)" "bitmap_inv t" "free_list t = ks"
    "same_config (mm_frames s) t" "\<And>j. bitmap_bit (bitmap (fst t)) j \<longleftrightarrow> j = k \<or> owned_page s j"
    using mm_allocate_page [OF mm fr] by blast
  have "mm_ok (mm_put t s)" "HHDM_OFFSET (mm_put t s) = hhdm_of (mm_put t s)" "owned_page (mm_put t s) k"
    using t(2,4,5) h by (simp_all add: same_config_def)
  from create_mapper_ok [OF this] obtain mp s' where s': "create_mapper (OwnedFrame (page k)) (mm_put t s) = Inr (mp, s')"
    "mapper_ok mp s'" "pml4 mp = page k" "\<And>v. mapped mp s' v = None" "\<And>v. \<not> maps_huge mp s' v"
    "table_frames mp s' = {k}" "free_list (mm_frames s') = free_list t" "fst (mm_frames s') = fst t"
    by auto
  from space_from_mapper_ok [OF s'(2,4,5)] obtain sp where sp: "space_from_mapper mp = Inr sp" "mapper sp = mp"
    "root sp = None" "\<forall>log. space_ok \<lparr>space = sp, mms = s', tlb_log = log\<rparr> \<and>
       (\<forall>k. pool_free \<lparr>space = sp, mms = s', tlb_log = log\<rparr> k = pool_range k)"
    by blast
  have "new_kernel s = Inr (sp, s')"
    using t(1) s'(1) sp(1) by (simp add: new_kernel_def)
  then show ?thesis
    using s'(3-8) sp(2-4) t(3,5) by (intro exI [of _ sp] exI [of _ s']) simp
qed

text \<open>A machine with eight frames, of which all but the first are free.\<close>

definition boot_mm :: mm_state where
  "boot_mm = \<lparr>FRAME_ALLOCATOR = Some \<lparr>bitmap = [0], free_list_head = 4096, hhdm_offset = 65536, total = 8, free = 7\<rparr>,
     frame_lock = False, HHDM_OFFSET = 65536,
     ram = (\<lambda>_. 0)(65536 + 4096 := 8192, 65536 + 8192 := 12288, 65536 + 12288 := 16384, 65536 + 16384 := 20480,
       65536 + 20480 := 24576, 65536 + 24576 := 28672, 65536 + 28672 := FREE_LIST_EMPTY)\<rparr>"

lemma boot_mm_ok:
  "mm_ok boot_mm" "free_list (mm_frames boot_mm) = [1, 2, 3, 4, 5, 6, 7]" "HHDM_OFFSET boot_mm = hhdm_of boot_mm"
proof -
  have b: "\<not> bitmap_bit [0] i" for i
    by (simp add: bitmap_bit_small)
  show fl: "free_list (mm_frames boot_mm) = [1, 2, 3, 4, 5, 6, 7]"
  proof -
    have f: "unat (free (fst (mm_frames boot_mm))) = Suc (Suc (Suc (Suc (Suc (Suc (Suc 0))))))"
      by (simp add: boot_mm_def mm_frames_def)
    show ?thesis
      unfolding free_list_def f by (simp add: boot_mm_def mm_frames_def)
  qed
  show "HHDM_OFFSET boot_mm = hhdm_of boot_mm"
    by (simp add: boot_mm_def mm_frames_def)
  have "layout_ok (fst (mm_frames boot_mm))"
    by (simp add: layout_ok_def boot_mm_def mm_frames_def phys_limit_def)
  moreover have "bits_ok (fst (mm_frames boot_mm))"
    using b by (simp add: bits_ok_def boot_mm_def mm_frames_def)
  moreover have "list_ok (mm_frames boot_mm) [1, 2, 3, 4, 5, 6, 7]"
    using b by (simp add: list_ok_def boot_mm_def mm_frames_def)
  ultimately have "bitmap_inv (mm_frames boot_mm)"
    using fl by (simp add: bitmap_inv_def)
  then show "mm_ok boot_mm"
    by (simp add: mm_ok_def boot_mm_def mm_frames_def)
qed

text \<open>In a fresh address space the first heap region starts at the base of the heap range.\<close>

definition first_region :: "usize \<Rightarrow> region" where
  "first_region sz = \<lparr>reg_base = VirtAddr HEAP_START, reg_size = sz\<rparr>"

lemma fresh_alloc:
  assumes "space_ok st" and "pool_free st Heap = pool_range Heap" and "request_ok sz 4096" and "unat sz \<le> 32768"
  shows "\<exists>a'. region_alloc sz 4096 (region_allocator_for Heap (space st)) = Inr (Inr (first_region sz), a') \<and> ra_len a' < 2"
proof -
  have "region_inv (region_allocator_for Heap (space st))"
    "free_addrs (region_allocator_for Heap (space st)) = {unat HEAP_START ..< unat HEAP_END}"
    using assms(1,2) by (simp_all add: space_inv_def pool_free_def pool_range_def)
  from alloc_first [OF this _ _ _ assms(3)] assms(4) show ?thesis
    by (simp add: HEAP_START_def HEAP_END_def first_region_def)
qed

lemma fresh_kernel:
  obtains sp s where "new_kernel boot_mm = Inr (sp, s)" "free_list (mm_frames s) = [2, 3, 4, 5, 6, 7]"
    "space_ok \<lparr>space = sp, mms = s, tlb_log = []\<rparr>" "pool_free \<lparr>space = sp, mms = s, tlb_log = []\<rparr> Heap = pool_range Heap"
    "\<forall>v. mapped (mapper sp) s v = None"
  using new_kernel_ok [OF boot_mm_ok(1,3,2)] by blast

section \<open>Properties\<close>

text \<open>
  C30. \<open>new_kernel\<close> panics when no frame is free. Otherwise it takes the first free frame for the
  root table and yields an address space that satisfies the invariant: nothing is mapped and
  both pools hold their whole range. The field \<open>root\<close> is empty, so dropping the address space
  does not give the root frame back: the frame stays owned.
\<close>

theorem new_kernel_correct:
  assumes "mm_ok s" and "HHDM_OFFSET s = hhdm_of s"
  shows "case free_list (mm_frames s) of
      [] \<Rightarrow> new_kernel s = Inl (Panic ''out of physical memory'')
    | k # ks \<Rightarrow> \<exists>sp s'. new_kernel s = Inr (sp, s') \<and> root sp = None \<and> pml4 (mapper sp) = page k \<and>
        owned_page s' k \<and> free_list (mm_frames s') = ks \<and> (\<forall>v. mapped (mapper sp) s' v = None) \<and>
        (\<forall>log. space_ok \<lparr>space = sp, mms = s', tlb_log = log\<rparr> \<and>
          (\<forall>kind. pool_free \<lparr>space = sp, mms = s', tlb_log = log\<rparr> kind = pool_range kind))"
proof (cases "free_list (mm_frames s)")
  case Nil
  then have "new_kernel s = Inl (Panic ''out of physical memory'')"
    using pop_free_empty [OF mm_ok_frames(4) [OF assms(1)] Nil]
    by (simp add: new_kernel_def mm_allocate_eq [OF assms(1)] bitmap_allocate_def expect_def)
  with Nil show ?thesis
    by simp
next
  case (Cons k ks)
  show ?thesis
    using new_kernel_ok [OF assms Cons] unfolding Cons list.case by blast
qed

theorem new_kernel_correct_witness:
  "\<exists>sp s'. new_kernel boot_mm = Inr (sp, s') \<and> pml4 (mapper sp) = page 1 \<and>
     free_list (mm_frames s') = [2, 3, 4, 5, 6, 7] \<and> space_ok \<lparr>space = sp, mms = s', tlb_log = []\<rparr>"
  using new_kernel_correct [OF boot_mm_ok(1,3)] unfolding boot_mm_ok(2) list.case by blast

text \<open>
  C31. \<open>alloc_and_map\<close> with room in the pool and four free frames per page (one to back the page,
  three for new tables). It returns the region the pool gave out; its pages translate, in order,
  to distinct frames that were free before, with the given flags; every address outside the
  region translates as before; the pool loses exactly the region; the TLB entries of exactly
  these pages are invalidated; and the invariant holds.
\<close>

theorem alloc_and_map_correct:
  assumes "space_ok st" and "region_alloc sz align (region_allocator_for kind (space st)) = Inr (Inr r, a')"
    and "4 * page_count r \<le> length (free_list (mm_frames (mms st)))"
  shows "\<exists>st' fs. alloc_and_map mapper_map mapper_unmap sz align fl kind st = Inr (Inr r, st') \<and> space_ok st' \<and>
    mapper (space st') = mapper (space st) \<and> reg_size r = sz \<and> length fs = page_count r \<and> distinct fs \<and>
    set fs \<subseteq> set (free_list (mm_frames (mms st))) \<and>
    (\<forall>j < page_count r. maps_page (mapped (mapper (space st)) (mms st')) (vpage r j) (page (fs ! j)) fl) \<and>
    (\<forall>w. (\<forall>j < page_count r. \<not> same_page (vpage r j) w) \<longrightarrow>
       mapped (mapper (space st)) (mms st') w = mapped (mapper (space st)) (mms st) w) \<and>
    addrs r \<subseteq> pool_free st kind \<and> pool_free st' kind = pool_free st kind - addrs r \<and>
    tlb_log st' = tlb_log st @ map (vpage r) [0..<page_count r]"
proof -
  let ?m = "mapper (space st)"
  note P = pool_alloc [OF assms(1,2)]
  obtain fs xs s' st' where
    st': "st' = st\<lparr>space := set_allocator_for kind a' (space st), mms := s',
        tlb_log := tlb_log st @ map (vpage r) [0..<page_count r]\<rparr>"
      "alloc_and_map mapper_map mapper_unmap sz align fl kind st = Inr (Inr r, st')" "space_ok st'"
      "backs mapped table_frames ?m (mms st) (map (vpage r) [0..<page_count r]) fl fs xs s'"
    using ptm.alloc_and_map_ok [OF assms, of fl] by blast
  note B = st'(4) [unfolded backs_def takes_frames_def]
  have len: "length fs = page_count r"
    using B by (auto dest: list_all2_lengthD)
  have "maps_page (mapped ?m s') (vpage r j) (page (fs ! j)) fl" if "j < page_count r" for j
    using B that by (simp add: list_all2_conv_all_nth)
  moreover have "mapped ?m s' w = mapped ?m (mms st) w" if "\<forall>j < page_count r. \<not> same_page (vpage r j) w" for w
    using B that by simp
  moreover have "set fs \<subseteq> set (free_list (mm_frames (mms st)))" "distinct fs"
    using B by auto
  moreover have "mapper (space st') = ?m" "mms st' = s'" "pool_free st' kind = free_addrs a'"
    "tlb_log st' = tlb_log st @ map (vpage r) [0..<page_count r]"
    by (simp_all add: st'(1) pool_free_def)
  ultimately show ?thesis
    using st'(2,3) P(2,4,5) len by (intro exI [of _ st'] exI [of _ fs]) simp
qed

theorem alloc_and_map_correct_witness:
  "\<exists>sp s st' f. new_kernel boot_mm = Inr (sp, s) \<and> f \<in> {2, 3, 4, 5, 6, 7} \<and>
     alloc_and_map mapper_map mapper_unmap 4096 4096 user_data Heap \<lparr>space = sp, mms = s, tlb_log = []\<rparr>
       = Inr (Inr (first_region 4096), st') \<and>
     maps_page (mapped (mapper sp) (mms st')) (vpage (first_region 4096) 0) (page f) user_data \<and>
     tlb_log st' = [vpage (first_region 4096) 0]"
proof -
  obtain sp s where k: "new_kernel boot_mm = Inr (sp, s)" "free_list (mm_frames s) = [2, 3, 4, 5, 6, 7]"
    "space_ok \<lparr>space = sp, mms = s, tlb_log = []\<rparr>" "pool_free \<lparr>space = sp, mms = s, tlb_log = []\<rparr> Heap = pool_range Heap"
    by (rule fresh_kernel)
  obtain a' where a': "region_alloc 4096 4096 (region_allocator_for Heap (space \<lparr>space = sp, mms = s, tlb_log = []\<rparr>)) =
      Inr (Inr (first_region 4096), a')"
    using fresh_alloc [OF k(3,4) page_request] by auto
  have n: "page_count (first_region 4096) = 1"
    by (simp add: page_count_def first_region_def)
  then have "4 * page_count (first_region 4096) \<le> length (free_list (mm_frames (mms \<lparr>space = sp, mms = s, tlb_log = []\<rparr>)))"
    using k(2) by simp
  from alloc_and_map_correct [OF k(3) a' this, of user_data] obtain st' fs where
    st': "alloc_and_map mapper_map mapper_unmap 4096 4096 user_data Heap \<lparr>space = sp, mms = s, tlb_log = []\<rparr>
        = Inr (Inr (first_region 4096), st')" "length fs = 1" "set fs \<subseteq> {2, 3, 4, 5, 6, 7}"
      "maps_page (mapped (mapper sp) (mms st')) (vpage (first_region 4096) 0) (page (fs ! 0)) user_data"
      "tlb_log st' = [vpage (first_region 4096) 0]"
    unfolding n using k(2) by auto
  have "fs ! 0 \<in> {2, 3, 4, 5, 6, 7}"
    using subsetD [OF st'(3) nth_mem, of 0] st'(2) by simp
  with k(1) st'(1,4,5) show ?thesis
    by blast
qed

text \<open>
  C32. Unmapping and releasing what \<open>alloc_and_map\<close> returned restores every translation and both
  pools, and every frame is free again except those that now hold page tables. If the pool's
  tracker is full at that point, \<open>unmap_and_dealloc\<close> panics instead.
\<close>

theorem alloc_unmap_roundtrip:
  assumes "space_ok st" and "region_alloc sz align (region_allocator_for kind (space st)) = Inr (Inr r, a')"
    and "4 * page_count r \<le> length (free_list (mm_frames (mms st)))"
  shows "\<exists>st'. alloc_and_map mapper_map mapper_unmap sz align fl kind st = Inr (Inr r, st') \<and>
    (if ra_len a' = CAPACITY
     then unmap_and_dealloc mapper_unmap r kind st' = Inl (Panic ''VA region free cannot fail for a previously-allocated region'')
     else \<exists>st''. unmap_and_dealloc mapper_unmap r kind st' = Inr (Inr (), st'') \<and> space_ok st'' \<and>
       mapper (space st'') = mapper (space st) \<and> (\<forall>k. pool_free st'' k = pool_free st k) \<and>
       (\<forall>w. mapped (mapper (space st)) (mms st'') w = mapped (mapper (space st)) (mms st) w) \<and>
       set (free_list (mm_frames (mms st))) = set (free_list (mm_frames (mms st''))) \<union>
         (table_frames (mapper (space st)) (mms st'') - table_frames (mapper (space st)) (mms st)))"
  by (rule ptm.alloc_then_unmap [OF assms])

theorem alloc_unmap_roundtrip_witness:
  "\<exists>sp s st' st''. new_kernel boot_mm = Inr (sp, s) \<and>
     alloc_and_map mapper_map mapper_unmap 4096 4096 user_data Heap \<lparr>space = sp, mms = s, tlb_log = []\<rparr>
       = Inr (Inr (first_region 4096), st') \<and>
     unmap_and_dealloc mapper_unmap (first_region 4096) Heap st' = Inr (Inr (), st'') \<and>
     pool_free st'' Heap = pool_range Heap \<and> (\<forall>w. mapped (mapper sp) (mms st'') w = None)"
proof -
  obtain sp s where k: "new_kernel boot_mm = Inr (sp, s)" "free_list (mm_frames s) = [2, 3, 4, 5, 6, 7]"
    "space_ok \<lparr>space = sp, mms = s, tlb_log = []\<rparr>" "pool_free \<lparr>space = sp, mms = s, tlb_log = []\<rparr> Heap = pool_range Heap"
    "\<forall>v. mapped (mapper sp) s v = None"
    by (rule fresh_kernel)
  obtain a' where a': "region_alloc 4096 4096 (region_allocator_for Heap (space \<lparr>space = sp, mms = s, tlb_log = []\<rparr>)) =
      Inr (Inr (first_region 4096), a')" "ra_len a' \<noteq> CAPACITY"
    using fresh_alloc [OF k(3,4) page_request] by (auto simp: CAPACITY_def)
  have "4 * page_count (first_region 4096) \<le> length (free_list (mm_frames (mms \<lparr>space = sp, mms = s, tlb_log = []\<rparr>)))"
    using k(2) by (simp add: page_count_def first_region_def)
  from alloc_unmap_roundtrip [OF k(3) a'(1) this, of user_data] show ?thesis
    unfolding if_not_P [OF a'(2)] using k(1,4,5) by simp blast
qed


text \<open>The fresh kernel address space with the tables for the start of the heap range in place.\<close>

lemma prepared_kernel:
  obtains st where "space_ok st" "pool_free st Heap = pool_range Heap"
    "has_table (mapper (space st)) (mms st) (VirtAddr HEAP_START)"
    "3 \<le> length (free_list (mm_frames (mms st)))" "length (free_list (mm_frames (mms st))) \<le> 6"
proof -
  obtain sp s where k: "free_list (mm_frames s) = [2, 3, 4, 5, 6, 7]" "\<And>v. mapped (mapper sp) s v = None"
    "\<And>v. \<not> maps_huge (mapper sp) s v" "space_ok \<lparr>space = sp, mms = s, tlb_log = []\<rparr>"
    using new_kernel_ok [OF boot_mm_ok(1,3,2)] by blast
  then obtain T where T: "tables_ok (mapper sp) T s"
    by (auto simp: space_inv_def mapper_ok_def)
  then obtain T' s' a where w: "leaf_ptr T' (hhdm_of s') (VirtAddr HEAP_START) = Some a" "grows (mapper sp) T s T' s' 3"
    using walk_or_create_grows [OF T, of "VirtAddr HEAP_START"] k(1,3) mapper_okI(3) [OF T] by auto
  note T' = growsD(1) [OF w(2)]
  have h: "huge_on T' s' v = huge_on T s v" for v
    using growsD(5) [OF w(2)] index_of_less by (simp add: huge_on_def)
  have "mapped (mapper sp) s' v = None" "\<not> maps_huge (mapper sp) s' v" for v
    using k(2,3) growsD(4) [OF w(2)] by (simp_all add: mapper_okI(3,4) [OF T] mapper_okI(3,4) [OF T'] h)
  from space_from_mapper_ok [OF mapper_okI(1) [OF T'] this] obtain sp' where
    sp': "mapper sp' = mapper sp" "space_ok \<lparr>space = sp', mms = s', tlb_log = []\<rparr>"
      "pool_free \<lparr>space = sp', mms = s', tlb_log = []\<rparr> Heap = pool_range Heap"
    by blast
  moreover have "has_table (mapper sp) s' (VirtAddr HEAP_START)"
    using w(1) has_table_iff [OF T'] by (auto simp: leaf_ptr_def split: option.splits)
  moreover have "3 \<le> length (free_list (mm_frames s'))" "length (free_list (mm_frames s')) \<le> 6"
    using growsD(6) [OF w(2)] w(2) k(1) by (auto simp: grows_def dest: arg_cong [of _ _ length])
  ultimately show thesis
    by (intro that [of "\<lparr>space = sp', mms = s', tlb_log = []\<rparr>"]) simp_all
qed

lemma heap_paths:
  assumes "j < 8"
  shows "path_of (vpage (first_region 32768) j) = path_of (VirtAddr HEAP_START)"
proof -
  have "j \<in> {0, 1, 2, 3, 4, 5, 6, 7}"
    using assms by auto
  then show ?thesis
    by (elim insertE emptyE)
      (simp_all add: path_of_def vpage_def first_region_def HEAP_START_def index_of_def index_shift_def level_number_def drop_bit_eq_div)
qed


end
