(* ===== verification/Cpu.thy ===== *)
theory Cpu
  imports Prelude
begin

text \<open>
  The part of an x86-64 core that the assembly fragments of the kernel use: the general-purpose
  registers, the registers an interrupt saves, and the stack instructions. A step runs on the
  registers together with memory; stack slots are 64-bit cells.
\<close>

record cpu =
  rax :: u64
  rbx :: u64
  rcx :: u64
  rdx :: u64
  rsi :: u64
  rdi :: u64
  rbp :: u64
  r8 :: u64
  r9 :: u64
  r10 :: u64
  r11 :: u64
  r12 :: u64
  r13 :: u64
  r14 :: u64
  r15 :: u64
  rsp :: u64
  rip :: u64
  rflags :: u64
  cs :: u64
  ss :: u64
  cr2 :: u64
  cr3 :: u64

type_synonym machine = "cpu \<times> mem"

definition push :: "u64 \<Rightarrow> machine \<Rightarrow> machine" where
  "push v s = ((fst s)\<lparr>rsp := rsp (fst s) - 8\<rparr>, (snd s)(rsp (fst s) - 8 := v))"

definition push_reg :: "(cpu \<Rightarrow> u64) \<Rightarrow> machine \<Rightarrow> machine" where
  "push_reg r s = push (r (fst s)) s"

definition pop :: "((u64 \<Rightarrow> u64) \<Rightarrow> cpu \<Rightarrow> cpu) \<Rightarrow> machine \<Rightarrow> machine" where
  "pop set_reg s = (set_reg (\<lambda>_. snd s (rsp (fst s))) ((fst s)\<lparr>rsp := rsp (fst s) + 8\<rparr>), snd s)"

definition ret :: "machine \<Rightarrow> machine" where
  "ret s = pop rip_update s"

lemmas stack_ops = push_def push_reg_def pop_def ret_def

lemma push_simps [simp]:
  "fst (push v s) = (fst s)\<lparr>rsp := rsp (fst s) - 8\<rparr>"
  "snd (push v s) = (snd s)(rsp (fst s) - 8 := v)"
  by (simp_all add: push_def)

lemma push_reg_simps [simp]:
  "fst (push_reg r s) = (fst s)\<lparr>rsp := rsp (fst s) - 8\<rparr>"
  "snd (push_reg r s) = (snd s)(rsp (fst s) - 8 := r (fst s))"
  by (simp_all add: push_reg_def)

lemma pop_simps [simp]:
  "fst (pop set_reg s) = set_reg (\<lambda>_. snd s (rsp (fst s))) ((fst s)\<lparr>rsp := rsp (fst s) + 8\<rparr>)"
  "snd (pop set_reg s) = snd s"
  by (simp_all add: pop_def)

lemma ret_simps [simp]:
  "fst (ret s) = (fst s)\<lparr>rsp := rsp (fst s) + 8, rip := snd s (rsp (fst s))\<rparr>" "snd (ret s) = snd s"
  by (simp_all add: ret_def)

end
