(* ===== verification/Task.thy ===== *)
theory Task
  imports Cpu Addr
begin

text \<open>
  Kernel tasks (\<open>eira/src/task/task.rs\<close>), their stacks (\<open>eira/src/task/stack.rs\<close>) and their
  saved contexts with the context switch (\<open>eira/src/task/context.rs\<close>,
  \<open>eira/src/arch/x86_64/context.rs\<close>).

  A task lives in a heap box and never moves, so its saved context is the memory cell
  \<open>context_at\<close>: the context consists of the stack pointer alone. The address space of a task is
  shared through an \<open>Arc\<close> and only passed along; it is represented by its address. Log output is
  not modelled.
\<close>

section \<open>Stacks\<close>

definition DEFAULT_STACK_SIZE :: usize where
  "DEFAULT_STACK_SIZE = 64 * 1024"

definition STACK_ALIGN :: usize where
  "STACK_ALIGN = 16"

record kernel_stack =
  buf_ptr :: usize
  buf_len :: usize

text \<open>
  \<open>vec![0u8; size]\<close>: \<open>ptr\<close> is what the global allocator returned for the buffer, which aligns to
  16; all whole cells and the low bytes of a last partial cell become zero.
\<close>

definition zero_bytes :: "usize \<Rightarrow> usize \<Rightarrow> mem \<Rightarrow> mem" where
  "zero_bytes ptr n m =
     (let m' = fold (\<lambda>i m. m(ptr + 8 * of_nat i := 0)) [0..<unat (n div 8)] m;
          tail = ptr + 8 * (n div 8) in
      if n mod 8 = 0 then m' else m'(tail := m' tail AND NOT (mask (unat (8 * (n mod 8))))))"

definition kernel_stack_new :: "usize option \<Rightarrow> usize \<Rightarrow> mem \<Rightarrow> (kernel_stack \<times> mem) res" where
  "kernel_stack_new allocated sz m =
     rbind (require (STACK_ALIGN \<le> sz) ''stack size must be at least 16'') (\<lambda>_.
     rbind (expect allocated ''memory allocation failed'') (\<lambda>ptr.
       Inr (\<lparr>buf_ptr = ptr, buf_len = sz\<rparr>, zero_bytes ptr sz m)))"

definition kernel_stack_new_default :: "usize option \<Rightarrow> mem \<Rightarrow> (kernel_stack \<times> mem) res" where
  "kernel_stack_new_default allocated m = kernel_stack_new allocated DEFAULT_STACK_SIZE m"

definition stack_size :: "kernel_stack \<Rightarrow> usize" where
  "stack_size st = buf_len st"

definition stack_base :: "kernel_stack \<Rightarrow> usize" where
  "stack_base st = buf_ptr st"

definition stack_top :: "kernel_stack \<Rightarrow> usize res" where
  "stack_top st =
     rbind (uadd (buf_ptr st) (buf_len st)) (\<lambda>e. Inr (e AND NOT (STACK_ALIGN - 1)))"

section \<open>Contexts\<close>

definition RSP_OFFSET :: usize where
  "RSP_OFFSET = 0"

record x86_64_context =
  ctx_rsp :: u64

text \<open>
  \<open>TaskContext::new\<close> writes the initial frame below the top of the stack. The debug output at its
  end adds offsets of up to 48 to the new stack pointer.
\<close>

definition context_new :: "u64 \<Rightarrow> usize \<Rightarrow> mem \<Rightarrow> (x86_64_context \<times> mem) res" where
  "context_new entry tos m =
     (let m = m(tos - 8 := 0); m = m(tos - 16 := entry); m = m(tos - 24 := 0); m = m(tos - 32 := 0);
          m = m(tos - 40 := 0); m = m(tos - 48 := 0); m = m(tos - 56 := 0); m = m(tos - 64 := 0);
          rsp_val = tos - 64 in
      rbind (uadd rsp_val 48) (\<lambda>_. Inr (\<lparr>ctx_rsp = rsp_val\<rparr>, m)))"

text \<open>
  \<open>switch_to_asm\<close>: \<open>rdi\<close> points to the current context and \<open>rsi\<close> to the next one. The first half
  saves the registers and the stack pointer, the second half loads those of the next task.
\<close>

definition save_frame :: "machine \<Rightarrow> machine" where
  "save_frame s =
     (let s = push_reg rbx s; s = push_reg rbp s; s = push_reg r12 s;
          s = push_reg r13 s; s = push_reg r14 s; s = push_reg r15 s in
      (fst s, (snd s)(rdi (fst s) + RSP_OFFSET := rsp (fst s))))"

definition load_frame :: "machine \<Rightarrow> machine" where
  "load_frame s =
     (let s = ((fst s)\<lparr>rsp := snd s (rsi (fst s) + RSP_OFFSET)\<rparr>, snd s);
          s = pop r15_update s; s = pop r14_update s; s = pop r13_update s;
          s = pop r12_update s; s = pop rbp_update s; s = pop rbx_update s in
      ret s)"

definition switch_to_asm :: "machine \<Rightarrow> machine" where
  "switch_to_asm s = load_frame (save_frame s)"

text \<open>The call of \<open>switch_to_asm\<close> with the return address \<open>ra\<close>.\<close>

definition switch_to :: "usize \<Rightarrow> usize \<Rightarrow> u64 \<Rightarrow> machine \<Rightarrow> machine" where
  "switch_to current next_ctx ra s = switch_to_asm (push ra ((fst s)\<lparr>rdi := current, rsi := next_ctx\<rparr>, snd s))"

section \<open>Tasks\<close>

datatype task_id = TaskId (tid_as_u64: u64)

definition TASK_ID_IDLE :: task_id where
  "TASK_ID_IDLE = TaskId 0"

text \<open>\<open>TaskId::next\<close>: \<open>fetch_add\<close> on the counter, which starts at 1 and wraps.\<close>

definition task_id_next :: "u64 \<Rightarrow> task_id \<times> u64" where
  "task_id_next counter = (TaskId counter, counter + 1)"

datatype block_reason = IpcReply | Sleep | Io | PageFault | Other

datatype task_state = Created | Ready | Running | Blocked block_reason | Dead

datatype priority = Priority (priority_as_u8: u8)

definition PRIORITY_IDLE :: priority where "PRIORITY_IDLE = Priority 0"
definition PRIORITY_NORMAL :: priority where "PRIORITY_NORMAL = Priority 128"
definition PRIORITY_HIGH :: priority where "PRIORITY_HIGH = Priority 200"
definition PRIORITY_MAX :: priority where "PRIORITY_MAX = Priority 255"

definition priority_default :: priority where
  "priority_default = PRIORITY_NORMAL"

record task =
  task_id :: task_id
  state :: task_state
  prio :: priority
  context_at :: usize
  stack :: kernel_stack
  address_space :: usize

text \<open>
  \<open>Box::new(Task::new(..))\<close>: \<open>stack_buf\<close> and \<open>cell\<close> are the addresses that the global allocator
  gave for the stack buffer and for the context inside the box.
\<close>

definition task_new ::
    "usize option \<Rightarrow> usize \<Rightarrow> u64 \<Rightarrow> priority \<Rightarrow> usize \<Rightarrow> usize \<Rightarrow> u64 \<Rightarrow> mem \<Rightarrow> (task \<times> u64 \<times> mem) res" where
  "task_new stack_buf cell entry pr stack_sz space counter m =
     rbind (kernel_stack_new stack_buf stack_sz m) (\<lambda>(stk, m).
     rbind (stack_top stk) (\<lambda>tos.
     rbind (context_new entry tos m) (\<lambda>(ctx, m).
     case task_id_next counter of (new_id, counter) \<Rightarrow>
       Inr (\<lparr>task_id = new_id, state = Created, prio = pr, context_at = cell, stack = stk, address_space = space\<rparr>,
            counter, m(cell + RSP_OFFSET := ctx_rsp ctx)))))"

definition task_new_kernel :: "usize option \<Rightarrow> usize \<Rightarrow> u64 \<Rightarrow> usize \<Rightarrow> u64 \<Rightarrow> mem \<Rightarrow> (task \<times> u64 \<times> mem) res" where
  "task_new_kernel stack_buf cell entry space counter m =
     task_new stack_buf cell entry PRIORITY_NORMAL DEFAULT_STACK_SIZE space counter m"

definition is_runnable :: "task \<Rightarrow> bool" where
  "is_runnable t = (state t = Ready)"

definition mark_ready :: "task \<Rightarrow> task res" where
  "mark_ready t =
     rbind (require (state t \<noteq> Running \<and> state t \<noteq> Dead) ''mark_ready called on a running or dead task'') (\<lambda>_.
       Inr (t\<lparr>state := Ready\<rparr>))"

definition task_block :: "block_reason \<Rightarrow> task \<Rightarrow> task res" where
  "task_block reason t =
     rbind (require (state t = Running) ''block() called on non-running task'') (\<lambda>_.
       Inr (t\<lparr>state := Blocked reason\<rparr>))"

definition kill :: "task \<Rightarrow> task" where
  "kill t = t\<lparr>state := Dead\<rparr>"

section \<open>Saved contexts\<close>

text \<open>
  The context cell \<open>ctx\<close> holds a suspended execution: registers as in \<open>c\<close>, to be resumed at \<open>ra\<close>
  with stack pointer \<open>sp\<close>. Its frame occupies the seven cells below \<open>sp\<close>.
\<close>

definition saved :: "mem \<Rightarrow> usize \<Rightarrow> cpu \<Rightarrow> u64 \<Rightarrow> u64 \<Rightarrow> bool" where
  "saved m ctx c ra sp \<longleftrightarrow> m ctx = sp - 56 \<and> m (sp - 8) = ra \<and> m (sp - 16) = rbx c \<and> m (sp - 24) = rbp c \<and>
     m (sp - 32) = r12 c \<and> m (sp - 40) = r13 c \<and> m (sp - 48) = r14 c \<and> m (sp - 56) = r15 c"

definition frame_cells :: "u64 \<Rightarrow> usize set" where
  "frame_cells sp = {sp - 8, sp - 16, sp - 24, sp - 32, sp - 40, sp - 48, sp - 56}"

definition same_callee_saved :: "cpu \<Rightarrow> cpu \<Rightarrow> bool" where
  "same_callee_saved c d \<longleftrightarrow> rbx c = rbx d \<and> rbp c = rbp d \<and> r12 c = r12 d \<and> r13 c = r13 d \<and> r14 c = r14 d \<and> r15 c = r15 d"

lemma saved_mono:
  assumes "saved m ctx c ra sp" and "\<And>a. a \<in> insert ctx (frame_cells sp) \<Longrightarrow> m' a = m a"
  shows "saved m' ctx c ra sp"
  using assms by (simp add: saved_def frame_cells_def)

lemma load_frame_mem [simp]: "snd (load_frame s) = snd s"
  by (simp add: load_frame_def Let_def)

lemma load_frame_saved:
  assumes "saved (snd s) (rsi (fst s)) d ra sp"
  shows "same_callee_saved (fst (load_frame s)) d" and "rsp (fst (load_frame s)) = sp" and "rip (fst (load_frame s)) = ra"
  using assms by (simp_all add: load_frame_def Let_def RSP_OFFSET_def saved_def same_callee_saved_def)

lemma save_frame_mem:
  "snd (save_frame (c, m)) = m(rsp c - 8 := rbx c, rsp c - 16 := rbp c, rsp c - 24 := r12 c, rsp c - 32 := r13 c,
     rsp c - 40 := r14 c, rsp c - 48 := r15 c, rdi c := rsp c - 48)"
  "rsi (fst (save_frame (c, m))) = rsi c"
  by (simp_all add: save_frame_def Let_def RSP_OFFSET_def)

lemma switch_to_mem:
  "snd (switch_to current next_ctx ra (c, m)) = m(rsp c - 8 := ra, rsp c - 16 := rbx c, rsp c - 24 := rbp c,
     rsp c - 32 := r12 c, rsp c - 40 := r13 c, rsp c - 48 := r14 c, rsp c - 56 := r15 c, current := rsp c - 56)"
  by (simp add: switch_to_def switch_to_asm_def push_def save_frame_mem)

lemma switch_to_saves:
  assumes "current \<notin> frame_cells (rsp c)"
  shows "saved (snd (switch_to current next_ctx ra (c, m))) current c ra (rsp c)"
  using assms unfolding switch_to_mem by (auto simp: saved_def frame_cells_def)

lemma switch_to_frame:
  assumes "a \<notin> insert current (frame_cells (rsp c))"
  shows "snd (switch_to current next_ctx ra (c, m)) a = m a"
  using assms unfolding switch_to_mem by (simp add: frame_cells_def)

lemma switch_to_loads:
  assumes "saved (snd (switch_to current next_ctx ra (c, m))) next_ctx d ra' sp"
  shows "same_callee_saved (fst (switch_to current next_ctx ra (c, m))) d"
    and "rsp (fst (switch_to current next_ctx ra (c, m))) = sp" and "rip (fst (switch_to current next_ctx ra (c, m))) = ra'"
  using load_frame_saved [of "save_frame (push ra (c\<lparr>rdi := current, rsi := next_ctx\<rparr>, m))" d ra' sp] assms
  by (simp_all add: switch_to_def switch_to_asm_def push_def save_frame_mem)

section \<open>The contract of a context switch\<close>

text \<open>
  What \<open>TaskContext\<close> promises. \<open>holds m a c ra sp\<close> says that the context at \<open>a\<close> is a suspended
  execution with registers as in \<open>c\<close>, and \<open>area sp\<close> are the cells of its stack that it occupies.
\<close>

locale task_context =
  fixes switch :: "usize \<Rightarrow> usize \<Rightarrow> u64 \<Rightarrow> machine \<Rightarrow> machine"
    and holds :: "mem \<Rightarrow> usize \<Rightarrow> cpu \<Rightarrow> u64 \<Rightarrow> u64 \<Rightarrow> bool"
    and area :: "u64 \<Rightarrow> usize set"
  assumes saves: "a \<notin> area (rsp c) \<Longrightarrow> holds (snd (switch a b ra (c, m))) a c ra (rsp c)"
    and writes: "x \<notin> insert a (area (rsp c)) \<Longrightarrow> snd (switch a b ra (c, m)) x = m x"
    and loads: "holds (snd (switch a b ra (c, m))) b d ra' sp \<Longrightarrow>
      same_callee_saved (fst (switch a b ra (c, m))) d \<and> rsp (fst (switch a b ra (c, m))) = sp \<and>
      rip (fst (switch a b ra (c, m))) = ra'"
    and intact: "holds m a c ra sp \<Longrightarrow> (\<And>x. x \<in> insert a (area sp) \<Longrightarrow> m' x = m x) \<Longrightarrow> holds m' a c ra sp"
begin

lemma starts:
  assumes "holds m a c ra sp" and "insert a (area sp) \<inter> insert d (area (rsp c2)) = {}"
  shows "same_callee_saved (fst (switch d a ra2 (c2, m))) c \<and> rsp (fst (switch d a ra2 (c2, m))) = sp \<and>
    rip (fst (switch d a ra2 (c2, m))) = ra"
proof (rule loads, rule intact [OF assms(1)])
  show "snd (switch d a ra2 (c2, m)) x = m x" if "x \<in> insert a (area sp)" for x
    by (rule writes) (use assms(2) that in blast)
qed

lemma resumes:
  assumes "a \<notin> area (rsp c)" and "\<And>x. x \<in> insert a (area (rsp c)) \<Longrightarrow> m2 x = snd (switch a b ra (c, m)) x"
    and "insert a (area (rsp c)) \<inter> insert d (area (rsp c2)) = {}"
  shows "same_callee_saved (fst (switch d a ra2 (c2, m2))) c \<and> rsp (fst (switch d a ra2 (c2, m2))) = rsp c \<and>
    rip (fst (switch d a ra2 (c2, m2))) = ra"
  by (rule starts [OF intact [OF saves [OF assms(1)] assms(2)] assms(3)])

end

interpretation x86: task_context switch_to saved frame_cells
  by unfold_locales (use switch_to_saves switch_to_frame switch_to_loads saved_mono in \<open>simp_all\<close>)

section \<open>Fresh tasks\<close>

definition zero_regs :: cpu where
  "zero_regs = \<lparr>rax = 0, rbx = 0, rcx = 0, rdx = 0, rsi = 0, rdi = 0, rbp = 0, r8 = 0, r9 = 0, r10 = 0, r11 = 0,
     r12 = 0, r13 = 0, r14 = 0, r15 = 0, rsp = 0, rip = 0, rflags = 0, cs = 0, ss = 0, cr2 = 0, cr3 = 0\<rparr>"

lemma context_new_saved:
  assumes "64 \<le> unat tos" and "cell \<notin> frame_cells (tos - 8)"
  shows "\<exists>m'. context_new entry tos m = Inr (\<lparr>ctx_rsp = tos - 64\<rparr>, m') \<and> saved (m'(cell := tos - 64)) cell zero_regs entry (tos - 8)"
proof -
  have "unat (tos - 64) + 48 < 2 ^ 64"
    using assms(1) unat_bound [of tos] by (simp add: unat_sub word_le_nat_alt)
  then have "\<exists>x. uadd (tos - 64) 48 = Inr x"
    by (simp add: uadd_def checked_add_def)
  then show ?thesis
    using assms(2) by (auto simp: context_new_def Let_def saved_def zero_regs_def frame_cells_def)
qed

lemma stack_top_eq:
  assumes "16 dvd unat p" and "unat p + unat n < 2 ^ 64"
  shows "\<exists>tos. stack_top \<lparr>buf_ptr = p, buf_len = n\<rparr> = Inr tos \<and> unat tos = unat p + unat n div 16 * 16"
proof -
  have pow: "is_power_of_two (16 :: usize)"
    using is_power_of_two_power [of 4, where 'a = 64] by simp
  have "uadd p n = Inr (p + n)" "unat (p + n) = unat p + unat n"
    using assms(2) by (simp_all add: uadd_def checked_add_def unat_plus_if')
  moreover have "unat ((p + n) AND NOT (16 - 1)) = (unat p + unat n) div 16 * 16"
    using unat_and_not_low [OF pow, of "p + n"] calculation(2) by (simp add: minus_mod_eq_div_mult)
  moreover have "(unat p + unat n) div 16 * 16 = unat p + unat n div 16 * 16"
    using assms(1) by (metis add_mult_distrib div_plus_div_distrib_dvd_left dvd_div_mult_self)
  ultimately show ?thesis
    by (simp add: stack_top_def STACK_ALIGN_def)
qed

lemma task_new_frame:
  assumes p: "16 dvd unat p" "64 \<le> unat p" "unat p + unat sz < 2 ^ 64" "16 \<le> unat sz"
    and cell: "\<And>tos. stack_top \<lparr>buf_ptr = p, buf_len = sz\<rparr> = Inr tos \<Longrightarrow> cell \<notin> frame_cells (tos - 8)"
  shows "\<exists>t m' tos. task_new (Some p) cell entry pr sz spc n m = Inr (t, n + 1, m') \<and>
    task_id t = TaskId n \<and> state t = Created \<and> prio t = pr \<and> context_at t = cell \<and>
    stack t = \<lparr>buf_ptr = p, buf_len = sz\<rparr> \<and> stack_top (stack t) = Inr tos \<and> 16 dvd unat tos \<and>
    saved m' cell zero_regs entry (tos - 8) \<and> (unat p \<le> unat (tos - 64) \<longleftrightarrow> 64 \<le> unat sz)"
proof -
  obtain tos where t: "stack_top \<lparr>buf_ptr = p, buf_len = sz\<rparr> = Inr tos" "unat tos = unat p + unat sz div 16 * 16"
    using stack_top_eq [OF p(1,3)] by blast
  have big: "64 \<le> unat tos" and al: "16 dvd unat tos"
    using t(2) p(1,2) by simp_all
  have "unat (tos - 64) = unat tos - 64"
    using big by (simp add: unat_sub word_le_nat_alt)
  then have fit: "unat p \<le> unat (tos - 64) \<longleftrightarrow> 64 \<le> unat sz"
    using big t(2) less_eq_div_iff_mult_less_eq [of 16 4 "unat sz"] by auto
  obtain m' where m': "context_new entry tos (zero_bytes p sz m) = Inr (\<lparr>ctx_rsp = tos - 64\<rparr>, m')"
    "saved (m'(cell := tos - 64)) cell zero_regs entry (tos - 8)"
    using context_new_saved [OF big cell [OF t(1)]] by blast
  have "STACK_ALIGN \<le> sz"
    using p(4) by (simp add: STACK_ALIGN_def word_le_nat_alt)
  then show ?thesis
    using t(1) m' al fit by (simp add: task_new_def kernel_stack_new_def RSP_OFFSET_def task_id_next_def)
qed

lemma task_new_Inr:
  assumes "task_new sb cell entry pr sz spc n m = Inr (t, n', m')"
  shows "task_id t = TaskId n" and "n' = n + 1" and "context_at t = cell" and "state t = Created" and "prio t = pr"
  using assms by (auto simp: task_new_def task_id_next_def rbind_Inr_iff split: prod.splits)

section \<open>Properties\<close>



text \<open>
  C35. A context switch and back. Suspending \<open>c\<close> by a switch from context \<open>a\<close> to context \<open>b\<close> and
  later, from any state in which the frame and the context cell of \<open>a\<close> are intact, switching from a
  context \<open>d\<close> to \<open>a\<close> resumes at the return address of the first call with the stack pointer and all
  callee-saved registers of \<open>c\<close>. The first switch writes no other memory than its frame and the cell
  of \<open>a\<close>.
\<close>

theorem context_switch_roundtrip:
  assumes "a \<notin> frame_cells (rsp c)"
    and "\<And>x. x \<in> insert a (frame_cells (rsp c)) \<Longrightarrow> m2 x = snd (switch_to a b ra (c, m)) x"
    and "insert a (frame_cells (rsp c)) \<inter> insert d (frame_cells (rsp c2)) = {}"
  shows "same_callee_saved (fst (switch_to d a ra2 (c2, m2))) c \<and>
    rsp (fst (switch_to d a ra2 (c2, m2))) = rsp c \<and> rip (fst (switch_to d a ra2 (c2, m2))) = ra \<and>
    {x. snd (switch_to a b ra (c, m)) x \<noteq> m x} \<subseteq> insert a (frame_cells (rsp c))"
proof -
  have "x \<in> insert a (frame_cells (rsp c))" if "snd (switch_to a b ra (c, m)) x \<noteq> m x" for x
    using that x86.writes [of x a c b ra m] by argo
  then show ?thesis
    using x86.resumes [OF assms, of ra2] by (simp add: subset_eq)
qed

theorem context_switch_roundtrip_witness:
  "let c = zero_regs\<lparr>rbx := 7, rsp := 8192\<rparr>; m = (\<lambda>_. 0 :: u64); s = switch_to 64 128 0x1234 (c, m) in
   rbx (fst (switch_to 128 64 0x5678 ((fst s)\<lparr>rsp := 16384\<rparr>, snd s))) = 7 \<and>
   rip (fst (switch_to 128 64 0x5678 ((fst s)\<lparr>rsp := 16384\<rparr>, snd s))) = 0x1234"
proof -
  let ?c = "zero_regs\<lparr>rbx := 7, rsp := 8192\<rparr>"
  let ?s = "switch_to 64 128 0x1234 (?c, \<lambda>_. 0)"
  have "64 \<notin> frame_cells (rsp ?c)"
    "insert 64 (frame_cells (rsp ?c)) \<inter> insert 128 (frame_cells (rsp ((fst ?s)\<lparr>rsp := 16384\<rparr>))) = {}"
    by (simp_all add: frame_cells_def)
  from context_switch_roundtrip [OF this(1) refl this(2), of "0x5678"] show ?thesis
    by (simp add: same_callee_saved_def Let_def)
qed

end
