(* ===== verification/Scheduler.thy ===== *)
theory Scheduler
  imports Task "HOL-Library.Multiset"
begin

text \<open>
  The cooperative scheduler (\<open>eira/src/task/scheduler.rs\<close>). The statics \<open>SCHEDULER\<close> (with its lock)
  and the counter of \<open>TaskId::next\<close>, together with the core that runs the tasks, form the record
  \<open>sched_state\<close>. A queue is the list of its tasks from front to back. The addresses that the
  global allocator hands out for new tasks, and the addresses of code (the entry of the idle
  task and the points at which \<open>schedule\<close> is called), are arguments.
\<close>

section \<open>The scheduler\<close>

record scheduler =
  run_queue :: "task list"
  current :: "task option"
  idle :: task
  dead :: "task list"

record sched_state =
  SCHEDULER :: "scheduler option"
  sched_locked :: bool
  id_counter :: u64
  core :: machine

definition scheduler_new :: "task \<Rightarrow> scheduler" where
  "scheduler_new idle_task = \<lparr>run_queue = [], current = None, idle = idle_task, dead = []\<rparr>"

definition enqueue :: "task \<Rightarrow> scheduler \<Rightarrow> scheduler res" where
  "enqueue t s = rbind (mark_ready t) (\<lambda>t. Inr (s\<lparr>run_queue := run_queue s @ [t]\<rparr>))"

text \<open>The loop of \<open>pick_next\<close>, from index \<open>i\<close> on.\<close>

fun pick_scan :: "nat \<Rightarrow> nat option \<Rightarrow> u8 \<Rightarrow> task list \<Rightarrow> nat option" where
  "pick_scan i best_idx best_priority [] = best_idx"
| "pick_scan i best_idx best_priority (t # ts) =
     (if is_runnable t \<and> best_priority < priority_as_u8 (prio t)
      then pick_scan (i + 1) (Some i) (priority_as_u8 (prio t)) ts
      else pick_scan (i + 1) best_idx best_priority ts)"

text \<open>\<open>VecDeque::remove\<close>.\<close>

definition queue_remove :: "nat \<Rightarrow> 'a list \<Rightarrow> ('a \<times> 'a list) option" where
  "queue_remove i q = (if i < length q then Some (q ! i, take i q @ drop (i + 1) q) else None)"

definition pick_next :: "scheduler \<Rightarrow> task option \<times> scheduler" where
  "pick_next s =
     (case pick_scan 0 None 0 (run_queue s) of
        None \<Rightarrow> (None, s)
      | Some i \<Rightarrow> (case queue_remove i (run_queue s) of
            None \<Rightarrow> (None, s)
          | Some (t, q) \<Rightarrow> (Some t, s\<lparr>run_queue := q\<rparr>)))"

definition reap :: "scheduler \<Rightarrow> scheduler" where
  "reap s = s\<lparr>dead := []\<rparr>"

definition task_count :: "scheduler \<Rightarrow> usize res" where
  "task_count s =
     rbind (uadd (of_nat (length (run_queue s))) (case current s of None \<Rightarrow> 0 | Some _ \<Rightarrow> 1)) (\<lambda>n.
     uadd n (of_nat (length (dead s))))"

section \<open>The global entry points\<close>

definition sched_lock :: "sched_state \<Rightarrow> sched_state res" where
  "sched_lock st = (if sched_locked st then Inl Deadlock else Inr (st\<lparr>sched_locked := True\<rparr>))"

definition with_scheduler :: "(scheduler \<Rightarrow> ('a \<times> scheduler) res) \<Rightarrow> sched_state \<Rightarrow> ('a \<times> sched_state) res" where
  "with_scheduler f st =
     rbind (sched_lock st) (\<lambda>st.
     rbind (expect (SCHEDULER st) ''scheduler not initialised'') (\<lambda>s.
     rbind (f s) (\<lambda>(r, s). Inr (r, st\<lparr>SCHEDULER := Some s, sched_locked := False\<rparr>))))"

definition sched_init :: "usize option \<Rightarrow> usize \<Rightarrow> u64 \<Rightarrow> usize \<Rightarrow> sched_state \<Rightarrow> sched_state res" where
  "sched_init stack_buf cell idle_task kernel_address_space st =
     rbind (sched_lock st) (\<lambda>st.
     rbind (require (SCHEDULER st = None) ''scheduler::init() called more than once'') (\<lambda>_.
     rbind (task_new stack_buf cell idle_task PRIORITY_IDLE DEFAULT_STACK_SIZE kernel_address_space
              (id_counter st) (snd (core st))) (\<lambda>(t, n, m).
       Inr (st\<lparr>SCHEDULER := Some (scheduler_new t), id_counter := n, core := (fst (core st), m),
               sched_locked := False\<rparr>))))"

definition spawn ::
    "usize option \<Rightarrow> usize \<Rightarrow> u64 \<Rightarrow> priority \<Rightarrow> usize \<Rightarrow> sched_state \<Rightarrow> (task_id \<times> sched_state) res" where
  "spawn stack_buf cell entry pr spc st =
     rbind (task_new stack_buf cell entry pr DEFAULT_STACK_SIZE spc (id_counter st) (snd (core st))) (\<lambda>(t, n, m).
     let st = st\<lparr>id_counter := n, core := (fst (core st), m)\<rparr>; new_id = task_id t in
     rbind (with_scheduler (\<lambda>s. rbind (enqueue t s) (\<lambda>s. Inr ((), s))) st) (\<lambda>(_, st). Inr (new_id, st)))"

text \<open>
  The part of \<open>schedule\<close> that runs under the lock: where to save the current context and which
  one to load.
\<close>

definition park_current :: "block_reason option \<Rightarrow> scheduler \<Rightarrow> (usize \<times> scheduler) res" where
  "park_current reason s =
     (case current s of
        Some cur \<Rightarrow>
          rbind (case reason of Some r \<Rightarrow> task_block r cur | None \<Rightarrow> Inr (cur\<lparr>state := Ready\<rparr>)) (\<lambda>cur.
            Inr (context_at cur, s\<lparr>current := None, run_queue := run_queue s @ [cur]\<rparr>))
      | None \<Rightarrow> Inr (context_at (idle s), s))"

definition select_next :: "scheduler \<Rightarrow> usize \<times> scheduler" where
  "select_next s =
     (case pick_next s of
        (Some n, s) \<Rightarrow> (context_at n, s\<lparr>current := Some (n\<lparr>state := Running\<rparr>)\<rparr>)
      | (None, s) \<Rightarrow> (context_at (idle s), s\<lparr>idle := (idle s)\<lparr>state := Running\<rparr>\<rparr>))"

definition schedule_step :: "block_reason option \<Rightarrow> scheduler \<Rightarrow> ((usize \<times> usize) \<times> scheduler) res" where
  "schedule_step reason s =
     rbind (park_current reason (reap s)) (\<lambda>(cur_ptr, s).
       case select_next s of (next_ptr, s) \<Rightarrow> Inr ((cur_ptr, next_ptr), s))"

definition schedule :: "block_reason option \<Rightarrow> u64 \<Rightarrow> sched_state \<Rightarrow> sched_state res" where
  "schedule reason ra st =
     rbind (with_scheduler (schedule_step reason) st) (\<lambda>((cur_ptr, next_ptr), st).
       Inr (st\<lparr>core := switch_to cur_ptr next_ptr ra (core st)\<rparr>))"

definition yield_now :: "u64 \<Rightarrow> sched_state \<Rightarrow> sched_state res" where
  "yield_now ra st = schedule None ra st"

definition block :: "block_reason \<Rightarrow> u64 \<Rightarrow> sched_state \<Rightarrow> sched_state res" where
  "block reason ra st = schedule (Some reason) ra st"

text \<open>\<open>iter_mut().find(..)\<close> followed by \<open>mark_ready\<close> on the task found.\<close>

fun ready_first :: "task_id \<Rightarrow> task list \<Rightarrow> task list option res" where
  "ready_first i [] = Inr None"
| "ready_first i (t # ts) =
     (if task_id t = i then rbind (mark_ready t) (\<lambda>t. Inr (Some (t # ts)))
      else rbind (ready_first i ts) (\<lambda>r. Inr (map_option (\<lambda>ts. t # ts) r)))"

definition unblock_in :: "task_id \<Rightarrow> scheduler \<Rightarrow> (unit \<times> scheduler) res" where
  "unblock_in i s =
     rbind (ready_first i (run_queue s)) (\<lambda>r.
       case r of
         Some q \<Rightarrow> Inr ((), s\<lparr>run_queue := q\<rparr>)
       | None \<Rightarrow>
           if \<exists>t \<in> set (dead s). task_id t = i then Inr ((), s)
           else Inl (Panic ''unblock: task not found''))"

definition unblock :: "task_id \<Rightarrow> sched_state \<Rightarrow> (unit \<times> sched_state) res" where
  "unblock i st = with_scheduler (unblock_in i) st"

definition retire :: "scheduler \<Rightarrow> (unit \<times> scheduler) res" where
  "retire s =
     (case current s of
        Some t \<Rightarrow> Inr ((), s\<lparr>current := None, dead := dead s @ [kill t]\<rparr>)
      | None \<Rightarrow> Inr ((), s))"

text \<open>
  \<open>exit\<close>: the code at the return address \<open>ra\<close> of its call of \<open>schedule\<close> is \<open>unreachable!()\<close>.
\<close>

definition exit :: "u64 \<Rightarrow> sched_state \<Rightarrow> sched_state res" where
  "exit ra st = rbind (with_scheduler retire st) (\<lambda>(_, st). schedule None ra st)"

section \<open>Picking the next task\<close>

definition eligible :: "task \<Rightarrow> bool" where
  "eligible t \<longleftrightarrow> is_runnable t \<and> 0 < priority_as_u8 (prio t)"

definition rank :: "task \<Rightarrow> nat" where
  "rank t = 255 - unat (priority_as_u8 (prio t))"

text \<open>
  The reference: sort the eligible tasks by falling priority, keeping the order of the queue among
  equals, and take the first.
\<close>

definition highest_first :: "task list \<Rightarrow> (task \<times> task list) option" where
  "highest_first q =
     (case sort_key rank (filter eligible q) of [] \<Rightarrow> None | t # _ \<Rightarrow> Some (t, remove1 t q))"

lemma rank_less: "rank t < rank u \<longleftrightarrow> priority_as_u8 (prio u) < priority_as_u8 (prio t)"
proof -
  have "unat (priority_as_u8 (prio v)) < 256" for v
    using unat_bound [of "priority_as_u8 (prio v)"] by simp
  from this [of t] this [of u] show ?thesis
    by (auto simp: rank_def word_less_nat_alt)
qed


abbreviation level :: "task \<Rightarrow> u8" where
  "level t \<equiv> priority_as_u8 (prio t)"

lemma pick_scan_none:
  "\<forall>t \<in> set q. \<not> (is_runnable t \<and> b < level t) \<Longrightarrow> pick_scan i best b q = best"
  by (induction q arbitrary: i) auto

lemma pick_scan_first:
  assumes "is_runnable t" and "b < level t" and "\<forall>x \<in> set xs. is_runnable x \<longrightarrow> level x < level t"
    and "\<forall>y \<in> set ys. is_runnable y \<longrightarrow> level y \<le> level t"
  shows "pick_scan i best b (xs @ t # ys) = Some (i + length xs)"
  using assms(2,3)
proof (induction xs arbitrary: i best b)
  case Nil
  then show ?case
    using assms(1,4) pick_scan_none [of ys "level t" "i + 1" "Some i"] by (simp add: not_less)
next
  case (Cons x xs)
  then show ?case
    by simp
qed

definition first_best :: "task list \<Rightarrow> task \<Rightarrow> task list \<Rightarrow> bool" where
  "first_best xs t ys \<longleftrightarrow> eligible t \<and> (\<forall>x \<in> set xs. eligible x \<longrightarrow> level x < level t) \<and>
     (\<forall>y \<in> set ys. eligible y \<longrightarrow> level y \<le> level t)"

lemma pick_next_none: "\<forall>t \<in> set (run_queue s). \<not> eligible t \<Longrightarrow> pick_next s = (None, s)"
  using pick_scan_none [of "run_queue s" 0 0 None] by (auto simp: pick_next_def eligible_def)

lemma pick_next_some:
  assumes "run_queue s = xs @ t # ys" and "first_best xs t ys"
  shows "pick_next s = (Some t, s\<lparr>run_queue := xs @ ys\<rparr>)"
proof -
  have t: "is_runnable t" "0 < level t"
    using assms(2) by (auto simp: first_best_def eligible_def)
  have "level x < level t" if "x \<in> set xs" "is_runnable x" for x
    using that assms(2) t(2) by (cases "level x = 0") (auto simp: first_best_def eligible_def word_neq_0_conv)
  moreover have "level y \<le> level t" if "y \<in> set ys" "is_runnable y" for y
    using that assms(2) t(2) by (cases "level y = 0") (auto simp: first_best_def eligible_def word_neq_0_conv)
  ultimately have "pick_scan 0 None 0 (run_queue s) = Some (length xs)"
    using pick_scan_first [OF t, of xs ys 0 None] assms(1) by simp
  then show ?thesis
    using assms(1) by (simp add: pick_next_def queue_remove_def)
qed

lemma highest_first_None: "highest_first q = None \<longleftrightarrow> (\<forall>t \<in> set q. \<not> eligible t)"
proof -
  have "sort_key rank (filter eligible q) = [] \<longleftrightarrow> (\<forall>t \<in> set q. \<not> eligible t)"
    by (metis filter_empty_conv set_empty set_sort)
  then show ?thesis
    by (auto simp: highest_first_def split: list.splits)
qed

lemma highest_first_Some:
  assumes "highest_first q = Some (t, q')"
  obtains xs ys where "q = xs @ t # ys" "q' = xs @ ys" "first_best xs t ys"
proof -
  obtain r where srt: "sort_key rank (filter eligible q) = t # r" and q': "q' = remove1 t q"
    using assms by (auto simp: highest_first_def split: list.splits)
  have "sorted (map rank (t # r))"
    by (metis srt sorted_sort_key)
  moreover have "set (t # r) = {u \<in> set q. eligible u}"
    by (metis srt set_filter set_sort)
  ultimately have best: "rank t \<le> rank u" if "u \<in> set q" "eligible u" for u
    using that by auto
  have "filter (\<lambda>x. rank x = rank t) (t # r) = filter (\<lambda>x. rank x = rank t) (filter eligible q)"
    by (metis srt sort_key_stable)
  then have "filter (\<lambda>x. eligible x \<and> rank x = rank t) q = t # filter (\<lambda>x. rank x = rank t) r"
    by (simp add: conj_commute)
  then obtain xs ys where q: "q = xs @ t # ys" "\<forall>x \<in> set xs. \<not> (eligible x \<and> rank x = rank t)" "eligible t"
    by (auto simp: filter_eq_Cons_iff)
  have "t \<notin> set xs"
    using q(2,3) by auto
  then have "q' = xs @ ys"
    using q' q(1) by (simp add: remove1_append)
  moreover have "first_best xs t ys"
  proof -
    have "rank t < rank x" if "x \<in> set xs" "eligible x" for x
      using q(2) best [of x] q(1) that by fastforce
    moreover have "\<not> rank y < rank t" if "y \<in> set ys" "eligible y" for y
      using best [of y] q(1) that by fastforce
    ultimately show ?thesis
      using q(3) by (simp add: first_best_def rank_less not_less)
  qed
  ultimately show thesis
    using that q(1) by blast
qed

lemma pick_next_reference:
  "pick_next s = (case highest_first (run_queue s) of
     None \<Rightarrow> (None, s) | Some (t, q) \<Rightarrow> (Some t, s\<lparr>run_queue := q\<rparr>))"
proof (cases "highest_first (run_queue s)")
  case None
  then have "pick_next s = (None, s)"
    using pick_next_none by (simp add: highest_first_None)
  with None show ?thesis
    by simp
next
  case (Some p)
  obtain t q where p: "p = (t, q)"
    by (cases p)
  obtain xs ys where "run_queue s = xs @ t # ys" "q = xs @ ys" "first_best xs t ys"
    by (rule highest_first_Some [OF Some [unfolded p]])
  then show ?thesis
    using pick_next_some Some p by simp
qed

lemma pick_next_cases:
  obtains (none) "\<forall>t \<in> set (run_queue s). \<not> eligible t" "pick_next s = (None, s)"
  | (some) xs t ys where "run_queue s = xs @ t # ys" "first_best xs t ys" "pick_next s = (Some t, s\<lparr>run_queue := xs @ ys\<rparr>)"
proof (cases "highest_first (run_queue s)")
  case None
  then show thesis
    using none pick_next_none [of s] by (simp add: highest_first_None)
next
  case (Some p)
  obtain t q where p: "p = (t, q)"
    by (cases p)
  obtain xs ys where "run_queue s = xs @ t # ys" "first_best xs t ys"
    by (rule highest_first_Some [OF Some [unfolded p]])
  then show thesis
    using some pick_next_some by blast
qed

section \<open>The invariant of the scheduler\<close>

definition tasks_of :: "scheduler \<Rightarrow> task list" where
  "tasks_of s = run_queue s @ (case current s of None \<Rightarrow> [] | Some t \<Rightarrow> [t]) @ dead s @ [idle s]"

text \<open>
  Every task is in one place, with its own id below the counter and its own context, and its state
  says where it is.
\<close>

definition places_ok :: "scheduler \<Rightarrow> bool" where
  "places_ok s \<longleftrightarrow> (\<forall>t \<in> set (run_queue s). state t = Ready \<or> (\<exists>r. state t = Blocked r)) \<and>
     (\<forall>t. current s = Some t \<longrightarrow> state t = Running) \<and> (\<forall>t \<in> set (dead s). state t = Dead) \<and>
     (state (idle s) = Created \<or> state (idle s) = Running)"

definition keys_ok :: "u64 \<Rightarrow> scheduler \<Rightarrow> bool" where
  "keys_ok n s \<longleftrightarrow> distinct (map task_id (tasks_of s)) \<and> distinct (map context_at (tasks_of s)) \<and>
     (\<forall>t \<in> set (tasks_of s). tid_as_u64 (task_id t) < n)"

definition sched_ok :: "sched_state \<Rightarrow> bool" where
  "sched_ok st \<longleftrightarrow> \<not> sched_locked st \<and> (\<exists>s. SCHEDULER st = Some s \<and> places_ok s \<and> keys_ok (id_counter st) s)"

definition same_keys :: "scheduler \<Rightarrow> scheduler \<Rightarrow> bool" where
  "same_keys s s' \<longleftrightarrow> mset (map (\<lambda>t. (task_id t, context_at t)) (tasks_of s')) = mset (map (\<lambda>t. (task_id t, context_at t)) (tasks_of s))"

lemma same_keys_ok:
  assumes "same_keys s s'" and "keys_ok n s"
  shows "keys_ok n s'"
proof -
  let ?f = "\<lambda>t. (task_id t, context_at t)"
  have m: "mset (map (g \<circ> ?f) (tasks_of s')) = mset (map (g \<circ> ?f) (tasks_of s))" for g :: "task_id \<times> usize \<Rightarrow> 'b"
    using arg_cong [OF assms(1) [unfolded same_keys_def], of "image_mset g"] by (simp flip: mset_map)
  have i: "mset (map task_id (tasks_of s')) = mset (map task_id (tasks_of s))"
    "mset (map context_at (tasks_of s')) = mset (map context_at (tasks_of s))"
    using m [of fst] m [of snd] by (simp_all add: comp_def)
  then have "task_id ` set (tasks_of s') = task_id ` set (tasks_of s)"
    by (metis mset_eq_setD set_map)
  then have "\<forall>t \<in> set (tasks_of s'). tid_as_u64 (task_id t) < n"
    using assms(2) unfolding keys_ok_def by (metis imageE imageI)
  then show ?thesis
    using assms(2) mset_eq_imp_distinct_iff [OF i(1)] mset_eq_imp_distinct_iff [OF i(2)] by (simp add: keys_ok_def)
qed

lemma keys_ok_reap: "keys_ok n s \<Longrightarrow> keys_ok n (reap s)"
  by (auto simp: keys_ok_def tasks_of_def reap_def)

lemma park_current_ok:
  assumes "places_ok s"
  shows "\<exists>p s'. park_current reason s = Inr (p, s') \<and> places_ok s' \<and> same_keys s s' \<and> current s' = None \<and>
    idle s' = idle s \<and> dead s' = dead s \<and>
    (case current s of
       None \<Rightarrow> p = context_at (idle s) \<and> run_queue s' = run_queue s
     | Some t \<Rightarrow> p = context_at t \<and>
         run_queue s' = run_queue s @ [t\<lparr>state := case reason of None \<Rightarrow> Ready | Some r \<Rightarrow> Blocked r\<rparr>])"
proof (cases "current s")
  case None
  then show ?thesis
    using assms by (simp add: park_current_def same_keys_def)
next
  case (Some t)
  then have "state t = Running"
    using assms by (simp add: places_ok_def)
  then show ?thesis
    using assms Some by (cases reason)
      (auto simp: park_current_def task_block_def same_keys_def tasks_of_def places_ok_def)
qed

lemma select_next_ok:
  assumes "places_ok s" and "current s = None"
  shows "places_ok (snd (select_next s)) \<and> same_keys s (snd (select_next s))"
proof (cases rule: pick_next_cases [of s])
  case none
  then show ?thesis
    using assms by (simp add: select_next_def places_ok_def same_keys_def tasks_of_def)
next
  case (some xs t ys)
  then show ?thesis
    using assms by (auto simp: select_next_def places_ok_def same_keys_def tasks_of_def)
qed

lemma schedule_step_ok:
  assumes "places_ok s" and "keys_ok n s"
  shows "\<exists>p s'. schedule_step reason s = Inr (p, s') \<and> places_ok s' \<and> keys_ok n s'"
proof -
  have r: "places_ok (reap s)" "keys_ok n (reap s)"
    using assms keys_ok_reap by (simp_all add: places_ok_def reap_def)
  obtain p s1 where s1: "park_current reason (reap s) = Inr (p, s1)" "places_ok s1" "same_keys (reap s) s1" "current s1 = None"
    using park_current_ok [OF r(1)] by blast
  note S = select_next_ok [OF s1(2,4)]
  have "keys_ok n (snd (select_next s1))"
    using same_keys_ok S same_keys_ok [OF s1(3) r(2)] by blast
  with S s1(1) show ?thesis
    by (cases "select_next s1") (simp add: schedule_step_def)
qed

lemma schedule_ok:
  assumes "sched_ok st"
  shows "\<exists>st'. schedule reason ra st = Inr st' \<and> sched_ok st' \<and> id_counter st' = id_counter st"
proof -
  obtain s where s: "SCHEDULER st = Some s" "places_ok s" "keys_ok (id_counter st) s" "\<not> sched_locked st"
    using assms by (auto simp: sched_ok_def)
  then obtain p s' where "schedule_step reason s = Inr (p, s')" "places_ok s'" "keys_ok (id_counter st) s'"
    using schedule_step_ok by blast
  then show ?thesis
    using s(1,4) by (cases p) (auto simp: schedule_def with_scheduler_def sched_lock_def sched_ok_def)
qed

lemma retire_ok:
  assumes "places_ok s" and "keys_ok n s"
  shows "\<exists>s'. retire s = Inr ((), s') \<and> places_ok s' \<and> keys_ok n s' \<and> current s' = None"
proof (cases "current s")
  case None
  then show ?thesis
    using assms by (simp add: retire_def)
next
  case (Some t)
  let ?s = "s\<lparr>current := None, dead := dead s @ [kill t]\<rparr>"
  have "places_ok ?s" "same_keys s ?s"
    using assms(1) Some by (auto simp: places_ok_def same_keys_def tasks_of_def kill_def)
  then show ?thesis
    using same_keys_ok assms(2) Some by (simp add: retire_def)
qed

lemma exit_ok:
  assumes "sched_ok st"
  shows "\<exists>st'. exit ra st = Inr st' \<and> sched_ok st'"
proof -
  obtain s where s: "SCHEDULER st = Some s" "places_ok s" "keys_ok (id_counter st) s" "\<not> sched_locked st"
    using assms by (auto simp: sched_ok_def)
  then obtain s' where "retire s = Inr ((), s')" "places_ok s'" "keys_ok (id_counter st) s'"
    using retire_ok by blast
  then have "with_scheduler retire st = Inr ((), st\<lparr>SCHEDULER := Some s', sched_locked := False\<rparr>)"
    "sched_ok (st\<lparr>SCHEDULER := Some s', sched_locked := False\<rparr>)"
    using s(1,4) by (simp_all add: with_scheduler_def sched_lock_def sched_ok_def)
  then show ?thesis
    using schedule_ok [of "st\<lparr>SCHEDULER := Some s', sched_locked := False\<rparr>" None ra] by (auto simp: exit_def)
qed

lemma ready_first_ok:
  assumes "\<forall>t \<in> set q. state t = Ready \<or> (\<exists>r. state t = Blocked r)"
  shows "if i \<in> task_id ` set q
    then \<exists>q'. ready_first i q = Inr (Some q') \<and> (\<forall>t \<in> set q'. state t = Ready \<or> (\<exists>r. state t = Blocked r)) \<and>
      map task_id q' = map task_id q \<and> map context_at q' = map context_at q
    else ready_first i q = Inr None"
  using assms
proof (induction q)
  case (Cons t q)
  have t: "state t \<noteq> Running" "state t \<noteq> Dead"
    using Cons.prems by auto
  show ?case
  proof (cases "task_id t = i")
    case True
    then show ?thesis
      using t Cons.prems by (simp add: mark_ready_def)
  next
    case False
    show ?thesis
    proof (cases "i \<in> task_id ` set q")
      case True
      then obtain q' where "ready_first i q = Inr (Some q')" "\<forall>t \<in> set q'. state t = Ready \<or> (\<exists>r. state t = Blocked r)"
        "map task_id q' = map task_id q" "map context_at q' = map context_at q"
        using Cons.IH Cons.prems by auto
      then show ?thesis
        using True \<open>task_id t \<noteq> i\<close> Cons.prems by simp
    next
      case no: False
      then have "ready_first i q = Inr None"
        using Cons by simp
      then show ?thesis
        using no \<open>task_id t \<noteq> i\<close> by simp
    qed
  qed
qed simp

lemma unblock_ok:
  assumes st: "SCHEDULER st = Some s" "sched_ok st"
  shows "if i \<in> task_id ` set (run_queue s) \<or> i \<in> task_id ` set (dead s)
    then \<exists>st'. unblock i st = Inr ((), st') \<and> sched_ok st'
    else unblock i st = Inl (Panic ''unblock: task not found'')"
proof -
  have s: "places_ok s" "keys_ok (id_counter st) s" "\<not> sched_locked st"
    using st by (auto simp: sched_ok_def)
  have q: "\<forall>t \<in> set (run_queue s). state t = Ready \<or> (\<exists>r. state t = Blocked r)"
    using s(1) by (simp add: places_ok_def)
  note un = unblock_def with_scheduler_def sched_lock_def unblock_in_def
  show ?thesis
  proof (cases "i \<in> task_id ` set (run_queue s)")
    case True
    then obtain q' where q': "ready_first i (run_queue s) = Inr (Some q')"
      "\<forall>t \<in> set q'. state t = Ready \<or> (\<exists>r. state t = Blocked r)"
      "map task_id q' = map task_id (run_queue s)" "map context_at q' = map context_at (run_queue s)"
      using ready_first_ok [OF q, of i] by auto
    have "zip (map task_id q') (map context_at q') = zip (map task_id (run_queue s)) (map context_at (run_queue s))"
      using q'(3,4) by simp
    then have "map (\<lambda>t. (task_id t, context_at t)) q' = map (\<lambda>t. (task_id t, context_at t)) (run_queue s)"
      by (simp add: zip_map_map zip_same_conv_map comp_def)
    then have "same_keys s (s\<lparr>run_queue := q'\<rparr>)"
      by (simp add: same_keys_def tasks_of_def flip: mset_map)
    then have "keys_ok (id_counter st) (s\<lparr>run_queue := q'\<rparr>)" "places_ok (s\<lparr>run_queue := q'\<rparr>)"
      using same_keys_ok s(1,2) q'(2) by (simp_all add: places_ok_def)
    then show ?thesis
      using True q'(1) st(1) s(3) by (simp add: un sched_ok_def)
  next
    case False
    then have "ready_first i (run_queue s) = Inr None"
      using ready_first_ok [OF q, of i] by simp
    then show ?thesis
      using False st(1) s by (auto simp: un sched_ok_def)
  qed
qed

section \<open>Runs of the scheduler\<close>

definition cells_of :: "sched_state \<Rightarrow> usize set" where
  "cells_of st = (case SCHEDULER st of None \<Rightarrow> {} | Some s \<Rightarrow> context_at ` set (tasks_of s))"

text \<open>
  One call of an entry point. The global allocator places the context of a new task in a cell of
  its own, and the counter of ids has not wrapped around.
\<close>

inductive sched_step :: "sched_state \<Rightarrow> sched_state \<Rightarrow> bool" where
  spawned: "spawn sb cell entry pr spc st = Inr (i, st') \<Longrightarrow> cell \<notin> cells_of st \<Longrightarrow>
    unat (id_counter st) + 1 < 2 ^ 64 \<Longrightarrow> sched_step st st'"
| yielded: "yield_now ra st = Inr st' \<Longrightarrow> sched_step st st'"
| blocked: "block r ra st = Inr st' \<Longrightarrow> sched_step st st'"
| unblocked: "unblock i st = Inr ((), st') \<Longrightarrow> sched_step st st'"
| exited: "exit ra st = Inr st' \<Longrightarrow> sched_step st st'"

inductive_cases sched_stepE: "sched_step st st'"

lemma spawn_ok:
  assumes ok: "sched_ok st" and run: "spawn sb cell entry pr spc st = Inr (i, st')"
    and cell: "cell \<notin> cells_of st" and n: "unat (id_counter st) + 1 < 2 ^ 64"
  shows "sched_ok st'"
proof -
  obtain s where s: "SCHEDULER st = Some s" "places_ok s" "keys_ok (id_counter st) s" "\<not> sched_locked st"
    using ok by (auto simp: sched_ok_def)
  obtain t k m where t: "task_new sb cell entry pr DEFAULT_STACK_SIZE spc (id_counter st) (snd (core st)) = Inr (t, k, m)"
    using run by (auto simp: spawn_def rbind_Inr_iff)
  note T = task_new_Inr [OF t]
  let ?s = "s\<lparr>run_queue := run_queue s @ [t\<lparr>state := Ready\<rparr>]\<rparr>"
  have st': "st' = st\<lparr>id_counter := id_counter st + 1, core := (fst (core st), m), sched_locked := False, SCHEDULER := Some ?s\<rparr>"
    using run t s(1,4) T(2,4)
    by (auto simp: spawn_def with_scheduler_def sched_lock_def enqueue_def mark_ready_def)
  have less: "x < id_counter st \<Longrightarrow> x < id_counter st + 1" "id_counter st < id_counter st + 1" for x
    using n by (auto simp: word_less_nat_alt unat_plus_if')
  have "\<forall>u \<in> set (tasks_of s). tid_as_u64 (task_id u) < id_counter st" "cell \<notin> context_at ` set (tasks_of s)"
    using s(3) cell s(1) by (simp_all add: keys_ok_def cells_of_def)
  then have new: "TaskId (id_counter st) \<notin> task_id ` set (tasks_of s)" "cell \<notin> context_at ` set (tasks_of s)"
    by (auto simp del: image_iff elim!: imageE) (metis less_irrefl task_id.sel)
  have "set (tasks_of ?s) = insert (t\<lparr>state := Ready\<rparr>) (set (tasks_of s))"
    "mset (map f (tasks_of ?s)) = mset (map f (t\<lparr>state := Ready\<rparr> # tasks_of s))" for f :: "task \<Rightarrow> 'b"
    by (auto simp: tasks_of_def)
  note k = this(1) mset_eq_imp_distinct_iff [OF this(2)]
  have "keys_ok (id_counter st + 1) ?s"
    using s(3) new less T(1,3) k(2) [of task_id] k(2) [of context_at]
    by (auto simp: keys_ok_def k(1))
  moreover have "places_ok ?s"
    using s(2) by (auto simp: places_ok_def)
  ultimately show ?thesis
    by (simp add: st' sched_ok_def)
qed

lemma sched_step_ok: "sched_step st st' \<Longrightarrow> sched_ok st \<Longrightarrow> sched_ok st'"
proof (erule sched_stepE)
  fix i
  assume "unblock i st = Inr ((), st')" "sched_ok st"
  moreover from this obtain s where "SCHEDULER st = Some s"
    by (auto simp: sched_ok_def)
  ultimately show "sched_ok st'"
    using unblock_ok [of st s i] by (auto split: if_splits)
next
  fix ra
  assume "exit ra st = Inr st'" "sched_ok st"
  then show "sched_ok st'"
    using exit_ok [of st ra] by auto
next
  fix ra
  assume "yield_now ra st = Inr st'" "sched_ok st"
  then show "sched_ok st'"
    using schedule_ok [of st None ra] by (auto simp: yield_now_def)
next
  fix r ra
  assume "block r ra st = Inr st'" "sched_ok st"
  then show "sched_ok st'"
    using schedule_ok [of st "Some r" ra] by (auto simp: block_def)
qed (rule spawn_ok, simp_all)

lemma sched_init_ok:
  assumes "sched_init sb cell entry spc st = Inr st'" and "unat (id_counter st) + 1 < 2 ^ 64"
  shows "sched_ok st'"
proof -
  obtain t k m where t: "task_new sb cell entry PRIORITY_IDLE DEFAULT_STACK_SIZE spc (id_counter st) (snd (core st)) = Inr (t, k, m)"
    and st': "st' = st\<lparr>sched_locked := False, SCHEDULER := Some (scheduler_new t), id_counter := k, core := (fst (core st), m)\<rparr>"
    using assms(1) by (cases st) (auto simp: sched_init_def rbind_Inr_iff sched_lock_def split: if_splits)
  have "id_counter st < id_counter st + 1"
    using assms(2) by (simp add: word_less_nat_alt unat_plus_if')
  then show ?thesis
    using task_new_Inr [OF t]
    by (simp add: st' sched_ok_def places_ok_def keys_ok_def tasks_of_def scheduler_new_def)
qed

section \<open>Round robin\<close>

definition peers :: "priority \<Rightarrow> task list \<Rightarrow> task list" where
  "peers p q = filter (\<lambda>t. is_runnable t \<and> prio t = p) q"

definition none_higher :: "priority \<Rightarrow> task list \<Rightarrow> bool" where
  "none_higher p q \<longleftrightarrow> (\<forall>t \<in> set q. is_runnable t \<longrightarrow> level t \<le> priority_as_u8 p)"

lemma pick_peer:
  assumes ps: "peers p (run_queue s) = t # ts" and "none_higher p (run_queue s)" and "0 < priority_as_u8 p"
  shows "\<exists>q. pick_next s = (Some t, s\<lparr>run_queue := q\<rparr>) \<and> peers p q = ts \<and> none_higher p q \<and> prio t = p"
proof -
  obtain xs ys where q: "run_queue s = xs @ t # ys" "\<forall>x \<in> set xs. \<not> (is_runnable x \<and> prio x = p)"
    "is_runnable t" "prio t = p" "peers p ys = ts"
    using ps by (auto simp: peers_def filter_eq_Cons_iff)
  have "level x < level t" if "x \<in> set xs" "eligible x" for x
  proof -
    have "level x \<le> level t" "prio x \<noteq> prio t"
      using that assms(2) q(1,2,4) by (auto simp: none_higher_def eligible_def)
    then show ?thesis
      by (metis order_neq_le_trans priority.expand)
  qed
  moreover have "level y \<le> level t" if "y \<in> set ys" "eligible y" for y
    using that assms(2) q(1,4) by (auto simp: none_higher_def eligible_def)
  ultimately have "first_best xs t ys"
    using q(3,4) assms(3) by (simp add: first_best_def eligible_def)
  moreover have "peers p (xs @ ys) = ts"
    using q(2,5) by (auto simp: peers_def filter_empty_conv)
  ultimately show ?thesis
    using pick_next_some [OF q(1)] assms(2) q(1,4) by (intro exI [of _ "xs @ ys"]) (auto simp: none_higher_def)
qed

lemma yield_step:
  assumes ok: "places_ok s" and c: "current s = Some c" "0 < level c" and nh: "none_higher (prio c) (run_queue s)"
    and ps: "peers (prio c) (run_queue s) @ [c\<lparr>state := Ready\<rparr>] = t # ts"
  shows "\<exists>s'. schedule_step None s = Inr ((context_at c, context_at t), s') \<and> current s' = Some (t\<lparr>state := Running\<rparr>) \<and>
    prio t = prio c \<and> peers (prio c) (run_queue s') = ts \<and> none_higher (prio c) (run_queue s')"
proof -
  let ?s = "(reap s)\<lparr>current := None, run_queue := run_queue s @ [c\<lparr>state := Ready\<rparr>]\<rparr>"
  have "peers (prio c) (run_queue ?s) = t # ts" "none_higher (prio c) (run_queue ?s)"
    using ps nh by (auto simp: peers_def is_runnable_def none_higher_def)
  from pick_peer [OF this c(2)] obtain q where q: "pick_next ?s = (Some t, ?s\<lparr>run_queue := q\<rparr>)"
    "peers (prio c) q = ts" "none_higher (prio c) q" "prio t = prio c"
    by blast
  have "park_current None (reap s) = Inr (context_at c, ?s)"
    using c(1) by (simp add: park_current_def reap_def)
  then show ?thesis
    using q by (simp add: schedule_step_def select_next_def)
qed

fun yields :: "u64 \<Rightarrow> nat \<Rightarrow> sched_state \<Rightarrow> sched_state res" where
  "yields ra 0 st = Inr st"
| "yields ra (Suc k) st = rbind (yield_now ra st) (yields ra k)"

lemma yields_rotate:
  assumes "sched_ok st" and "SCHEDULER st = Some s" and "current s = Some c" and "0 < level c"
    and "none_higher (prio c) (run_queue s)" and "k < length (peers (prio c) (run_queue s))"
  shows "\<exists>st' s'. yields ra (Suc k) st = Inr st' \<and> sched_ok st' \<and> SCHEDULER st' = Some s' \<and>
    current s' = Some ((peers (prio c) (run_queue s) ! k)\<lparr>state := Running\<rparr>)"
  using assms
proof (induction k arbitrary: st s c)
  case (0 st s c)
  obtain t ts where ps: "peers (prio c) (run_queue s) = t # ts"
    using 0(6) by (cases "peers (prio c) (run_queue s)") auto
  have pl: "places_ok s" "\<not> sched_locked st"
    using 0(1,2) by (auto simp: sched_ok_def)
  obtain s' where s': "schedule_step None s = Inr ((context_at c, context_at t), s')" "current s' = Some (t\<lparr>state := Running\<rparr>)"
    using yield_step [OF pl(1) 0(3,4,5)] ps by auto
  obtain st' where st': "yield_now ra st = Inr st'" "sched_ok st'"
    using schedule_ok [OF 0(1)] by (auto simp: yield_now_def)
  then have "SCHEDULER st' = Some s'"
    using s'(1) 0(2) pl(2) by (auto simp: yield_now_def schedule_def with_scheduler_def sched_lock_def)
  then show ?case
    using st' s'(2) ps by simp
next
  case (Suc k st s c)
  obtain t ts where ps: "peers (prio c) (run_queue s) = t # ts"
    using Suc.prems(6) by (cases "peers (prio c) (run_queue s)") auto
  have pl: "places_ok s" "\<not> sched_locked st"
    using Suc.prems(1,2) by (auto simp: sched_ok_def)
  obtain s' where s': "schedule_step None s = Inr ((context_at c, context_at t), s')" "current s' = Some (t\<lparr>state := Running\<rparr>)"
    "prio t = prio c" "peers (prio c) (run_queue s') = ts @ [c\<lparr>state := Ready\<rparr>]" "none_higher (prio c) (run_queue s')"
    using yield_step [OF pl(1) Suc.prems(3,4,5)] ps by auto
  obtain st' where st': "yield_now ra st = Inr st'" "sched_ok st'"
    using schedule_ok [OF Suc.prems(1)] by (auto simp: yield_now_def)
  then have S: "SCHEDULER st' = Some s'"
    using s'(1) Suc.prems(2) pl(2) by (auto simp: yield_now_def schedule_def with_scheduler_def sched_lock_def)
  have k: "k < length ts"
    using Suc.prems(6) ps by simp
  have "\<exists>st'' s''. yields ra (Suc k) st' = Inr st'' \<and> sched_ok st'' \<and> SCHEDULER st'' = Some s'' \<and>
      current s'' = Some ((peers (prio (t\<lparr>state := Running\<rparr>)) (run_queue s') ! k)\<lparr>state := Running\<rparr>)"
    using Suc.prems(4) s'(3-5) k by (intro Suc.IH [OF st'(2) S s'(2)]) simp_all
  then show ?case
    using st'(1) s'(3,4) ps k by (simp add: nth_append)
qed

section \<open>Properties\<close>

text \<open>
  C36. \<open>pick_next\<close> is the reference: of the ready tasks with a priority above 0 it takes the one that
  comes first when they are sorted stably by falling priority, and removes it from the queue. A
  task with priority 0 is never picked.
\<close>

theorem pick_next_correct:
  "pick_next s = (case highest_first (run_queue s) of
     None \<Rightarrow> (None, s) | Some (t, q) \<Rightarrow> (Some t, s\<lparr>run_queue := q\<rparr>))"
  by (rule pick_next_reference)


definition boot_state :: sched_state where
  "boot_state = \<lparr>SCHEDULER = None, sched_locked = False, id_counter = 1, core = (zero_regs\<lparr>rsp := 8192\<rparr>, \<lambda>_. 0)\<rparr>"

lemma boot_stack: "stack_top \<lparr>buf_ptr = 1048576, buf_len = DEFAULT_STACK_SIZE\<rparr> = Inr 1114112"
proof -
  obtain tos where "stack_top \<lparr>buf_ptr = 1048576, buf_len = DEFAULT_STACK_SIZE\<rparr> = Inr tos" "unat tos = 1114112"
    using stack_top_eq [of 1048576 DEFAULT_STACK_SIZE] by (auto simp: DEFAULT_STACK_SIZE_def)
  then show ?thesis
    by (simp add: word_eq_unat)
qed

lemma boot_init: "\<exists>st1. sched_init (Some 1048576) 64 0x1000 0 boot_state = Inr st1"
proof -
  have "64 \<notin> frame_cells (tos - 8)" if "stack_top \<lparr>buf_ptr = 1048576, buf_len = DEFAULT_STACK_SIZE\<rparr> = Inr tos" for tos
    using that by (simp add: boot_stack frame_cells_def)
  then have "\<exists>t m'. task_new (Some 1048576) 64 0x1000 PRIORITY_IDLE DEFAULT_STACK_SIZE 0 1 (\<lambda>_. 0) = Inr (t, 1 + 1, m')"
    using task_new_frame [of 1048576 DEFAULT_STACK_SIZE 64 "0x1000" PRIORITY_IDLE 0 1 "\<lambda>_. 0"] by (auto simp: DEFAULT_STACK_SIZE_def)
  then show ?thesis
    by (auto simp: sched_init_def sched_lock_def boot_state_def DEFAULT_STACK_SIZE_def)
qed


text \<open>
  C38. No task waits forever behind its peers. While the current task has the highest priority of all
  ready tasks, and the tasks only yield, every ready task of that priority gets its turn: the one
  with \<open>k\<close> such tasks before it in the run queue is running after exactly \<open>k + 1\<close> calls of
  \<open>yield_now\<close>.
\<close>

theorem round_robin_liveness:
  assumes "sched_ok st" and "SCHEDULER st = Some s" and "current s = Some c" and "0 < priority_as_u8 (prio c)"
    and "none_higher (prio c) (run_queue s)" and "t \<in> set (run_queue s)" and "is_runnable t" and "prio t = prio c"
  shows "\<exists>k st' s'. k < length (peers (prio c) (run_queue s)) \<and> peers (prio c) (run_queue s) ! k = t \<and>
    yields ra (k + 1) st = Inr st' \<and> SCHEDULER st' = Some s' \<and> current s' = Some (t\<lparr>state := Running\<rparr>)"
proof -
  have "t \<in> set (peers (prio c) (run_queue s))"
    using assms(6-8) by (simp add: peers_def)
  then obtain k where k: "k < length (peers (prio c) (run_queue s))" "peers (prio c) (run_queue s) ! k = t"
    by (auto simp: in_set_conv_nth)
  from yields_rotate [OF assms(1-5) k(1), of ra] k show ?thesis
    by auto
qed

definition demo_task :: "u64 \<Rightarrow> task_state \<Rightarrow> priority \<Rightarrow> task" where
  "demo_task i st p = \<lparr>task_id = TaskId i, state = st, prio = p, context_at = 64 + 8 * i,
     stack = \<lparr>buf_ptr = 1048576 * i, buf_len = DEFAULT_STACK_SIZE\<rparr>, address_space = 0\<rparr>"

definition demo_state :: "task option \<Rightarrow> task list \<Rightarrow> sched_state" where
  "demo_state cur q = \<lparr>SCHEDULER = Some \<lparr>run_queue = q, current = cur, idle = demo_task 1 Created PRIORITY_IDLE, dead = []\<rparr>,
     sched_locked = False, id_counter = 8, core = (zero_regs\<lparr>rsp := 8192\<rparr>, \<lambda>_. 0)\<rparr>"

lemmas demo_simps = demo_state_def demo_task_def sched_ok_def places_ok_def keys_ok_def tasks_of_def

theorem round_robin_liveness_witness:
  "\<exists>k st' s'. k < 2 \<and> yields 0x2000 (k + 1)
       (demo_state (Some (demo_task 2 Running PRIORITY_NORMAL)) [demo_task 3 Ready PRIORITY_NORMAL, demo_task 4 Ready PRIORITY_NORMAL])
       = Inr st' \<and> SCHEDULER st' = Some s' \<and> current s' = Some (demo_task 4 Running PRIORITY_NORMAL)"
proof -
  let ?c = "demo_task 2 Running PRIORITY_NORMAL" and ?q = "[demo_task 3 Ready PRIORITY_NORMAL, demo_task 4 Ready PRIORITY_NORMAL]"
  let ?s = "\<lparr>run_queue = ?q, current = Some ?c, idle = demo_task 1 Created PRIORITY_IDLE, dead = []\<rparr>"
  have ok: "sched_ok (demo_state (Some ?c) ?q)"
    by (simp add: demo_simps)
  have s: "SCHEDULER (demo_state (Some ?c) ?q) = Some ?s"
    by (simp add: demo_state_def)
  have p: "length (peers (prio ?c) (run_queue ?s)) = 2"
    by (simp add: peers_def demo_task_def is_runnable_def)
  have "0 < priority_as_u8 (prio ?c)" "none_higher (prio ?c) (run_queue ?s)" "demo_task 4 Ready PRIORITY_NORMAL \<in> set (run_queue ?s)"
    "is_runnable (demo_task 4 Ready PRIORITY_NORMAL)" "prio (demo_task 4 Ready PRIORITY_NORMAL) = prio ?c"
    by (simp_all add: demo_task_def PRIORITY_NORMAL_def none_higher_def is_runnable_def)
  from round_robin_liveness [OF ok s _ this, of "0x2000"] show ?thesis
    unfolding p by (auto simp: demo_task_def)
qed

text \<open>
  C39. The idle task is lost as soon as \<open>schedule\<close> runs without a current task, as it does for the
  first \<open>yield_now\<close> of \<open>kmain\<close> and in \<open>exit\<close>: the caller's execution is saved in the context of the
  idle task. When a task later blocks and no other task can run, the core does not enter the idle
  loop but resumes that caller behind its call of \<open>schedule\<close>, where both callers have
  \<open>unreachable!()\<close>.
\<close>

theorem idle_context_overwritten:
  assumes first: "SCHEDULER st = Some s" "current s = None" "\<not> sched_locked st" "core st = (c, m)"
      "schedule None ra st = Inr st1" "context_at (idle s) \<notin> frame_cells (rsp c)"
    and later: "SCHEDULER st2 = Some s2" "current s2 = Some t" "state t = Running" "\<not> sched_locked st2" "core st2 = (c2, m2)"
      "context_at (idle s2) = context_at (idle s)" "\<forall>u \<in> set (run_queue s2). \<not> eligible u"
    and intact: "\<And>x. x \<in> insert (context_at (idle s)) (frame_cells (rsp c)) \<Longrightarrow> m2 x = snd (core st1) x"
      "insert (context_at (idle s)) (frame_cells (rsp c)) \<inter> insert (context_at t) (frame_cells (rsp c2)) = {}"
  shows "\<exists>st3. block r ra2 st2 = Inr st3 \<and> rip (fst (core st3)) = ra \<and> rsp (fst (core st3)) = rsp c"
proof -
  let ?a = "context_at (idle s)"
  obtain b where b: "core st1 = switch_to ?a b ra (c, m)"
    using first by (cases "select_next (reap s)")
      (auto simp: schedule_def with_scheduler_def sched_lock_def schedule_step_def park_current_def reap_def)
  let ?q = "(reap s2)\<lparr>current := None, run_queue := run_queue s2 @ [t\<lparr>state := Blocked r\<rparr>]\<rparr>"
  have "\<forall>u \<in> set (run_queue ?q). \<not> eligible u"
    using later(7) by (simp add: eligible_def is_runnable_def)
  then have "pick_next ?q = (None, ?q)"
    by (rule pick_next_none)
  then obtain st3 where st3: "block r ra2 st2 = Inr st3" "core st3 = switch_to (context_at t) ?a ra2 (c2, m2)"
    using later(1-6) by (auto simp: block_def schedule_def with_scheduler_def sched_lock_def schedule_step_def
        park_current_def reap_def task_block_def select_next_def)
  then show ?thesis
    using x86.resumes [OF first(6) intact(1) [unfolded b] intact(2), of ra2] by simp
qed

theorem idle_context_overwritten_witness:
  "\<exists>st1 st3. schedule None 0x1234 (demo_state None [demo_task 2 Ready PRIORITY_NORMAL]) = Inr st1 \<and>
     block Sleep 0x5678 (st1\<lparr>core := (zero_regs\<lparr>rsp := 16384\<rparr>, snd (core st1))\<rparr>) = Inr st3 \<and>
     rip (fst (core st3)) = 0x1234"
proof -
  let ?t = "demo_task 2 Ready PRIORITY_NORMAL"
  let ?s = "\<lparr>run_queue = [?t], current = None, idle = demo_task 1 Created PRIORITY_IDLE, dead = []\<rparr>"
  let ?s2 = "\<lparr>run_queue = [], current = Some (?t\<lparr>state := Running\<rparr>), idle = demo_task 1 Created PRIORITY_IDLE, dead = []\<rparr>"
  let ?st = "demo_state None [?t]"
  have st: "SCHEDULER ?st = Some ?s" "current ?s = None" "\<not> sched_locked ?st" "core ?st = (zero_regs\<lparr>rsp := 8192\<rparr>, \<lambda>_. 0)"
    by (simp_all add: demo_state_def)
  have "schedule_step None ?s = Inr ((context_at (idle ?s), context_at ?t), ?s2)"
    by (simp add: schedule_step_def park_current_def reap_def select_next_def pick_next_def queue_remove_def is_runnable_def
        demo_task_def PRIORITY_NORMAL_def)
  then obtain st1 where st1: "schedule None 0x1234 ?st = Inr st1" "SCHEDULER st1 = Some ?s2" "\<not> sched_locked st1"
    by (simp add: schedule_def with_scheduler_def sched_lock_def st)
  let ?st2 = "st1\<lparr>core := (zero_regs\<lparr>rsp := 16384\<rparr>, snd (core st1))\<rparr>"
  have "context_at (idle ?s) \<notin> frame_cells (rsp (zero_regs\<lparr>rsp := 8192\<rparr>))"
    "insert (context_at (idle ?s)) (frame_cells (rsp (zero_regs\<lparr>rsp := 8192\<rparr>))) \<inter>
       insert (context_at (?t\<lparr>state := Running\<rparr>)) (frame_cells (rsp (zero_regs\<lparr>rsp := 16384\<rparr>))) = {}"
    by (simp_all add: frame_cells_def demo_task_def)
  from idle_context_overwritten [OF st st1(1) this(1), of ?st2 ?s2 _ _ "snd (core st1)", OF _ _ _ _ _ _ _ _ this(2), of Sleep "0x5678"]
  show ?thesis
    using st1 by auto
qed

end
