(* ===== verification/Spec2Isabelle.thy ===== *)
theory Spec2Isabelle
  imports Init Region Heap_Alloc Kernel_Space Scheduler
begin

text \<open>
  Verification of the eira microkernel: addresses, frames, the bitmap frame allocator
  and its initialisation, regions of virtual addresses, the kernel heap and paging.
\<close>

end
